(* ===== verification/Prelude.thy ===== *)
theory Prelude imports
  Main
  "HOL-Library.Word"
  "HOL-Library.Multiset"
begin

text \<open>
  Shared vocabulary of the development: the machine types, the error codes the
  C++ sources compare against, and the facts on words, masks and lists that
  several components use.
\<close>

unbundle bit_operations_syntax

subsection \<open>Types\<close>

type_synonym u64 = "64 word"
type_synonym u16 = "16 word"
type_synonym byte = "8 word"
type_synonym fd = int

text \<open>
  Collections of rewrite rules: \<open>ring_simps\<close> for index arithmetic of the
  ring buffer, \<open>pool_simps\<close> for the thread pool, \<open>srv_simps\<close> for the servers.
\<close>

named_theorems ring_simps \<open>index arithmetic of the ring buffer\<close>
named_theorems pool_simps \<open>thread pool state updates\<close>
named_theorems srv_simps \<open>server handlers\<close>

subsection \<open>Masks and powers of two\<close>

lemma bit_top_nat:
  assumes "2 ^ n \<le> (a::nat)" and "a < 2 ^ Suc n"
  shows "bit a n"
proof -
  have "a div 2 ^ n = 1"
    using assms by (intro div_nat_eqI) auto
  then show ?thesis by (simp add: bit_iff_odd)
qed

lemma top_power_nat:
  assumes "0 < (a::nat)"
  shows "\<exists>n. 2 ^ n \<le> a \<and> a < 2 ^ Suc n"
  using assms
proof (induction a rule: less_induct)
  case (less a)
  show ?case
  proof (cases "a = 1")
    case True
    then show ?thesis by (intro exI [of _ 0]) simp
  next
    case False
    with less.prems obtain n where "2 ^ n \<le> a div 2" "a div 2 < 2 ^ Suc n"
      using less.IH [of "a div 2"] by auto
    then show ?thesis by (intro exI [of _ "Suc n"]) auto
  qed
qed

lemma unat_power_two: "k < 64 \<Longrightarrow> unat ((2::u64) ^ k) = 2 ^ k"
proof -
  assume k: "k < 64"
  have "unat ((2::u64) ^ k) = unat (of_nat (2 ^ k) :: u64)"
    by simp
  also have "\<dots> = 2 ^ k mod 2 ^ 64"
    by (simp only: unsigned_of_nat take_bit_eq_mod) simp
  also have "\<dots> = 2 ^ k"
    using k by (intro mod_less power_strict_increasing) auto
  finally show ?thesis .
qed

lemma unat_and_pow2 [ring_simps]: "unat (x AND ((2::u64) ^ k - 1)) = unat x mod 2 ^ k"
proof -
  have "x AND ((2::u64) ^ k - 1) = take_bit k x"
    by (simp only: take_bit_eq_mask mask_eq_exp_minus_1)
  then show ?thesis
    by (simp only: unsigned_take_bit_eq flip: take_bit_eq_mod)
qed

lemma unat_diff_of_nat:
  assumes "b \<le> a" and "a - b < 2 ^ 64"
  shows "unat (of_nat a - of_nat b :: u64) = a - b"
proof -
  have "of_nat a - of_nat b = (of_nat (a - b) :: u64)"
    using assms(1) by simp
  then show ?thesis
    using assms(2) by (simp only: unsigned_of_nat take_bit_eq_mod) simp
qed

lemma unat_Suc_less: "(i::u64) < n \<Longrightarrow> unat (i + 1) = Suc (unat i)"
proof -
  assume "i < n"
  then have "unat i + 1 \<le> unat n" by (simp add: word_less_nat_alt)
  also have "unat n < 2 ^ 64" using unsigned_less [of n] by simp
  finally show ?thesis by (simp add: unat_word_ariths)
qed

lemma unat_minus_one: "(s::u64) \<noteq> 0 \<Longrightarrow> unat (s - 1) = unat s - 1"
  by (simp add: unat_minus_one)

text \<open>
  The idiom \<open>(Size & (Size - 1)) == 0\<close> accepts exactly the powers of two that fit
  the type, and 0.
\<close>

lemma and_decr_pow2_iff:
  "(s::u64) AND (s - 1) = 0 \<longleftrightarrow> s = 0 \<or> (\<exists>k<64. s = 2 ^ k)"
proof
  assume z: "s AND (s - 1) = 0"
  show "s = 0 \<or> (\<exists>k<64. s = 2 ^ k)"
  proof (cases "s = 0")
    case False
    then obtain n where n: "2 ^ n \<le> unat s" "unat s < 2 ^ Suc n"
      using top_power_nat [of "unat s"] by (auto simp: unat_gt_0)
    have n64: "n < 64"
    proof (rule ccontr)
      assume "\<not> n < 64"
      then have "(2::nat) ^ 64 \<le> 2 ^ n" by (intro power_increasing) auto
      with n(1) unsigned_less [of s, where 'a = nat] show False by simp
    qed
    have "unat s = 2 ^ n"
    proof (rule ccontr)
      assume ne: "unat s \<noteq> 2 ^ n"
      have "bit (unat s) n" using n by (rule bit_top_nat)
      moreover have "bit (unat (s - 1)) n"
        using n ne False by (intro bit_top_nat) (auto simp: unat_minus_one)
      ultimately have "bit (s AND (s - 1)) n"
        by (simp add: bit_and_iff bit_unsigned_iff)
      with z show False by simp
    qed
    then have "s = 2 ^ n"
      using n64 by (metis unat_power_two word_unat_eq_iff)
    with n64 show ?thesis by blast
  qed simp
next
  assume "s = 0 \<or> (\<exists>k<64. s = 2 ^ k)"
  then show "s AND (s - 1) = 0"
  proof
    assume "\<exists>k<64. s = 2 ^ k"
    then obtain k where k: "k < 64" "s = 2 ^ k" by blast
    then have "unat (s AND (s - 1)) = 0"
      by (simp add: unat_and_pow2 unat_power_two)
    then show ?thesis by (simp add: unat_eq_0)
  qed simp
qed

subsection \<open>Lists\<close>

lemma prefix_take_nth:
  "n \<le> length xs \<Longrightarrow> (\<And>i. i < n \<Longrightarrow> f i = xs ! i) \<Longrightarrow> map f [0..<n] = take n xs"
  by (intro nth_equalityI) auto

lemma upt_Suc_map_snoc: "map f [0..<Suc n] = map f [0..<n] @ [f n]"
  by simp

lemma upt_Suc_map_Cons: "map f [0..<Suc n] = f 0 # map (\<lambda>i. f (Suc i)) [0..<n]"
  by (simp add: upt_conv_Cons map_Suc_upt [symmetric] comp_def del: upt_Suc)

text \<open>Replacing one element of a list, seen through a sum or a concatenation over all of them.\<close>

lemma sum_update:
  "i < length xs \<Longrightarrow> sum_list (map f (xs[i := x])) + f (xs ! i) = sum_list (map f xs) + (f x :: nat)"
proof (induction xs arbitrary: i)
  case (Cons y ys)
  then show ?case by (cases i) (auto simp: ac_simps)
qed simp

lemma concat_update:
  "i < length xs \<Longrightarrow> mset (concat (map f (xs[i := x]))) + mset (f (xs ! i)) = mset (concat (map f xs)) + mset (f x)"
proof (induction xs arbitrary: i)
  case (Cons y ys)
  then show ?case by (cases i) (auto simp: ac_simps)
qed simp

end
