(* ===== verification/Queue_Interface.thy ===== *)
theory Queue_Interface imports
  Prelude
begin

text \<open>
  The contract that \<open>SPSCRingBuffer\<close> and \<open>MutexQueue\<close> share: a bounded FIFO queue
  whose \<open>push\<close> reports whether there was room and whose \<open>pop\<close> writes an out
  parameter. The specification is a list with a capacity; the interface is a locale,
  interpreted on the model of each class in the theory of that class.
\<close>

subsection \<open>Operations and their observable results\<close>

text \<open>
  \<open>Pop v\<close> is a call \<open>pop(item)\<close> with \<open>item == v\<close> before it, so that a result also
  shows what a failed call leaves in the out parameter.
\<close>

datatype 'a qop = Push 'a | Pop 'a

datatype 'a qres = Pushed bool | Popped bool 'a

fun exec_op :: "('a \<Rightarrow> 'q \<Rightarrow> bool \<times> 'q) \<Rightarrow> ('a \<Rightarrow> 'q \<Rightarrow> bool \<times> 'a \<times> 'q)
    \<Rightarrow> 'a qop \<Rightarrow> 'q \<Rightarrow> 'a qres \<times> 'q" where
  "exec_op push pop (Push x) q = (case push x q of (b, q') \<Rightarrow> (Pushed b, q'))"
| "exec_op push pop (Pop v) q = (case pop v q of (b, y, q') \<Rightarrow> (Popped b y, q'))"

fun run_ops :: "('a \<Rightarrow> 'q \<Rightarrow> bool \<times> 'q) \<Rightarrow> ('a \<Rightarrow> 'q \<Rightarrow> bool \<times> 'a \<times> 'q)
    \<Rightarrow> 'a qop list \<Rightarrow> 'q \<Rightarrow> 'a qres list \<times> 'q" where
  "run_ops push pop [] q = ([], q)"
| "run_ops push pop (e # es) q =
     (let (r, q') = exec_op push pop e q; (rs, q'') = run_ops push pop es q'
      in (r # rs, q''))"

subsection \<open>The specification: a list with a capacity\<close>

definition fifo_push :: "nat \<Rightarrow> 'a \<Rightarrow> 'a list \<Rightarrow> bool \<times> 'a list" where
  "fifo_push cap x xs = (if length xs < cap then (True, xs @ [x]) else (False, xs))"

definition fifo_pop :: "'a \<Rightarrow> 'a list \<Rightarrow> bool \<times> 'a \<times> 'a list" where
  "fifo_pop v xs = (case xs of [] \<Rightarrow> (False, v, []) | y # ys \<Rightarrow> (True, y, ys))"

abbreviation fifo_run :: "nat \<Rightarrow> 'a qop list \<Rightarrow> 'a list \<Rightarrow> 'a qres list \<times> 'a list" where
  "fifo_run cap \<equiv> run_ops (fifo_push cap) fifo_pop"

fun pushed_items :: "'a qop list \<Rightarrow> 'a qres list \<Rightarrow> 'a list" where
  "pushed_items (Push x # es) (Pushed b # rs) = (if b then [x] else []) @ pushed_items es rs"
| "pushed_items (_ # es) (_ # rs) = pushed_items es rs"
| "pushed_items _ _ = []"

fun popped_items :: "'a qres list \<Rightarrow> 'a list" where
  "popped_items (Popped b y # rs) = (if b then [y] else []) @ popped_items rs"
| "popped_items (Pushed b # rs) = popped_items rs"
| "popped_items [] = []"

lemma fifo_exec_bounded:
  "exec_op (fifo_push cap) fifo_pop e xs = (r, ys) \<Longrightarrow> length xs \<le> cap \<Longrightarrow> length ys \<le> cap"
  by (cases e) (auto simp: fifo_push_def fifo_pop_def split: if_splits list.splits)

lemma fifo_run_bounded:
  "fifo_run cap es xs = (rs, ys) \<Longrightarrow> length xs \<le> cap \<Longrightarrow> length ys \<le> cap"
  by (induction es arbitrary: xs rs)
    (auto simp: Let_def split: prod.splits dest: fifo_exec_bounded)

lemma fifo_exec_conserves:
  "exec_op (fifo_push cap) fifo_pop e xs = (r, ys) \<Longrightarrow>
     xs @ pushed_items [e] [r] = popped_items [r] @ ys"
  by (cases e) (auto simp: fifo_push_def fifo_pop_def split: if_splits list.splits)

lemma pushed_items_Cons: "pushed_items (e # es) (r # rs) = pushed_items [e] [r] @ pushed_items es rs"
  by (cases e; cases r) auto

lemma popped_items_Cons: "popped_items (r # rs) = popped_items [r] @ popped_items rs"
  by (cases r) auto

text \<open>What goes in comes out once, in order: nothing is lost, duplicated or reordered.\<close>

lemma fifo_run_conserves:
  "fifo_run cap es xs = (rs, ys) \<Longrightarrow> xs @ pushed_items es rs = popped_items rs @ ys"
proof (induction es arbitrary: xs rs)
  case Nil
  then show ?case by simp
next
  case (Cons e es)
  then obtain r zs rs' where
    e: "exec_op (fifo_push cap) fifo_pop e xs = (r, zs)" and
    es: "fifo_run cap es zs = (rs', ys)" and rs: "rs = r # rs'"
    by (auto simp: Let_def split: prod.splits)
  have "xs @ pushed_items [e] [r] = popped_items [r] @ zs"
    using e by (rule fifo_exec_conserves)
  moreover have "zs @ pushed_items es rs' = popped_items rs' @ ys"
    using es by (rule Cons.IH)
  ultimately show ?case
    by (simp only: rs pushed_items_Cons [of e es] popped_items_Cons [of r rs'])
      (metis append.assoc)
qed

subsection \<open>The interface\<close>

locale bounded_queue =
  fixes push :: "'a \<Rightarrow> 'q \<Rightarrow> bool \<times> 'q"
    and pop :: "'a \<Rightarrow> 'q \<Rightarrow> bool \<times> 'a \<times> 'q"
    and contents :: "'q \<Rightarrow> 'a list"
    and inv :: "'q \<Rightarrow> bool"
    and cap :: nat
  assumes bounded: "inv q \<Longrightarrow> length (contents q) \<le> cap"
    and push_law: "inv q \<Longrightarrow> push x q = (b, q') \<Longrightarrow>
      inv q' \<and> fifo_push cap x (contents q) = (b, contents q')"
    and pop_law: "inv q \<Longrightarrow> pop v q = (b, y, q') \<Longrightarrow>
      inv q' \<and> fifo_pop v (contents q) = (b, y, contents q')"
begin

lemmas queue_laws = bounded push_law pop_law

lemma exec_refines:
  assumes "inv q" and "exec_op push pop e q = (r, q')"
  shows "inv q' \<and> exec_op (fifo_push cap) fifo_pop e (contents q) = (r, contents q')"
proof (cases e)
  case (Push x)
  obtain b q1 where p: "push x q = (b, q1)" by fastforce
  with assms Push push_law [OF assms(1) p] show ?thesis by simp
next
  case (Pop v)
  obtain b y q1 where p: "pop v q = (b, y, q1)" by (metis prod_cases3)
  with assms Pop pop_law [OF assms(1) p] show ?thesis by simp
qed

lemma run_refines:
  assumes "inv q" and "run_ops push pop es q = (rs, q')"
  shows "inv q' \<and> fifo_run cap es (contents q) = (rs, contents q')"
  using assms
proof (induction es arbitrary: q rs)
  case Nil
  then show ?case by simp
next
  case (Cons e es)
  then obtain r q1 rs' where
    e: "exec_op push pop e q = (r, q1)" and
    es: "run_ops push pop es q1 = (rs', q')" and rs: "rs = r # rs'"
    by (auto simp: Let_def split: prod.splits)
  note step = exec_refines [OF Cons.prems(1) e]
  note rest = Cons.IH [OF conjunct1 [OF step] es]
  show ?case using step rest by (simp add: rs)
qed

lemma run_conserves:
  assumes "inv q" and "run_ops push pop es q = (rs, q')"
  shows "contents q @ pushed_items es rs = popped_items rs @ contents q'"
  using run_refines [OF assms] by (auto intro: fifo_run_conserves)

lemma run_bounded:
  assumes "inv q" and "run_ops push pop es q = (rs, q')"
  shows "length (contents q') \<le> cap"
  using run_refines [OF assms] by (auto intro: bounded)

text \<open>The outcomes of a single call, for case analysis by a client.\<close>

lemma push_cases:
  assumes "inv q"
  obtains (room) q' where "push x q = (True, q')" "inv q'" "contents q' = contents q @ [x]"
      "length (contents q) < cap"
    | (full) q' where "push x q = (False, q')" "inv q'" "contents q' = contents q"
      "length (contents q) = cap"
proof -
  obtain b q' where p: "push x q = (b, q')" by fastforce
  show thesis
    using push_law [OF assms p] bounded [OF assms] p that
    by (cases b) (auto simp: fifo_push_def split: if_splits)
qed

lemma pop_cases:
  assumes "inv q"
  obtains (item) y q' where "pop v q = (True, y, q')" "inv q'" "contents q = y # contents q'"
    | (empty) q' where "pop v q = (False, v, q')" "inv q'" "contents q = []" "contents q' = []"
proof -
  obtain b y q' where p: "pop v q = (b, y, q')" by (metis prod_cases3)
  show thesis
    using pop_law [OF assms p] p that
    by (cases b) (auto simp: fifo_pop_def split: list.splits)
qed

lemma push_room_iff:
  assumes "inv q"
  shows "fst (push x q) \<longleftrightarrow> length (contents q) < cap"
proof -
  obtain b q' where p: "push x q = (b, q')" by fastforce
  with push_law [OF assms p] show ?thesis by (auto simp: fifo_push_def split: if_splits)
qed

lemma pop_some_iff:
  assumes "inv q"
  shows "fst (pop v q) \<longleftrightarrow> contents q \<noteq> []"
proof -
  obtain b y q' where p: "pop v q = (b, y, q')" by (metis prod_cases3)
  with pop_law [OF assms p] show ?thesis by (auto simp: fifo_pop_def split: list.splits)
qed

end

text \<open>
  Two providers of the interface with the same capacity that hold the same items give the
  same results to every sequence of calls.
\<close>

lemma bounded_queues_agree:
  assumes A: "bounded_queue pushA popA contA invA cap"
    and B: "bounded_queue pushB popB contB invB cap"
    and inv: "invA a" "invB b" and same: "contA a = contB b"
    and ra: "run_ops pushA popA es a = (rs, a')"
    and rb: "run_ops pushB popB es b = (rs', b')"
  shows "rs = rs' \<and> contA a' = contB b'"
proof -
  have "fifo_run cap es (contA a) = (rs, contA a')"
    using bounded_queue.run_refines [OF A inv(1) ra] by simp
  moreover have "fifo_run cap es (contB b) = (rs', contB b')"
    using bounded_queue.run_refines [OF B inv(2) rb] by simp
  ultimately show ?thesis using same by simp
qed

end
