(* ===== verification/Ring_Buffer.thy ===== *)
theory Ring_Buffer imports
  Queue_Interface
begin

text \<open>
  \<open>SPSCRingBuffer<T, Size>\<close>, called sequentially: the class of \<open>src/ring_buffer.cc\<close> and its
  copy in \<open>src/ring_buffer_benchmark.cc\<close>. The indices are free-running 64-bit counters
  that wrap; the slot is the index masked with \<open>Size - 1\<close>. The interleaved executions of
  one producer and one consumer thread are the subject of theory \<open>Ring_Concurrent\<close>.
\<close>

subsection \<open>The class\<close>

record 'a spsc =
  write_idx :: u64
  read_idx :: u64
  buffer :: "'a list"

text \<open>The compile-time check \<open>static_assert((Size & (Size - 1)) == 0)\<close>.\<close>

definition size_ok :: "u64 \<Rightarrow> bool" where
  "size_ok sz \<longleftrightarrow> sz AND (sz - 1) = 0"

text \<open>\<open>d\<close> is the value-initialised \<open>T()\<close> that \<open>std::vector<T>(Size)\<close> fills the buffer with.\<close>

definition spsc_new :: "u64 \<Rightarrow> 'a \<Rightarrow> 'a spsc" where
  "spsc_new sz d = \<lparr>write_idx = 0, read_idx = 0, buffer = replicate (unat sz) d\<rparr>"

definition slot :: "u64 \<Rightarrow> u64 \<Rightarrow> nat" where
  "slot sz i = unat (i AND (sz - 1))"

definition ring_push :: "u64 \<Rightarrow> 'a \<Rightarrow> 'a spsc \<Rightarrow> bool \<times> 'a spsc" where
  "ring_push sz item rb =
     (let current_write = write_idx rb;
          next_write = current_write + 1
      in if next_write - read_idx rb > sz then (False, rb)
         else (True, rb\<lparr>buffer := (buffer rb)[slot sz current_write := item],
                        write_idx := next_write\<rparr>))"

definition ring_pop :: "u64 \<Rightarrow> 'a \<Rightarrow> 'a spsc \<Rightarrow> bool \<times> 'a \<times> 'a spsc" where
  "ring_pop sz item rb =
     (let current_read = read_idx rb
      in if current_read = write_idx rb then (False, item, rb)
         else (True, buffer rb ! slot sz current_read, rb\<lparr>read_idx := current_read + 1\<rparr>))"

text \<open>
  The copy in the benchmark moves the item out: \<open>moved\<close> is what the move leaves in the slot
  (the identity for \<open>uint64_t\<close>).
\<close>

definition bench_ring_push :: "u64 \<Rightarrow> 'a \<Rightarrow> 'a spsc \<Rightarrow> bool \<times> 'a spsc" where
  "bench_ring_push sz item rb =
     (let w = write_idx rb; next' = w + 1
      in if next' - read_idx rb > sz then (False, rb)
         else (True, rb\<lparr>buffer := (buffer rb)[slot sz w := item], write_idx := next'\<rparr>))"

definition bench_ring_pop :: "('a \<Rightarrow> 'a) \<Rightarrow> u64 \<Rightarrow> 'a \<Rightarrow> 'a spsc \<Rightarrow> bool \<times> 'a \<times> 'a spsc" where
  "bench_ring_pop moved sz item rb =
     (let r = read_idx rb
      in if r = write_idx rb then (False, item, rb)
         else let x = buffer rb ! slot sz r
              in (True, x, rb\<lparr>buffer := (buffer rb)[slot sz r := moved x], read_idx := r + 1\<rparr>))"

text \<open>
  \<open>main\<close> of \<open>ring_buffer.cc\<close>: push 42, pop into \<open>received_token\<close> (uninitialised, here \<open>u\<close>)
  and print it if the pop succeeded. The result is the printed token, if any.
\<close>

definition token_main :: "int \<Rightarrow> int \<Rightarrow> int option" where
  "token_main d u =
     (let token_queue = spsc_new 1024 d;
          (_, token_queue) = ring_push 1024 42 token_queue;
          (ok, received_token, _) = ring_pop 1024 u token_queue
      in if ok then Some received_token else None)"

subsection \<open>Which sizes the compiler accepts\<close>

lemma size_ok_iff: "size_ok sz \<longleftrightarrow> sz = 0 \<or> (\<exists>k<64. sz = 2 ^ k)"
  by (simp add: size_ok_def and_decr_pow2_iff)

lemma size_ok_pow2: "size_ok sz \<Longrightarrow> sz \<noteq> 0 \<Longrightarrow> \<exists>k<64. unat sz = 2 ^ k \<and> (\<forall>i. slot sz i = unat i mod 2 ^ k)"
  by (auto simp: size_ok_iff slot_def unat_and_pow2 unat_power_two)

lemma size_ok_le: "size_ok sz \<Longrightarrow> unat sz \<le> 2 ^ 63"
proof (cases "sz = 0")
  case False
  assume "size_ok sz"
  with False obtain k where "k < 64" "unat sz = 2 ^ k"
    using size_ok_pow2 by blast
  moreover from \<open>k < 64\<close> have "(2::nat) ^ k \<le> 2 ^ 63"
    by (intro power_increasing) auto
  ultimately show ?thesis by simp
qed simp

lemma slot_less: "size_ok sz \<Longrightarrow> sz \<noteq> 0 \<Longrightarrow> slot sz i < unat sz"
  using size_ok_pow2 [of sz] by auto

lemma slot_mod: "size_ok sz \<Longrightarrow> sz \<noteq> 0 \<Longrightarrow> slot sz i = unat i mod unat sz"
  using size_ok_pow2 [of sz] by auto

text \<open>
  Masking an index that has wrapped past \<open>2 ^ 64\<close> still walks the slots in order, because
  the capacity divides \<open>2 ^ 64\<close>.
\<close>

lemma slot_of_nat: "size_ok sz \<Longrightarrow> sz \<noteq> 0 \<Longrightarrow> slot sz (of_nat n) = n mod unat sz"
proof -
  assume ok: "size_ok sz" "sz \<noteq> 0"
  obtain k where k: "k < 64" "unat sz = 2 ^ k" "\<And>i. slot sz i = unat i mod 2 ^ k"
    using size_ok_pow2 [OF ok] by blast
  have "slot sz (of_nat n) = n mod 2 ^ 64 mod 2 ^ k"
    by (simp only: k(3) unsigned_of_nat take_bit_eq_mod) simp
  also have "\<dots> = n mod 2 ^ k"
    using k(1) by (intro mod_mod_cancel le_imp_power_dvd) simp
  finally show ?thesis by (simp add: k(2))
qed

lemma slot_plus: "size_ok sz \<Longrightarrow> sz \<noteq> 0 \<Longrightarrow>
    slot sz (r + of_nat i) = (unat r + i) mod unat sz"
  using slot_of_nat [of sz "unat r + i"] by simp

lemma mod_window_inj:
  assumes "(a + i) mod n = (a + j) mod n" and "i < n" and "j < (n::nat)"
  shows "i = j"
proof -
  have *: "i = j" if "(a + i) mod n = (a + j) mod n" "i \<le> j" "j < n" for i j
  proof -
    have "n dvd (a + j) - (a + i)"
      using that mod_eq_dvd_iff_nat [of "a + i" "a + j" n] by simp
    then have "n dvd j - i" by simp
    moreover have "j - i < n" using that by simp
    ultimately show ?thesis using that(2) by (auto dest: dvd_imp_le)
  qed
  show ?thesis
    using *[of i j] *[of j i] assms by (cases "i \<le> j") auto
qed

lemma slot_window_inj:
  assumes "size_ok sz" and "sz \<noteq> 0"
    and "slot sz (r + of_nat i) = slot sz (r + of_nat j)" and "i < unat sz" and "j < unat sz"
  shows "i = j"
  using assms by (auto simp: slot_plus intro: mod_window_inj)

subsection \<open>Invariant and abstraction to a list\<close>

definition used :: "'a spsc \<Rightarrow> nat" where
  "used rb = unat (write_idx rb - read_idx rb)"

definition ring_inv :: "u64 \<Rightarrow> 'a spsc \<Rightarrow> bool" where
  "ring_inv sz rb \<longleftrightarrow> size_ok sz \<and> length (buffer rb) = unat sz \<and> used rb \<le> unat sz"

definition ring_contents :: "u64 \<Rightarrow> 'a spsc \<Rightarrow> 'a list" where
  "ring_contents sz rb = map (\<lambda>i. buffer rb ! slot sz (read_idx rb + of_nat i)) [0..<used rb]"

lemma length_ring_contents [ring_simps]: "length (ring_contents sz rb) = used rb"
  by (simp add: ring_contents_def)

lemma ring_inv_new: "size_ok sz \<Longrightarrow> ring_inv sz (spsc_new sz d)"
  by (simp add: ring_inv_def spsc_new_def used_def)

lemma ring_contents_new [ring_simps]: "ring_contents sz (spsc_new sz d) = []"
  by (simp add: ring_contents_def spsc_new_def used_def)

lemma unat_Suc_small: "unat (x::u64) \<le> 2 ^ 63 \<Longrightarrow> unat (x + 1) = Suc (unat x)"
  by (simp add: unat_word_ariths)

lemma used_le: "ring_inv sz rb \<Longrightarrow> used rb \<le> 2 ^ 63"
  using size_ok_le by (fastforce simp: ring_inv_def)

text \<open>The full test of \<open>push\<close>, decided on the wrapped difference, is the test on the count.\<close>

lemma full_test:
  assumes "ring_inv sz rb"
  shows "write_idx rb + 1 - read_idx rb > sz \<longleftrightarrow> \<not> used rb < unat sz"
proof -
  have "unat (write_idx rb - read_idx rb + 1) = Suc (used rb)"
    using used_le [OF assms] by (simp add: used_def unat_Suc_small)
  then have "unat (write_idx rb + 1 - read_idx rb) = Suc (used rb)"
    by (simp add: algebra_simps)
  then show ?thesis by (auto simp: word_less_nat_alt)
qed

lemma empty_test: "read_idx rb = write_idx rb \<longleftrightarrow> used rb = 0"
  by (auto simp: used_def unat_eq_0)

lemma write_idx_eq: "write_idx rb = read_idx rb + of_nat (used rb)"
  by (simp add: used_def)

lemma ring_push_law:
  assumes inv: "ring_inv sz rb" and push: "ring_push sz x rb = (b, rb')"
  shows "ring_inv sz rb' \<and> fifo_push (unat sz) x (ring_contents sz rb) = (b, ring_contents sz rb')"
proof (cases "used rb < unat sz")
  case False
  with push inv full_test [OF inv] show ?thesis
    by (simp add: ring_push_def fifo_push_def ring_simps Let_def)
next
  case True
  then have nz: "sz \<noteq> 0" by auto
  from inv have ok: "size_ok sz" by (simp add: ring_inv_def)
  let ?j = "slot sz (write_idx rb)"
  from push True full_test [OF inv] have b: "b" and
    rb': "rb' = rb\<lparr>buffer := (buffer rb)[?j := x], write_idx := write_idx rb + 1\<rparr>"
    by (auto simp: ring_push_def Let_def)
  have used': "used rb' = Suc (used rb)"
    using used_le [OF inv] unat_Suc_small [of "write_idx rb - read_idx rb"]
    by (simp add: rb' used_def algebra_simps)
  have old: "?j \<noteq> slot sz (read_idx rb + of_nat i)" if "i < used rb" for i
    using slot_window_inj [OF ok nz, of "read_idx rb" i "used rb"] that True
    by (auto simp flip: write_idx_eq)
  have "ring_contents sz rb' = ring_contents sz rb @ [x]"
    using old slot_less [OF ok nz] inv
    by (simp add: ring_contents_def used') (simp add: rb' ring_inv_def flip: write_idx_eq)
  moreover have "ring_inv sz rb'"
    using inv True used' by (simp add: ring_inv_def) (simp add: rb')
  ultimately show ?thesis
    using b True by (simp add: fifo_push_def ring_simps)
qed

lemma pop_state_law:
  assumes inv: "ring_inv sz rb" and ne: "used rb \<noteq> 0"
    and buf: "length buf = unat sz" "\<And>j. j \<noteq> slot sz (read_idx rb) \<Longrightarrow> buf ! j = buffer rb ! j"
  defines "rb' \<equiv> rb\<lparr>buffer := buf, read_idx := read_idx rb + 1\<rparr>"
  shows "ring_inv sz rb' \<and>
    ring_contents sz rb = buffer rb ! slot sz (read_idx rb) # ring_contents sz rb'"
proof -
  from inv have ok: "size_ok sz" and le: "used rb \<le> unat sz" by (simp_all add: ring_inv_def)
  with ne have nz: "sz \<noteq> 0" by auto
  obtain n where n: "used rb = Suc n" using ne by (cases "used rb") auto
  have "unat (write_idx rb - read_idx rb - 1) = n"
    using n by (simp add: used_def unat_minus_one unat_eq_0 [symmetric])
  then have used': "used rb' = n" by (simp add: rb'_def used_def algebra_simps)
  have keep: "buf ! slot sz (read_idx rb + of_nat (Suc i)) =
      buffer rb ! slot sz (read_idx rb + of_nat (Suc i))" if "i < n" for i
    using slot_window_inj [OF ok nz, of "read_idx rb" "Suc i" 0] that le n
    by (intro buf(2)) auto
  have "ring_contents sz rb = buffer rb ! slot sz (read_idx rb) #
      map (\<lambda>i. buffer rb ! slot sz (read_idx rb + of_nat (Suc i))) [0..<n]"
    by (simp add: ring_contents_def n upt_Suc_map_Cons del: upt_Suc)
  also have "map (\<lambda>i. buffer rb ! slot sz (read_idx rb + of_nat (Suc i))) [0..<n] =
      ring_contents sz rb'"
    unfolding ring_contents_def used' using keep
    by (intro map_cong) (auto simp: rb'_def algebra_simps)
  finally have "ring_contents sz rb = buffer rb ! slot sz (read_idx rb) # ring_contents sz rb'" .
  moreover have "ring_inv sz rb'"
    using inv le n used' buf(1) by (simp add: ring_inv_def) (simp add: rb'_def)
  ultimately show ?thesis by simp
qed

lemma ring_pop_law:
  assumes inv: "ring_inv sz rb" and pop: "ring_pop sz v rb = (b, y, rb')"
  shows "ring_inv sz rb' \<and> fifo_pop v (ring_contents sz rb) = (b, y, ring_contents sz rb')"
proof (cases "used rb = 0")
  case True
  with pop inv have "(b, y, rb') = (False, v, rb)" by (simp add: ring_pop_def empty_test)
  with True inv show ?thesis by (simp add: fifo_pop_def ring_contents_def)
next
  case False
  with pop have "(b, y, rb') = (True, buffer rb ! slot sz (read_idx rb),
      rb\<lparr>buffer := buffer rb, read_idx := read_idx rb + 1\<rparr>)"
    by (auto simp: ring_pop_def empty_test Let_def)
  with pop_state_law [OF inv False, of "buffer rb"] inv show ?thesis
    by (simp add: fifo_pop_def ring_inv_def)
qed

lemma bench_ring_pop_law:
  assumes inv: "ring_inv sz rb" and pop: "bench_ring_pop moved sz v rb = (b, y, rb')"
  shows "ring_inv sz rb' \<and> fifo_pop v (ring_contents sz rb) = (b, y, ring_contents sz rb')"
proof (cases "used rb = 0")
  case True
  with pop inv have "(b, y, rb') = (False, v, rb)" by (simp add: bench_ring_pop_def empty_test)
  with True inv show ?thesis by (simp add: fifo_pop_def ring_contents_def)
next
  case False
  let ?j = "slot sz (read_idx rb)"
  let ?buf = "(buffer rb)[?j := moved (buffer rb ! ?j)]"
  from False pop have "(b, y, rb') = (True, buffer rb ! ?j, rb\<lparr>buffer := ?buf, read_idx := read_idx rb + 1\<rparr>)"
    by (auto simp: bench_ring_pop_def empty_test Let_def)
  with pop_state_law [OF inv False, of ?buf] inv show ?thesis
    by (simp add: fifo_pop_def ring_inv_def)
qed

lemma bench_ring_push_eq: "bench_ring_push = ring_push"
  by (simp add: fun_eq_iff bench_ring_push_def ring_push_def Let_def)

lemma ring_inv_cap: "ring_inv sz rb \<Longrightarrow> length (ring_contents sz rb) \<le> unat sz"
  by (simp add: ring_simps ring_inv_def)

interpretation spsc: bounded_queue "ring_push sz" "ring_pop sz" "ring_contents sz" "ring_inv sz" "unat sz" for sz
proof (unfold_locales, goal_cases)
  case (1 q)
  then show ?case by (rule ring_inv_cap)
next
  case (2 q x b q')
  then show ?case by (rule ring_push_law)
next
  case (3 q v b y q')
  then show ?case by (rule ring_pop_law)
qed

interpretation bspsc: bounded_queue "bench_ring_push sz" "bench_ring_pop moved sz" "ring_contents sz"
  "ring_inv sz" "unat sz" for moved sz
proof (unfold_locales, goal_cases)
  case (1 q)
  then show ?case by (rule ring_inv_cap)
next
  case (2 q x b q')
  then show ?case unfolding bench_ring_push_eq by (rule ring_push_law)
next
  case (3 q v b y q')
  then show ?case by (rule bench_ring_pop_law)
qed

subsection \<open>Properties\<close>

text \<open>
  C10. Refinement of \<open>SPSCRingBuffer\<close>: for every accepted \<open>Size\<close>, any sequence of \<open>push\<close> and
  \<open>pop\<close> calls, starting in any reachable position of the wrapping 64-bit counters, returns
  exactly what a list with capacity \<open>Size\<close> returns, failed calls included, and keeps the
  invariant.
\<close>

theorem ring_refines_fifo:
  assumes "ring_inv sz rb" and "run_ops (ring_push sz) (ring_pop sz) es rb = (rs, rb')"
  shows "ring_inv sz rb' \<and>
    fifo_run (unat sz) es (ring_contents sz rb) = (rs, ring_contents sz rb')"
  using assms by (rule spsc.run_refines)

theorem ring_refines_fifo_witness:
  "ring_inv 2 \<lparr>write_idx = 0, read_idx = - 1, buffer = [7, 8::int]\<rparr> \<and>
   fifo_run 2 [Push 5, Push 6, Pop 0] [8::int] = ([Pushed True, Pushed False, Popped True 8], [5])"
proof -
  let ?rb = "\<lparr>write_idx = 0, read_idx = - 1, buffer = [7, 8::int]\<rparr>"
  have inv: "ring_inv 2 ?rb"
    by (simp add: ring_inv_def size_ok_def used_def)
  have run: "run_ops (ring_push 2) (ring_pop 2) [Push 5, Push 6, Pop 0] ?rb =
      ([Pushed True, Pushed False, Popped True 8], \<lparr>write_idx = 1, read_idx = 0, buffer = [5, 8]\<rparr>)"
    by (simp add: ring_push_def ring_pop_def slot_def)
  show ?thesis
    using inv ring_refines_fifo [OF inv run]
    by (simp add: ring_contents_def used_def slot_def)
qed

text \<open>
  No loss, duplication or reordering: from a fresh ring, after any calls, the items whose
  \<open>push\<close> returned true are the items popped so far followed by the items still stored, in
  order, and at most \<open>Size\<close> of them are stored.
\<close>

theorem ring_fifo_conservation:
  assumes "size_ok sz" and "run_ops (ring_push sz) (ring_pop sz) es (spsc_new sz d) = (rs, rb')"
  shows "pushed_items es rs = popped_items rs @ ring_contents sz rb' \<and>
    length (ring_contents sz rb') \<le> unat sz"
  using spsc.run_conserves [OF ring_inv_new assms(2)] spsc.run_bounded [OF ring_inv_new assms(2)]
    assms(1) by (simp add: ring_contents_new)

theorem ring_fifo_conservation_witness:
  "pushed_items [Push 5, Pop 0, Push 6, Push 7, Push 8] [Pushed True, Popped True 5, Pushed True, Pushed True, Pushed False] =
   popped_items [Pushed True, Popped True 5, Pushed True, Pushed True, Pushed False] @ [6, 7::int]"
proof -
  have ok: "size_ok 2" by (simp add: size_ok_def)
  have two: "replicate 2 (0::int) = [0, 0]" by (simp add: numeral_2_eq_2)
  have run: "run_ops (ring_push 2) (ring_pop 2) [Push 5, Pop 0, Push 6, Push 7, Push 8] (spsc_new 2 (0::int)) =
      ([Pushed True, Popped True 5, Pushed True, Pushed True, Pushed False],
       \<lparr>write_idx = 3, read_idx = 1, buffer = [7, 6]\<rparr>)"
    by (simp add: ring_push_def ring_pop_def slot_def spsc_new_def two)
  show ?thesis
    using ring_fifo_conservation [OF ok run] by (simp add: ring_contents_def used_def slot_def)
qed

text \<open>
  Memory safety: whenever \<open>push\<close> or \<open>pop\<close> gets past its test, the masked index it uses
  lies inside the vector.
\<close>

theorem ring_index_in_bounds:
  assumes "ring_inv sz rb"
  shows "(fst (ring_push sz x rb) \<longrightarrow> slot sz (write_idx rb) < length (buffer rb)) \<and>
    (fst (ring_pop sz v rb) \<longrightarrow> slot sz (read_idx rb) < length (buffer rb))"
proof -
  have "sz \<noteq> 0" if "fst (ring_push sz x rb) \<or> fst (ring_pop sz v rb)"
    using that spsc.push_room_iff [OF assms, of x] spsc.pop_some_iff [OF assms, of v] assms
    by (auto simp: ring_contents_def ring_inv_def)
  then show ?thesis
    using assms slot_less by (auto simp: ring_inv_def)
qed

theorem ring_index_in_bounds_witness:
  "ring_inv 4 (spsc_new 4 (0::int)) \<and> fst (ring_push 4 9 (spsc_new 4 (0::int))) \<and>
   slot 4 (write_idx (spsc_new 4 (0::int))) < length (buffer (spsc_new 4 (0::int)))"
proof -
  have inv: "ring_inv 4 (spsc_new 4 (0::int))"
    by (rule ring_inv_new) (simp add: size_ok_def)
  have "fst (ring_push 4 9 (spsc_new 4 (0::int)))"
    by (simp add: ring_push_def spsc_new_def)
  then show ?thesis
    using inv ring_index_in_bounds [OF inv] by blast
qed

text \<open>
  The two copies of the class, the one of \<open>ring_buffer.cc\<close> and the one of the benchmark
  that moves items out, are observationally equal whatever the move leaves behind: from fresh
  rings, every sequence of calls returns the same results.
\<close>

theorem ring_copies_agree:
  assumes "size_ok sz"
    and "run_ops (ring_push sz) (ring_pop sz) es (spsc_new sz d) = (rs, q)"
    and "run_ops (bench_ring_push sz) (bench_ring_pop moved sz) es (spsc_new sz d) = (rs', q')"
  shows "rs = rs' \<and> ring_contents sz q = ring_contents sz q'"
  by (rule bounded_queues_agree [OF spsc.bounded_queue_axioms bspsc.bounded_queue_axioms
        ring_inv_new [OF assms(1)] ring_inv_new [OF assms(1)] refl assms(2,3)])

theorem ring_copies_agree_witness:
  "size_ok 1 \<and> [Pushed True, Popped True 5, Popped False 3] =
     fst (run_ops (bench_ring_push 1) (bench_ring_pop (\<lambda>_. 0) 1) [Push 5, Pop 3, Pop 3] (spsc_new 1 (0::int)))"
proof -
  let ?es = "[Push 5, Pop 3, Pop 3 :: int qop]"
  have ok: "size_ok 1" by (simp add: size_ok_def)
  have "run_ops (ring_push 1) (ring_pop 1) ?es (spsc_new 1 (0::int)) =
      ([Pushed True, Popped True 5, Popped False 3], \<lparr>write_idx = 1, read_idx = 1, buffer = [5]\<rparr>)"
    by (simp add: ring_push_def ring_pop_def slot_def spsc_new_def)
  from ring_copies_agree [OF ok this, of "\<lambda>_. 0"] ok show ?thesis
    by (metis prod.collapse)
qed

text \<open>
  \<open>static_assert((Size & (Size - 1)) == 0)\<close> accepts exactly the powers of two of the type
  and, against its message, \<open>Size == 0\<close>; a ring of size 0 compiles and refuses every item.
\<close>

theorem static_assert_sizes:
  "(size_ok sz \<longleftrightarrow> sz = 0 \<or> (\<exists>k<64. sz = 2 ^ k)) \<and>
   ring_push 0 x (spsc_new 0 d) = (False, spsc_new 0 d) \<and>
   ring_pop 0 v (spsc_new 0 d) = (False, v, spsc_new 0 d)"
  by (simp add: size_ok_iff ring_push_def ring_pop_def spsc_new_def)

text \<open>The program of \<open>ring_buffer.cc\<close> prints the token it pushed.\<close>

theorem token_main_prints_42: "token_main d u = Some 42"
  by (simp add: token_main_def ring_push_def ring_pop_def spsc_new_def slot_def)

end
