(* ===== verification/Ring_Concurrent.thy ===== *)
theory Ring_Concurrent imports
  Ring_Buffer
begin

text \<open>
  \<open>SPSCRingBuffer\<close> with one producer and one consumer thread running at the same time, under
  the release/acquire memory model. Each atomic index is its modification order: the list of
  all values stored to it, each with the clock a release store publishes. A load may return
  any value not older than one this thread has already seen, so stale values are allowed; an
  acquire load also joins the published clock. The clocks count the accesses a thread has made
  to the (non-atomic) buffer, and every buffer access checks that the last conflicting access
  of the other thread is known to it: if not, the access is a data race and \<open>race\<close> is set.
\<close>

subsection \<open>Atomics\<close>

datatype mem_order = Relaxed | Acquire | Release

type_synonym mod_order = "(u64 \<times> nat) list"

definition atomic_load :: "mem_order \<Rightarrow> mod_order \<Rightarrow> nat \<Rightarrow> nat \<Rightarrow> u64 \<times> nat" where
  "atomic_load ord m p clk =
     (fst (m ! p), if ord = Acquire then max clk (snd (m ! p)) else clk)"

definition atomic_store :: "mem_order \<Rightarrow> u64 \<Rightarrow> nat \<Rightarrow> mod_order \<Rightarrow> mod_order" where
  "atomic_store ord v clk m = m @ [(v, if ord = Release then clk else 0)]"

subsection \<open>State\<close>

text \<open>Where each thread is inside its call, with the locals it holds.\<close>

datatype 'a ppc = PIdle | PLoaded 'a u64 | PChecked 'a u64 | PWritten 'a u64

datatype 'a cpc = CIdle | CLoaded u64 | CChecked u64 | CTaken u64 'a

record 'a cring =
  wmo :: mod_order
  rmo :: mod_order
  cells :: "'a list"
  wstamp :: "nat list"
  rstamp :: "nat list"
  ppc :: "'a ppc"
  pview :: nat
  pclk :: nat
  pknows :: nat
  cpc :: "'a cpc"
  cview :: nat
  cclk :: nat
  cknows :: nat
  race :: bool
  pushed :: "'a list"
  popped :: "'a list"

definition cring_new :: "u64 \<Rightarrow> 'a \<Rightarrow> 'a cring" where
  "cring_new sz d =
     \<lparr>wmo = [(0, 0)], rmo = [(0, 0)], cells = replicate (unat sz) d,
      wstamp = replicate (unat sz) 0, rstamp = replicate (unat sz) 0,
      ppc = PIdle, pview = 0, pclk = 0, pknows = 0,
      cpc = CIdle, cview = 0, cclk = 0, cknows = 0,
      race = False, pushed = [], popped = []\<rparr>"

subsection \<open>The producer's steps: one per memory access of \<open>push\<close>\<close>

text \<open>
  \<open>PCheck p\<close> reads the entry \<open>p\<close> of the modification order of \<open>read_idx\<close>. A step that is not
  enabled in the state is \<open>None\<close>.
\<close>

datatype 'a pstep = PBegin 'a | PCheck nat | PWrite | PPublish

fun prod_step :: "u64 \<Rightarrow> 'a pstep \<Rightarrow> 'a cring \<Rightarrow> 'a cring option" where
  "prod_step sz (PBegin item) s =
     (case ppc s of
        PIdle \<Rightarrow>
          (let (current_write, k) = atomic_load Relaxed (wmo s) (length (wmo s) - 1) (pknows s)
           in Some (s\<lparr>ppc := PLoaded item current_write, pknows := k\<rparr>))
      | _ \<Rightarrow> None)"
| "prod_step sz (PCheck p) s =
     (case ppc s of
        PLoaded item current_write \<Rightarrow>
          if pview s \<le> p \<and> p < length (rmo s) then
            (let (r, k) = atomic_load Acquire (rmo s) p (pknows s);
                 s' = s\<lparr>pview := p, pknows := k\<rparr>
             in if current_write + 1 - r > sz then Some (s'\<lparr>ppc := PIdle\<rparr>)
                else Some (s'\<lparr>ppc := PChecked item current_write\<rparr>))
          else None
      | _ \<Rightarrow> None)"
| "prod_step sz PWrite s =
     (case ppc s of
        PChecked item current_write \<Rightarrow>
          (let j = slot sz current_write
           in Some (s\<lparr>cells := (cells s)[j := item], pclk := pclk s + 1,
                      wstamp := (wstamp s)[j := pclk s + 1],
                      race := race s \<or> rstamp s ! j > pknows s,
                      ppc := PWritten item current_write\<rparr>))
      | _ \<Rightarrow> None)"
| "prod_step sz PPublish s =
     (case ppc s of
        PWritten item current_write \<Rightarrow>
          Some (s\<lparr>wmo := atomic_store Release (current_write + 1) (pclk s) (wmo s),
                  pushed := pushed s @ [item], ppc := PIdle\<rparr>)
      | _ \<Rightarrow> None)"

subsection \<open>The consumer's steps: one per memory access of \<open>pop\<close>\<close>

datatype cstep = CBegin | CCheck nat | CTake | CPublish

fun cons_step :: "u64 \<Rightarrow> cstep \<Rightarrow> 'a cring \<Rightarrow> 'a cring option" where
  "cons_step sz CBegin s =
     (case cpc s of
        CIdle \<Rightarrow>
          (let (current_read, k) = atomic_load Relaxed (rmo s) (length (rmo s) - 1) (cknows s)
           in Some (s\<lparr>cpc := CLoaded current_read, cknows := k\<rparr>))
      | _ \<Rightarrow> None)"
| "cons_step sz (CCheck p) s =
     (case cpc s of
        CLoaded current_read \<Rightarrow>
          if cview s \<le> p \<and> p < length (wmo s) then
            (let (w, k) = atomic_load Acquire (wmo s) p (cknows s);
                 s' = s\<lparr>cview := p, cknows := k\<rparr>
             in if current_read = w then Some (s'\<lparr>cpc := CIdle\<rparr>)
                else Some (s'\<lparr>cpc := CChecked current_read\<rparr>))
          else None
      | _ \<Rightarrow> None)"
| "cons_step sz CTake s =
     (case cpc s of
        CChecked current_read \<Rightarrow>
          (let j = slot sz current_read
           in Some (s\<lparr>cclk := cclk s + 1, rstamp := (rstamp s)[j := cclk s + 1],
                      race := race s \<or> wstamp s ! j > cknows s,
                      cpc := CTaken current_read (cells s ! j)\<rparr>))
      | _ \<Rightarrow> None)"
| "cons_step sz CPublish s =
     (case cpc s of
        CTaken current_read item \<Rightarrow>
          Some (s\<lparr>rmo := atomic_store Release (current_read + 1) (cclk s) (rmo s),
                  popped := popped s @ [item], cpc := CIdle\<rparr>)
      | _ \<Rightarrow> None)"

subsection \<open>Reachable states\<close>

inductive creach :: "u64 \<Rightarrow> 'a \<Rightarrow> 'a cring \<Rightarrow> bool" for sz d where
  start: "creach sz d (cring_new sz d)"
| prod: "creach sz d s \<Longrightarrow> prod_step sz e s = Some s' \<Longrightarrow> creach sz d s'"
| cons: "creach sz d s \<Longrightarrow> cons_step sz e' s = Some s' \<Longrightarrow> creach sz d s'"

subsection \<open>Invariant\<close>

text \<open>
  The modification order of an index is 0, 1, 2, ... and the entry for \<open>p\<close> publishes the
  clock after \<open>p\<close> buffer accesses, one per call.
\<close>

definition mo_ok :: "mod_order \<Rightarrow> nat \<Rightarrow> bool" where
  "mo_ok m n \<longleftrightarrow> length m = Suc n \<and> (\<forall>p\<le>n. m ! p = (of_nat p, p))"

fun prod_ok :: "nat \<Rightarrow> 'a cring \<Rightarrow> 'a ppc \<Rightarrow> bool" where
  "prod_ok n s PIdle \<longleftrightarrow> pclk s = length (pushed s)"
| "prod_ok n s (PLoaded x w) \<longleftrightarrow> pclk s = length (pushed s) \<and> w = of_nat (length (pushed s))"
| "prod_ok n s (PChecked x w) \<longleftrightarrow> pclk s = length (pushed s) \<and> w = of_nat (length (pushed s)) \<and>
     length (pushed s) < pview s + n"
| "prod_ok n s (PWritten x w) \<longleftrightarrow> pclk s = Suc (length (pushed s)) \<and> w = of_nat (length (pushed s)) \<and>
     length (pushed s) < pview s + n \<and> cells s ! (length (pushed s) mod n) = x \<and>
     wstamp s ! (length (pushed s) mod n) = Suc (length (pushed s))"

fun cons_ok :: "'a cring \<Rightarrow> 'a cpc \<Rightarrow> bool" where
  "cons_ok s CIdle \<longleftrightarrow> cclk s = length (popped s)"
| "cons_ok s (CLoaded r) \<longleftrightarrow> cclk s = length (popped s) \<and> r = of_nat (length (popped s))"
| "cons_ok s (CChecked r) \<longleftrightarrow> cclk s = length (popped s) \<and> r = of_nat (length (popped s)) \<and>
     length (popped s) < cview s"
| "cons_ok s (CTaken r x) \<longleftrightarrow> cclk s = Suc (length (popped s)) \<and> r = of_nat (length (popped s)) \<and>
     length (popped s) < cview s \<and> x = pushed s ! length (popped s)"

definition views_ok :: "nat \<Rightarrow> 'a cring \<Rightarrow> bool" where
  "views_ok n s \<longleftrightarrow> pview s \<le> length (popped s) \<and> length (popped s) \<le> cview s \<and>
     cview s \<le> length (pushed s) \<and> length (pushed s) \<le> pview s + n \<and>
     pknows s = pview s \<and> cknows s = cview s"

definition cells_ok :: "nat \<Rightarrow> 'a cring \<Rightarrow> bool" where
  "cells_ok n s \<longleftrightarrow> length (cells s) = n \<and> length (wstamp s) = n \<and> length (rstamp s) = n \<and>
     (\<forall>i. length (popped s) \<le> i \<and> i < length (pushed s) \<longrightarrow>
        cells s ! (i mod n) = pushed s ! i \<and> wstamp s ! (i mod n) = Suc i) \<and>
     (\<forall>j<n. rstamp s ! j = 0 \<or> rstamp s ! j \<le> cclk s \<and> (rstamp s ! j - 1) mod n = j)"

definition cring_inv :: "u64 \<Rightarrow> 'a cring \<Rightarrow> bool" where
  "cring_inv sz s \<longleftrightarrow> size_ok sz \<and> mo_ok (wmo s) (length (pushed s)) \<and> mo_ok (rmo s) (length (popped s)) \<and>
     views_ok (unat sz) s \<and> cells_ok (unat sz) s \<and>
     prod_ok (unat sz) s (ppc s) \<and> cons_ok s (cpc s) \<and>
     popped s = take (length (popped s)) (pushed s) \<and> \<not> race s"

lemmas cring_defs = cring_inv_def views_ok_def cells_ok_def

lemma mo_ok_last: "mo_ok m n \<Longrightarrow> m ! (length m - Suc 0) = (of_nat n, n)"
  by (simp add: mo_ok_def)

lemma mo_ok_load: "mo_ok m n \<Longrightarrow> p < length m \<Longrightarrow>
    atomic_load ord m p k = (of_nat p, if ord = Acquire then max k p else k)"
  by (simp add: mo_ok_def atomic_load_def)

lemma mo_ok_store: "mo_ok m n \<Longrightarrow> mo_ok (atomic_store Release (of_nat n + 1) (Suc n) m) (Suc n)"
  by (auto simp: mo_ok_def atomic_store_def nth_append le_Suc_eq add.commute)

lemma cring_inv_new: "size_ok sz \<Longrightarrow> cring_inv sz (cring_new sz d)"
  by (simp add: cring_defs cring_new_def mo_ok_def)

text \<open>The two tests, on the values a possibly stale load returned.\<close>

lemma stale_full_test:
  assumes "size_ok sz" and "v \<le> n" and "n \<le> v + unat sz"
  shows "(of_nat n + 1 - of_nat v :: u64) > sz \<longleftrightarrow> n = v + unat sz"
proof -
  have "unat (of_nat (Suc n) - of_nat v :: u64) = Suc n - v"
    using assms size_ok_le [OF assms(1)] by (intro unat_diff_of_nat) auto
  then have "unat (of_nat n + 1 - of_nat v :: u64) = Suc n - v"
    by (simp add: add.commute)
  then show ?thesis using assms by (auto simp: word_less_nat_alt)
qed

lemma stale_empty_test:
  assumes "size_ok sz" and "r \<le> v" and "v \<le> r + unat sz"
  shows "(of_nat r :: u64) = of_nat v \<longleftrightarrow> r = v"
proof -
  have "unat (of_nat v - of_nat r :: u64) = v - r"
    using assms size_ok_le [OF assms(1)] by (intro unat_diff_of_nat) auto
  then show ?thesis using assms by auto
qed

lemma window_mod_neq:
  "(i::nat) < j \<Longrightarrow> j < i + n \<Longrightarrow> i mod n \<noteq> j mod n"
  using mod_window_inj [of i 0 n "j - i"] less_diff_conv2 [of i j n] by (auto simp: add.commute)

subsection \<open>Every step keeps the invariant\<close>

text \<open>What the other thread's clauses do not depend on.\<close>

lemma cons_ok_frame [simp]:
  "cons_ok (s\<lparr>ppc := a\<rparr>) c = cons_ok s c"
  "cons_ok (s\<lparr>pview := n\<rparr>) c = cons_ok s c"
  "cons_ok (s\<lparr>pclk := n\<rparr>) c = cons_ok s c"
  "cons_ok (s\<lparr>pknows := n\<rparr>) c = cons_ok s c"
  "cons_ok (s\<lparr>cells := xs\<rparr>) c = cons_ok s c"
  "cons_ok (s\<lparr>wstamp := ns\<rparr>) c = cons_ok s c"
  "cons_ok (s\<lparr>race := b\<rparr>) c = cons_ok s c"
  by (cases c; simp)+

lemma prod_ok_frame [simp]:
  "prod_ok n (s\<lparr>cpc := a\<rparr>) c = prod_ok n s c"
  "prod_ok n (s\<lparr>cview := m\<rparr>) c = prod_ok n s c"
  "prod_ok n (s\<lparr>cclk := m\<rparr>) c = prod_ok n s c"
  "prod_ok n (s\<lparr>cknows := m\<rparr>) c = prod_ok n s c"
  "prod_ok n (s\<lparr>rstamp := ns\<rparr>) c = prod_ok n s c"
  "prod_ok n (s\<lparr>race := b\<rparr>) c = prod_ok n s c"
  by (cases c; simp)+

lemma prod_begin_inv:
  "cring_inv sz s \<Longrightarrow> prod_step sz (PBegin x) s = Some s' \<Longrightarrow> cring_inv sz s'"
  by (auto simp: cring_defs atomic_load_def mo_ok_last Let_def split: ppc.splits cpc.splits)

lemma cons_begin_inv:
  "cring_inv sz s \<Longrightarrow> cons_step sz CBegin s = Some s' \<Longrightarrow> cring_inv sz s'"
  by (auto simp: cring_defs atomic_load_def mo_ok_last Let_def split: ppc.splits cpc.splits)

lemma prod_check_inv:
  assumes inv: "cring_inv sz s" and step: "prod_step sz (PCheck p) s = Some s'"
  shows "cring_inv sz s'"
proof -
  from step obtain x w where pc: "ppc s = PLoaded x w" and p: "pview s \<le> p" "p < length (rmo s)"
    by (auto split: ppc.splits if_splits)
  from inv have ok: "size_ok sz" and r: "mo_ok (rmo s) (length (popped s))" and
    w: "w = of_nat (length (pushed s))" and v: "views_ok (unat sz) s"
    by (simp_all add: cring_inv_def pc)
  from r p(2) have pr: "p \<le> length (popped s)" by (simp add: mo_ok_def)
  have full: "(w + 1 - of_nat p > sz) = (length (pushed s) = p + unat sz)"
    using ok v pr p(1) by (simp add: w views_ok_def stale_full_test)
  have load: "atomic_load Acquire (rmo s) p (pknows s) = (of_nat p, p)"
    using mo_ok_load [OF r p(2), of Acquire "pknows s"] v p(1) by (simp add: views_ok_def)
  have s': "s' = s\<lparr>pview := p, pknows := p,
      ppc := (if length (pushed s) = p + unat sz then PIdle else PChecked x w)\<rparr>"
    using step p by (auto simp: pc load full Let_def)
  show ?thesis
    using inv p pr by (auto simp: cring_defs s' pc split: cpc.splits)
qed

lemma cons_check_inv:
  assumes inv: "cring_inv sz s" and step: "cons_step sz (CCheck p) s = Some s'"
  shows "cring_inv sz s'"
proof -
  from step obtain r where pc: "cpc s = CLoaded r" and p: "cview s \<le> p" "p < length (wmo s)"
    by (auto split: cpc.splits if_splits)
  from inv have ok: "size_ok sz" and w: "mo_ok (wmo s) (length (pushed s))" and
    r: "r = of_nat (length (popped s))" and v: "views_ok (unat sz) s"
    by (simp_all add: cring_inv_def pc)
  from w p(2) have pw: "p \<le> length (pushed s)" by (simp add: mo_ok_def)
  have empty: "(r = of_nat p) = (length (popped s) = p)"
    using ok v pw p(1) by (simp add: r views_ok_def stale_empty_test)
  have load: "atomic_load Acquire (wmo s) p (cknows s) = (of_nat p, p)"
    using mo_ok_load [OF w p(2), of Acquire "cknows s"] v p(1) by (simp add: views_ok_def)
  have s': "s' = s\<lparr>cview := p, cknows := p,
      cpc := (if length (popped s) = p then CIdle else CChecked r)\<rparr>"
    using step p by (auto simp: pc load empty Let_def)
  show ?thesis
    using inv p pw by (auto simp: cring_defs s' pc split: ppc.splits)
qed

lemma prod_publish_inv:
  assumes inv: "cring_inv sz s" and step: "prod_step sz PPublish s = Some s'"
  shows "cring_inv sz s'"
proof -
  from step obtain x w where pc: "ppc s = PWritten x w" and
    s': "s' = s\<lparr>wmo := atomic_store Release (w + 1) (pclk s) (wmo s), pushed := pushed s @ [x], ppc := PIdle\<rparr>"
    by (auto split: ppc.splits)
  have pre: "popped s = take (length (popped s)) (pushed s)" and le: "length (popped s) \<le> length (pushed s)"
    using inv by (auto simp: cring_defs)
  have wmo: "mo_ok (wmo s') (length (pushed s'))"
    using inv mo_ok_store by (simp add: cring_inv_def pc s')
  have cells: "cells_ok (unat sz) s'"
    using inv by (auto simp: cring_defs s' pc nth_append less_Suc_eq)
  have cons: "cons_ok s' (cpc s')"
    using inv by (cases "cpc s") (auto simp: cring_defs s' nth_append)
  show ?thesis
    using inv wmo cells cons le pre by (auto simp: cring_inv_def views_ok_def s' pc)
qed

lemma cons_publish_inv:
  assumes inv: "cring_inv sz s" and step: "cons_step sz CPublish s = Some s'"
  shows "cring_inv sz s'"
proof -
  from step obtain r x where pc: "cpc s = CTaken r x" and
    s': "s' = s\<lparr>rmo := atomic_store Release (r + 1) (cclk s) (rmo s), popped := popped s @ [x], cpc := CIdle\<rparr>"
    by (auto split: cpc.splits)
  have pre: "popped s = take (length (popped s)) (pushed s)" and
    x: "x = pushed s ! length (popped s)" and lt: "length (popped s) < length (pushed s)"
    using inv by (auto simp: cring_defs pc)
  have rmo: "mo_ok (rmo s') (length (popped s'))"
    using inv mo_ok_store by (simp add: cring_inv_def pc s')
  have pop: "popped s' = take (length (popped s')) (pushed s')"
    using pre lt by (simp add: s' x take_Suc_conv_app_nth)
  have cells: "cells_ok (unat sz) s'"
    using inv by (auto simp: cring_defs s' pc)
  have prod: "prod_ok (unat sz) s' (ppc s')"
    using inv by (cases "ppc s") (auto simp: cring_defs s')
  show ?thesis
    using inv rmo cells prod pop by (auto simp: cring_inv_def views_ok_def s' pc)
qed

text \<open>
  The heart of the matter: the slot the producer writes was last read by the consumer a full
  lap earlier, before the \<open>read_idx\<close> value the producer has acquired.
\<close>

lemma write_after_read:
  assumes inv: "cring_inv sz s" and lt: "length (pushed s) < pview s + unat sz"
    and sz: "0 < unat sz"
  shows "rstamp s ! (length (pushed s) mod unat sz) \<le> pknows s"
proof (rule ccontr)
  let ?n = "unat sz" and ?w = "length (pushed s)"
  let ?t = "rstamp s ! (?w mod ?n)"
  assume "\<not> ?t \<le> pknows s"
  with inv have t: "pview s < ?t" by (simp add: cring_defs)
  have "?w mod ?n < ?n" using sz by simp
  with inv have "?t = 0 \<or> ?t \<le> cclk s \<and> (?t - 1) mod ?n = ?w mod ?n"
    by (auto simp: cring_defs)
  with t have m: "?t \<le> cclk s" "(?t - 1) mod ?n = ?w mod ?n" by auto
  have "?t - 1 < ?w"
    using inv m(1) t by (cases "cpc s") (auto simp: cring_defs)
  moreover have "?w < ?t - 1 + ?n" using lt t by simp
  ultimately show False
    using window_mod_neq [of "?t - 1" ?w ?n] m(2) by simp
qed

lemma prod_write_inv:
  assumes inv: "cring_inv sz s" and step: "prod_step sz PWrite s = Some s'"
  shows "cring_inv sz s'"
proof -
  let ?n = "unat sz" and ?w = "length (pushed s)"
  from step obtain x w where pc: "ppc s = PChecked x w" by (auto split: ppc.splits)
  from inv have ok: "size_ok sz" and w: "w = of_nat ?w" and lt: "?w < pview s + ?n" and
    clk: "pclk s = ?w"
    by (simp_all add: cring_inv_def pc)
  from inv lt have n: "0 < ?n" by (auto simp: cring_defs)
  then have j: "slot sz w = ?w mod ?n"
    using ok by (simp add: w slot_of_nat unat_gt_0)
  have s': "s' = s\<lparr>cells := (cells s)[?w mod ?n := x], pclk := Suc ?w,
      wstamp := (wstamp s)[?w mod ?n := Suc ?w], race := False, ppc := PWritten x w\<rparr>"
    using step inv write_after_read [OF inv lt n]
    by (auto simp: pc Let_def cring_inv_def clk j j [unfolded w])
  have keep: "?w mod ?n \<noteq> i mod ?n" if "length (popped s) \<le> i" "i < ?w" for i
    using window_mod_neq [of i ?w ?n] that lt inv by (auto simp: cring_defs)
  have cells: "cells_ok ?n s'"
    using inv keep by (auto simp: cring_defs s')
  show ?thesis
    using inv cells lt n w by (auto simp: cring_inv_def views_ok_def s' cells_ok_def)
qed

lemma cons_take_inv:
  assumes inv: "cring_inv sz s" and step: "cons_step sz CTake s = Some s'"
  shows "cring_inv sz s'"
proof -
  let ?n = "unat sz" and ?r = "length (popped s)"
  from step obtain r where pc: "cpc s = CChecked r" by (auto split: cpc.splits)
  from inv have ok: "size_ok sz" and r: "r = of_nat ?r" and lt: "?r < cview s" and
    clk: "cclk s = ?r" and wn: "length (pushed s) \<le> pview s + ?n" "pview s \<le> ?r"
    and cw: "cview s \<le> length (pushed s)"
    by (simp_all add: cring_inv_def views_ok_def pc)
  then have n: "0 < ?n" by auto
  have j: "slot sz r = ?r mod ?n"
    using ok n by (simp add: r slot_of_nat unat_gt_0)
  have cell: "cells s ! (?r mod ?n) = pushed s ! ?r" "wstamp s ! (?r mod ?n) = Suc ?r"
    using inv lt cw by (auto simp: cring_defs)
  have s': "s' = s\<lparr>cclk := Suc ?r, rstamp := (rstamp s)[?r mod ?n := Suc ?r], race := False,
      cpc := CTaken r (pushed s ! ?r)\<rparr>"
    using step inv cell lt by (auto simp: pc Let_def cring_inv_def views_ok_def j clk)
  have cells: "cells_ok ?n s'"
    using inv clk by (auto simp: cring_defs s' nth_list_update)
  show ?thesis
    using inv cells lt r by (auto simp: cring_inv_def views_ok_def s')
qed

lemma prod_step_inv: "cring_inv sz s \<Longrightarrow> prod_step sz e s = Some s' \<Longrightarrow> cring_inv sz s'"
  by (cases e) (blast intro: prod_begin_inv prod_check_inv prod_write_inv prod_publish_inv)+

lemma cons_step_inv: "cring_inv sz s \<Longrightarrow> cons_step sz e s = Some s' \<Longrightarrow> cring_inv sz s'"
  by (cases e) (blast intro: cons_begin_inv cons_check_inv cons_take_inv cons_publish_inv)+

lemma creach_inv: "creach sz d s \<Longrightarrow> size_ok sz \<Longrightarrow> cring_inv sz s"
  by (induction rule: creach.induct) (auto intro: cring_inv_new prod_step_inv cons_step_inv)

subsection \<open>Executions as lists of steps\<close>

fun crun :: "u64 \<Rightarrow> ('a pstep + cstep) list \<Rightarrow> 'a cring \<Rightarrow> 'a cring option" where
  "crun sz [] s = Some s"
| "crun sz (Inl e # es) s = Option.bind (prod_step sz e s) (crun sz es)"
| "crun sz (Inr e # es) s = Option.bind (cons_step sz e s) (crun sz es)"

lemma crun_creach: "crun sz es s = Some s' \<Longrightarrow> creach sz d s \<Longrightarrow> creach sz d s'"
  by (induction sz es s rule: crun.induct)
    (auto simp: bind_eq_Some_conv intro: creach.prod creach.cons)

lemma crun_from_new: "crun sz es (cring_new sz d) = Some s \<Longrightarrow> creach sz d s"
  by (rule crun_creach [OF _ creach.start])

text \<open>
  An execution used as a witness: on a ring of two slots the consumer pops the first item; the
  producer, still seeing the old \<open>read_idx\<close>, is refused once, then sees the new value and
  writes over the slot the consumer has read.
\<close>

definition demo_steps :: "(int pstep + cstep) list" where
  "demo_steps =
     [Inl (PBegin 5), Inr CBegin, Inl (PCheck 0), Inr (CCheck 0), Inl PWrite, Inl PPublish,
      Inr CBegin, Inl (PBegin 6), Inr (CCheck 1), Inl (PCheck 0), Inr CTake, Inl PWrite,
      Inr CPublish, Inl PPublish, Inl (PBegin 7), Inl (PCheck 0), Inl (PBegin 8), Inl (PCheck 1),
      Inl PWrite, Inr CBegin]"

definition demo_end :: "int cring" where
  "demo_end =
     \<lparr>wmo = [(0, 0), (1, 1), (2, 2)], rmo = [(0, 0), (1, 1)], cells = [8, 6],
      wstamp = [3, 2], rstamp = [1, 0], ppc = PWritten 8 2, pview = 1, pclk = 3, pknows = 1,
      cpc = CLoaded 1, cview = 1, cclk = 1, cknows = 1, race = False,
      pushed = [5, 6], popped = [5]\<rparr>"

lemma demo_run: "crun 2 demo_steps (cring_new 2 0) = Some demo_end"
proof -
  have two: "replicate 2 x = [x, x]" for x :: 'b by (simp add: numeral_2_eq_2)
  show ?thesis
    by (simp add: demo_steps_def demo_end_def cring_new_def two atomic_load_def atomic_store_def slot_def)
qed

lemma demo_reach: "creach 2 0 demo_end"
  by (rule crun_from_new [OF demo_run])

subsection \<open>Properties\<close>

text \<open>
  C3. Data-race freedom under the memory orders of the source: in every execution of one
  producer and one consumer, stale loads included, each access to a buffer slot happens after
  the other thread's last conflicting access to it.
\<close>

theorem concurrent_race_free:
  assumes "size_ok sz" and "creach sz d s"
  shows "\<not> race s"
  using creach_inv [OF assms(2,1)] by (simp add: cring_inv_def)

theorem concurrent_race_free_witness: "creach 2 0 demo_end \<and> \<not> race demo_end"
  using demo_reach concurrent_race_free [OF _ demo_reach] by (simp add: size_ok_def)

text \<open>
  C5. Concurrent FIFO: in every execution, what the consumer has popped is a prefix of what the
  producer has pushed, and at most \<open>Size\<close> pushed items are unpopped; the indices may wrap.
\<close>

theorem concurrent_fifo:
  assumes "size_ok sz" and "creach sz d s"
  shows "pushed s = popped s @ drop (length (popped s)) (pushed s) \<and>
    length (pushed s) - length (popped s) \<le> unat sz"
proof -
  have inv: "cring_inv sz s" using assms by (blast intro: creach_inv)
  then have "popped s = take (length (popped s)) (pushed s)" by (simp add: cring_inv_def)
  moreover have "length (pushed s) - length (popped s) \<le> unat sz"
    using inv by (auto simp: cring_defs)
  ultimately show ?thesis by (metis append_take_drop_id)
qed

theorem concurrent_fifo_witness:
  "creach 2 0 demo_end \<and> pushed demo_end = popped demo_end @ [6]"
  using demo_reach concurrent_fifo [OF _ demo_reach] by (simp add: size_ok_def demo_end_def)

definition queue_of :: "'a cring \<Rightarrow> 'a list" where
  "queue_of s = drop (length (popped s)) (pushed s)"

lemma queue_publish:
  assumes "cring_inv sz s" and "ppc s = PWritten x w"
  shows "fifo_push (unat sz) x (queue_of s) = (True, queue_of (s\<lparr>wmo := m, pushed := pushed s @ [x], ppc := PIdle\<rparr>))"
  using assms by (auto simp: cring_defs queue_of_def fifo_push_def)

lemma queue_take:
  assumes "cring_inv sz s" and "cpc s = CTaken r x"
  shows "fifo_pop v (queue_of s) = (True, x, queue_of (s\<lparr>rmo := m, popped := popped s @ [x], cpc := CIdle\<rparr>))"
proof -
  from assms have "x = pushed s ! length (popped s)" "length (popped s) < length (pushed s)"
    by (auto simp: cring_defs)
  then have "queue_of s = x # drop (Suc (length (popped s))) (pushed s)"
    by (simp add: queue_of_def Cons_nth_drop_Suc)
  then show ?thesis by (simp add: fifo_pop_def queue_of_def)
qed

text \<open>
  C28. Linearisability of successful calls: the store that publishes the index is the point at
  which a \<open>push\<close> or a \<open>pop\<close> takes effect on the specification queue; every other memory access
  of either thread leaves the queue as it is.
\<close>

theorem concurrent_refines_fifo:
  assumes "size_ok sz" and "creach sz d s"
  shows "(prod_step sz e s = Some s1 \<longrightarrow>
      (case ppc s of PWritten x w \<Rightarrow> fifo_push (unat sz) x (queue_of s) = (True, queue_of s1)
       | _ \<Rightarrow> queue_of s1 = queue_of s)) \<and>
    (cons_step sz e' s = Some s2 \<longrightarrow>
      (case cpc s of CTaken r x \<Rightarrow> fifo_pop v (queue_of s) = (True, x, queue_of s2)
       | _ \<Rightarrow> queue_of s2 = queue_of s))"
proof -
  have inv: "cring_inv sz s" using assms by (blast intro: creach_inv)
  have "case ppc s of PWritten x w \<Rightarrow> fifo_push (unat sz) x (queue_of s) = (True, queue_of s1)
       | _ \<Rightarrow> queue_of s1 = queue_of s" if step: "prod_step sz e s = Some s1"
    using step queue_publish [OF inv] by (cases "ppc s"; cases e)
      (auto simp: queue_of_def Let_def split: if_splits prod.splits)
  moreover have "case cpc s of CTaken r x \<Rightarrow> fifo_pop v (queue_of s) = (True, x, queue_of s2)
       | _ \<Rightarrow> queue_of s2 = queue_of s" if step: "cons_step sz e' s = Some s2"
    using step queue_take [OF inv] by (cases "cpc s"; cases e')
      (auto simp: queue_of_def Let_def split: if_splits prod.splits)
  ultimately show ?thesis by blast
qed

text \<open>
  Failed calls tell the truth: \<open>push\<close> returns false exactly when the queue is full against
  the \<open>read_idx\<close> value it loaded, so never while fewer than \<open>Size\<close> items were unread at the time
  of that value; \<open>pop\<close> returns false exactly when every item published up to the \<open>write_idx\<close>
  value it loaded has been popped. With the newest value the tests are exact.
\<close>

theorem concurrent_failures_exact:
  assumes "size_ok sz" and "creach sz d s"
  shows "(prod_step sz (PCheck p) s = Some s1 \<longrightarrow>
      p \<le> length (popped s) \<and> (ppc s1 = PIdle \<longleftrightarrow> length (pushed s) - p = unat sz)) \<and>
    (cons_step sz (CCheck q) s = Some s2 \<longrightarrow>
      q \<le> length (pushed s) \<and> (cpc s2 = CIdle \<longleftrightarrow> length (popped s) = q))"
proof -
  have inv: "cring_inv sz s" using assms by (blast intro: creach_inv)
  have "p \<le> length (popped s) \<and> (ppc s1 = PIdle \<longleftrightarrow> length (pushed s) - p = unat sz)"
    if step: "prod_step sz (PCheck p) s = Some s1"
    using step inv mo_ok_load [of "rmo s" "length (popped s)" p Acquire "pknows s"]
      stale_full_test [OF assms(1), of p "length (pushed s)"]
    by (auto simp: cring_defs mo_ok_def Let_def split: ppc.splits if_splits)
  moreover have "q \<le> length (pushed s) \<and> (cpc s2 = CIdle \<longleftrightarrow> length (popped s) = q)"
    if step: "cons_step sz (CCheck q) s = Some s2"
    using step inv mo_ok_load [of "wmo s" "length (pushed s)" q Acquire "cknows s"]
      stale_empty_test [OF assms(1), of "length (popped s)" q]
    by (auto simp: cring_defs mo_ok_def Let_def split: cpc.splits if_splits)
  ultimately show ?thesis by blast
qed

theorem concurrent_refines_fifo_witness:
  "creach 2 0 demo_end \<and> (\<exists>s1. prod_step 2 PPublish demo_end = Some s1 \<and>
     fifo_push 2 8 [6] = (True, queue_of s1))"
proof -
  have ok: "size_ok 2" by (simp add: size_ok_def)
  obtain s1 where s1: "prod_step 2 PPublish demo_end = Some s1" by (simp add: demo_end_def)
  have "fifo_push 2 8 (queue_of demo_end) = (True, queue_of s1)"
    using concurrent_refines_fifo [OF ok demo_reach, of PPublish s1] s1
    by (simp add: demo_end_def)
  then show ?thesis using s1 demo_reach by (auto simp: queue_of_def demo_end_def)
qed

theorem concurrent_failures_exact_witness:
  "creach 2 0 demo_end \<and>
   (\<exists>s2. cons_step 2 (CCheck 1) demo_end = Some s2 \<and> cpc s2 = CIdle) \<and>
   (\<exists>s2. cons_step 2 (CCheck 2) demo_end = Some s2 \<and> cpc s2 \<noteq> CIdle)"
proof -
  have ok: "size_ok 2" by (simp add: size_ok_def)
  have "\<exists>s2. cons_step 2 (CCheck q) demo_end = Some s2" if "q = 1 \<or> q = 2" for q
    using that by (auto simp: demo_end_def atomic_load_def)
  then obtain a b where ab: "cons_step 2 (CCheck 1) demo_end = Some a" "cons_step 2 (CCheck 2) demo_end = Some b"
    by blast
  have "cpc a = CIdle" "cpc b \<noteq> CIdle"
    using concurrent_failures_exact [OF ok demo_reach, of 0 _ 1 a] ab(1)
      concurrent_failures_exact [OF ok demo_reach, of 0 _ 2 b] ab(2)
    by (simp_all add: demo_end_def)
  then show ?thesis using ab demo_reach by blast
qed

text \<open>How many memory accesses a call still has before it.\<close>

fun pleft :: "'a ppc \<Rightarrow> nat" where
  "pleft PIdle = 0"
| "pleft (PLoaded _ _) = 3"
| "pleft (PChecked _ _) = 2"
| "pleft (PWritten _ _) = 1"

fun cleft :: "'a cpc \<Rightarrow> nat" where
  "cleft CIdle = 0"
| "cleft (CLoaded _) = 3"
| "cleft (CChecked _) = 2"
| "cleft (CTaken _ _) = 1"

text \<open>
  Wait-freedom: inside a call a thread always has an enabled step, each step of its own
  brings it at least one access closer to returning (three at most after the first load), and
  no step of the other thread moves it, so every call returns whatever the other thread does.
\<close>

theorem ring_calls_wait_free:
  assumes "size_ok sz" and "creach sz d s"
  shows "(\<exists>e s1. prod_step sz e s = Some s1) \<and> (\<exists>e s1. cons_step sz e s = Some s1) \<and>
    (prod_step sz e s = Some s1 \<longrightarrow>
       (ppc s = PIdle \<or> pleft (ppc s1) < pleft (ppc s)) \<and> pleft (ppc s1) \<le> 3 \<and> cpc s1 = cpc s) \<and>
    (cons_step sz e' s = Some s2 \<longrightarrow>
       (cpc s = CIdle \<or> cleft (cpc s2) < cleft (cpc s)) \<and> cleft (cpc s2) \<le> 3 \<and> ppc s2 = ppc s)"
proof -
  have inv: "cring_inv sz s" using assms by (blast intro: creach_inv)
  then have len: "length (popped s) < length (rmo s)" "length (pushed s) < length (wmo s)"
    by (simp_all add: cring_inv_def mo_ok_def)
  have v: "pview s \<le> length (popped s)" "cview s \<le> length (pushed s)"
    using inv by (auto simp: cring_defs)
  have "prod_step sz (case ppc s of PIdle \<Rightarrow> PBegin d | PLoaded _ _ \<Rightarrow> PCheck (length (popped s))
      | PChecked _ _ \<Rightarrow> PWrite | PWritten _ _ \<Rightarrow> PPublish) s \<noteq> None"
    using len v by (cases "ppc s") (auto simp: Let_def split: prod.splits)
  moreover have "cons_step sz (case cpc s of CIdle \<Rightarrow> CBegin | CLoaded _ \<Rightarrow> CCheck (length (pushed s))
      | CChecked _ \<Rightarrow> CTake | CTaken _ _ \<Rightarrow> CPublish) s \<noteq> None"
    using len v by (cases "cpc s") (auto simp: Let_def split: prod.splits)
  moreover have "(ppc s = PIdle \<or> pleft (ppc s1) < pleft (ppc s)) \<and> pleft (ppc s1) \<le> 3 \<and> cpc s1 = cpc s"
    if "prod_step sz e s = Some s1"
    using that by (cases "ppc s"; cases e) (auto simp: Let_def split: if_splits prod.splits)
  moreover have "(cpc s = CIdle \<or> cleft (cpc s2) < cleft (cpc s)) \<and> cleft (cpc s2) \<le> 3 \<and> ppc s2 = ppc s"
    if "cons_step sz e' s = Some s2"
    using that by (cases "cpc s"; cases e') (auto simp: Let_def split: if_splits prod.splits)
  ultimately show ?thesis by blast
qed

theorem ring_calls_wait_free_witness:
  "creach 2 0 demo_end \<and> (\<exists>e s1. prod_step 2 e demo_end = Some s1) \<and>
   (\<exists>e s1. cons_step 2 e demo_end = Some s1)"
  using demo_reach ring_calls_wait_free [OF _ demo_reach] by (simp add: size_ok_def)

end
