(* ===== verification/Ring_Bench_Concurrent.thy ===== *)
theory Ring_Bench_Concurrent imports
  Ring_Concurrent
begin

text \<open>
  \<open>bench_ring\<close> of \<open>src/ring_buffer_benchmark.cc\<close> under the release/acquire memory model: the two
  lambdas around the steps of Ring_Concurrent, one step per memory access, with the third atomic
  \<open>done\<close>. A store to \<open>done\<close> with release order publishes what the producer has done before it: its
  clock and the newest entry of \<open>write_idx\<close>, so that an acquire load that returns it leaves the
  consumer no older entry to read. (Queue_Bench has the same loops with calls that are atomic.)
\<close>

subsection \<open>The flag\<close>

type_synonym flag_order = "(bool \<times> nat \<times> nat) list"

definition flag_store :: "mem_order \<Rightarrow> bool \<Rightarrow> nat \<Rightarrow> nat \<Rightarrow> flag_order \<Rightarrow> flag_order" where
  "flag_store ord v clk seen m = m @ [(v, if ord = Release then (clk, seen) else (0, 0))]"

definition flag_load :: "mem_order \<Rightarrow> flag_order \<Rightarrow> nat \<Rightarrow> nat \<Rightarrow> nat \<Rightarrow> bool \<times> nat \<times> nat" where
  "flag_load ord m q clk seen =
     (case m ! q of (v, clk', seen') \<Rightarrow>
        (v, if ord = Acquire then (max clk clk', max seen seen') else (clk, seen)))"

subsection \<open>The two threads\<close>

text \<open>
  The producer: at the test of its loop with \<open>i\<close>, inside \<open>ring.push(i)\<close>, about to store \<open>done\<close>, or
  finished. The consumer: at the head of its loop, inside the \<open>pop\<close> there, about to load \<open>done\<close>, at
  the head of the draining loop, inside its \<open>pop\<close>, or finished. What the consumer's pops return is
  \<open>popped\<close> of the ring.
\<close>

datatype rb_ppc = RPFor u64 | RPPush u64 | RPDone | RPExit

datatype rb_cpc = RCWhile | RCPop | RCFlag | RCDrain | RCDrainPop | RCExit

record rbench =
  rb_ring :: "u64 cring"
  rb_done :: flag_order
  rb_dview :: nat
  rb_ppc :: rb_ppc
  rb_cpc :: rb_cpc

definition rbench_new :: "u64 \<Rightarrow> rbench" where
  "rbench_new sz = \<lparr>rb_ring = cring_new sz 0, rb_done = [(False, 0, 0)], rb_dview = 0,
     rb_ppc = RPFor 0, rb_cpc = RCWhile\<rparr>"

text \<open>The value a call of the ring returns when its last access is this step.\<close>

fun push_result :: "u64 pstep \<Rightarrow> bool" where
  "push_result PPublish = True"
| "push_result _ = False"

fun pop_result :: "cstep \<Rightarrow> bool" where
  "pop_result CPublish = True"
| "pop_result _ = False"

datatype rb_pstep = RTest | RPush "u64 pstep" | RStoreDone

fun rb_prod_step :: "u64 \<Rightarrow> u64 \<Rightarrow> rb_pstep \<Rightarrow> rbench \<Rightarrow> rbench option" where
  "rb_prod_step sz n RTest s =
     (case rb_ppc s of
        RPFor i \<Rightarrow>
          if i < n then
            map_option (\<lambda>q. s\<lparr>rb_ring := q, rb_ppc := RPPush i\<rparr>) (prod_step sz (PBegin i) (rb_ring s))
          else Some (s\<lparr>rb_ppc := RPDone\<rparr>)
      | _ \<Rightarrow> None)"
| "rb_prod_step sz n (RPush e) s =
     (case rb_ppc s of
        RPPush i \<Rightarrow>
          map_option (\<lambda>q. s\<lparr>rb_ring := q,
              rb_ppc := (if ppc q \<noteq> PIdle then RPPush i
                         else if push_result e then RPFor (i + 1) else RPFor i)\<rparr>)
            (prod_step sz e (rb_ring s))
      | _ \<Rightarrow> None)"
| "rb_prod_step sz n RStoreDone s =
     (case rb_ppc s of
        RPDone \<Rightarrow>
          Some (s\<lparr>rb_done := flag_store Release True (pclk (rb_ring s)) (length (wmo (rb_ring s)) - 1) (rb_done s),
                  rb_ppc := RPExit\<rparr>)
      | _ \<Rightarrow> None)"

datatype rb_cstep = RCall | RPop cstep | RLoadDone nat

fun rb_cons_step :: "u64 \<Rightarrow> rb_cstep \<Rightarrow> rbench \<Rightarrow> rbench option" where
  "rb_cons_step sz RCall s =
     (case rb_cpc s of
        RCWhile \<Rightarrow> map_option (\<lambda>q. s\<lparr>rb_ring := q, rb_cpc := RCPop\<rparr>) (cons_step sz CBegin (rb_ring s))
      | RCDrain \<Rightarrow> map_option (\<lambda>q. s\<lparr>rb_ring := q, rb_cpc := RCDrainPop\<rparr>) (cons_step sz CBegin (rb_ring s))
      | _ \<Rightarrow> None)"
| "rb_cons_step sz (RPop e) s =
     (case rb_cpc s of
        RCPop \<Rightarrow>
          map_option (\<lambda>q. s\<lparr>rb_ring := q,
              rb_cpc := (if cpc q \<noteq> CIdle then RCPop else if pop_result e then RCWhile else RCFlag)\<rparr>)
            (cons_step sz e (rb_ring s))
      | RCDrainPop \<Rightarrow>
          map_option (\<lambda>q. s\<lparr>rb_ring := q,
              rb_cpc := (if cpc q \<noteq> CIdle then RCDrainPop else if pop_result e then RCDrain else RCExit)\<rparr>)
            (cons_step sz e (rb_ring s))
      | _ \<Rightarrow> None)"
| "rb_cons_step sz (RLoadDone q) s =
     (case rb_cpc s of
        RCFlag \<Rightarrow>
          if rb_dview s \<le> q \<and> q < length (rb_done s) then
            (case flag_load Acquire (rb_done s) q (cknows (rb_ring s)) (cview (rb_ring s)) of
               (v, clk, seen) \<Rightarrow>
                 Some (s\<lparr>rb_ring := (rb_ring s)\<lparr>cview := seen, cknows := clk\<rparr>, rb_dview := q,
                         rb_cpc := (if v then RCDrain else RCWhile)\<rparr>))
          else None
      | _ \<Rightarrow> None)"

inductive rb_reach :: "u64 \<Rightarrow> u64 \<Rightarrow> rbench \<Rightarrow> bool" for sz n where
  start: "rb_reach sz n (rbench_new sz)"
| prod: "rb_reach sz n s \<Longrightarrow> rb_prod_step sz n e s = Some s' \<Longrightarrow> rb_reach sz n s'"
| cons: "rb_reach sz n s \<Longrightarrow> rb_cons_step sz e' s = Some s' \<Longrightarrow> rb_reach sz n s'"

subsection \<open>What the steps of the ring do to the calls\<close>

fun ppc_item :: "'a ppc \<Rightarrow> 'a option" where
  "ppc_item PIdle = None"
| "ppc_item (PLoaded x w) = Some x"
| "ppc_item (PChecked x w) = Some x"
| "ppc_item (PWritten x w) = Some x"

lemma ppc_item_None [simp]: "ppc_item c = None \<longleftrightarrow> c = PIdle"
  by (cases c) simp_all

lemma prod_begin_calls:
  "prod_step sz (PBegin x) s = Some s' \<Longrightarrow>
     ppc s = PIdle \<and> ppc_item (ppc s') = Some x \<and> pushed s' = pushed s \<and> popped s' = popped s \<and>
     cpc s' = cpc s \<and> cview s' = cview s"
  by (auto simp: Let_def split: ppc.splits prod.splits)

lemma prod_step_calls:
  "prod_step sz e s = Some s' \<Longrightarrow> ppc_item (ppc s) = Some x \<Longrightarrow>
     (ppc_item (ppc s') = Some x \<or> ppc s' = PIdle) \<and>
     pushed s' = (if ppc s' = PIdle \<and> e = PPublish then pushed s @ [x] else pushed s) \<and>
     (e = PPublish \<longrightarrow> ppc s' = PIdle) \<and> popped s' = popped s \<and> cpc s' = cpc s \<and> cview s' = cview s"
  by (cases e) (auto simp: Let_def split: ppc.splits prod.splits if_splits)

lemma cons_step_calls:
  "cons_step sz e s = Some s' \<Longrightarrow>
     pushed s' = pushed s \<and> ppc s' = ppc s \<and> wmo s' = wmo s \<and> cview s \<le> cview s' \<and>
     (e = CBegin \<longrightarrow> cpc s = CIdle \<and> cpc s' \<noteq> CIdle \<and> cview s' = cview s) \<and>
     (e \<noteq> CBegin \<longrightarrow> cpc s \<noteq> CIdle) \<and> (cpc s' = CIdle \<longrightarrow> e = CPublish \<or> (\<exists>q. e = CCheck q \<and> cview s \<le> q))"
  by (cases e) (auto simp: Let_def split: cpc.splits prod.splits if_splits)

text \<open>A \<open>pop\<close> that fails has seen the entry of \<open>write_idx\<close> that says the queue is empty.\<close>

lemma failed_pop:
  assumes inv: "cring_inv sz s" and step: "cons_step sz (CCheck q) s = Some s'" and idle: "cpc s' = CIdle"
  shows "length (popped s) = q \<and> popped s' = popped s"
proof -
  from step obtain r where pc: "cpc s = CLoaded r" and q: "cview s \<le> q" "q < length (wmo s)"
    by (auto split: cpc.splits if_splits)
  have "q \<le> length (pushed s)" using q(2) inv by (simp add: cring_inv_def mo_ok_def)
  then have "(of_nat (length (popped s)) :: u64) = of_nat q \<longleftrightarrow> length (popped s) = q"
    using inv q by (intro stale_empty_test [of sz]) (auto simp: cring_defs)
  then show ?thesis
    using step inv q idle mo_ok_load [of "wmo s" "length (pushed s)" q Acquire "cknows s"]
    by (auto simp: cring_defs pc Let_def split: if_splits)
qed

text \<open>An acquire load of \<open>done\<close> raises the consumer's view of \<open>write_idx\<close> to the end.\<close>

lemma cring_inv_raise:
  assumes "cring_inv sz s" and "cpc s = CIdle" and "k = 0 \<or> k = length (pushed s)"
  shows "cring_inv sz (s\<lparr>cview := max (cview s) k, cknows := max (cknows s) k\<rparr>)"
  using assms by (auto simp: cring_defs max_def)

subsection \<open>The invariant of the benchmark\<close>

abbreviation messages :: "nat \<Rightarrow> u64 list" where
  "messages k \<equiv> map of_nat [0..<k]"

fun rb_prod_ok :: "u64 \<Rightarrow> u64 cring \<Rightarrow> rb_ppc \<Rightarrow> bool" where
  "rb_prod_ok n q (RPFor i) \<longleftrightarrow> i \<le> n \<and> pushed q = messages (unat i) \<and> ppc q = PIdle"
| "rb_prod_ok n q (RPPush i) \<longleftrightarrow> i < n \<and> pushed q = messages (unat i) \<and> ppc_item (ppc q) = Some i"
| "rb_prod_ok n q RPDone \<longleftrightarrow> pushed q = messages (unat n) \<and> ppc q = PIdle"
| "rb_prod_ok n q RPExit \<longleftrightarrow> pushed q = messages (unat n) \<and> ppc q = PIdle"

fun rb_cons_ok :: "u64 \<Rightarrow> u64 cring \<Rightarrow> rb_ppc \<Rightarrow> rb_cpc \<Rightarrow> bool" where
  "rb_cons_ok n q p RCWhile \<longleftrightarrow> cpc q = CIdle"
| "rb_cons_ok n q p RCFlag \<longleftrightarrow> cpc q = CIdle"
| "rb_cons_ok n q p RCPop \<longleftrightarrow> cpc q \<noteq> CIdle"
| "rb_cons_ok n q p RCDrain \<longleftrightarrow> cpc q = CIdle \<and> p = RPExit \<and> cview q = unat n"
| "rb_cons_ok n q p RCDrainPop \<longleftrightarrow> cpc q \<noteq> CIdle \<and> p = RPExit \<and> cview q = unat n"
| "rb_cons_ok n q p RCExit \<longleftrightarrow> cpc q = CIdle \<and> p = RPExit \<and> popped q = messages (unat n)"

definition rb_inv :: "u64 \<Rightarrow> u64 \<Rightarrow> rbench \<Rightarrow> bool" where
  "rb_inv sz n s \<longleftrightarrow> cring_inv sz (rb_ring s) \<and> rb_prod_ok n (rb_ring s) (rb_ppc s) \<and>
     rb_cons_ok n (rb_ring s) (rb_ppc s) (rb_cpc s) \<and>
     rb_done s = (False, 0, 0) # (if rb_ppc s = RPExit then [(True, unat n, unat n)] else []) \<and>
     rb_dview s < length (rb_done s)"

lemma rb_inv_new: "size_ok sz \<Longrightarrow> rb_inv sz n (rbench_new sz)"
  by (simp add: rb_inv_def rbench_new_def cring_inv_new) (simp add: cring_new_def)

lemma rb_cons_ok_frame:
  "rb_cons_ok n q p c \<Longrightarrow> cpc q' = cpc q \<Longrightarrow> cview q' = cview q \<Longrightarrow> popped q' = popped q \<Longrightarrow>
     p \<noteq> RPExit \<Longrightarrow> rb_cons_ok n q' p' c"
  by (cases c) simp_all

lemma rb_prod_ok_frame:
  "rb_prod_ok n q p \<Longrightarrow> pushed q' = pushed q \<Longrightarrow> ppc q' = ppc q \<Longrightarrow> rb_prod_ok n q' p"
  by (cases p) simp_all

lemma messages_Suc:
  assumes "(i::u64) < n"
  shows "messages (unat i) @ [i] = messages (unat (i + 1))" and "i + 1 \<le> n"
proof -
  have i: "unat (i + 1) = Suc (unat i)" "unat i < unat n"
    using assms unat_Suc_less [OF assms] by (simp_all add: word_less_nat_alt)
  then show "messages (unat i) @ [i] = messages (unat (i + 1))" by simp
  show "i + 1 \<le> n" using i by (simp add: word_le_nat_alt)
qed

lemma rb_prod_inv:
  assumes inv: "rb_inv sz n s" and step: "rb_prod_step sz n e s = Some s'"
  shows "rb_inv sz n s'"
proof (cases e)
  case RTest
  with step obtain i where pc: "rb_ppc s = RPFor i" by (auto split: rb_ppc.splits)
  show ?thesis
  proof (cases "i < n")
    case True
    with RTest step pc obtain q where q: "prod_step sz (PBegin i) (rb_ring s) = Some q" and
      s': "s' = s\<lparr>rb_ring := q, rb_ppc := RPPush i\<rparr>" by auto
    show ?thesis
      using inv prod_begin_calls [OF q] prod_step_inv [OF _ q] True
      by (auto simp: rb_inv_def s' pc intro: rb_cons_ok_frame)
  next
    case False
    with RTest step pc have "s' = s\<lparr>rb_ppc := RPDone\<rparr>" by simp
    with False show ?thesis
      using inv by (auto simp: rb_inv_def pc intro: rb_cons_ok_frame)
  qed
next
  case (RPush e')
  with step obtain i q where pc: "rb_ppc s = RPPush i" and q: "prod_step sz e' (rb_ring s) = Some q" and
    s': "s' = s\<lparr>rb_ring := q, rb_ppc := (if ppc q \<noteq> PIdle then RPPush i
      else if push_result e' then RPFor (i + 1) else RPFor i)\<rparr>"
    by (auto split: rb_ppc.splits)
  from inv have i: "i < n" "ppc_item (ppc (rb_ring s)) = Some i" by (simp_all add: rb_inv_def pc)
  note calls = prod_step_calls [OF q i(2)]
  have res: "push_result e' \<longleftrightarrow> e' = PPublish" by (cases e') simp_all
  have "rb_prod_ok n (rb_ring s') (rb_ppc s')"
    using inv calls i messages_Suc [OF i(1)] by (auto simp: rb_inv_def s' pc res)
  then show ?thesis
    using inv calls prod_step_inv [OF _ q] by (auto simp: rb_inv_def s' pc intro: rb_cons_ok_frame)
next
  case RStoreDone
  with step have pc: "rb_ppc s = RPDone" by (auto split: rb_ppc.splits)
  have "pclk (rb_ring s) = unat n" "length (wmo (rb_ring s)) - 1 = unat n"
    using inv by (auto simp: rb_inv_def pc cring_inv_def mo_ok_def)
  with RStoreDone step show ?thesis
    using inv by (auto simp: rb_inv_def pc flag_store_def intro: rb_cons_ok_frame)
qed

lemma rb_pop_inv:
  assumes inv: "rb_inv sz n s" and q: "cons_step sz e (rb_ring s) = Some q" and busy: "cpc (rb_ring s) \<noteq> CIdle"
  shows "cring_inv sz q \<and> rb_prod_ok n q (rb_ppc s) \<and>
    (cpc q = CIdle \<and> \<not> pop_result e \<and> rb_ppc s = RPExit \<and> cview (rb_ring s) = unat n \<longrightarrow>
       popped q = messages (unat n)) \<and>
    (rb_ppc s = RPExit \<and> cview (rb_ring s) = unat n \<longrightarrow> cview q = unat n)"
proof -
  have ring: "cring_inv sz (rb_ring s)" and pok: "rb_prod_ok n (rb_ring s) (rb_ppc s)"
    using inv by (simp_all add: rb_inv_def)
  note calls = cons_step_calls [OF q]
  have ring': "cring_inv sz q" using ring q by (rule cons_step_inv)
  have pushed: "pushed q = messages (unat n)" if "rb_ppc s = RPExit"
    using pok calls that by simp
  have view: "cview q \<le> length (pushed q)" using ring' by (simp add: cring_defs)
  have "popped q = messages (unat n)"
    if idle: "cpc q = CIdle" "\<not> pop_result e" and ex: "rb_ppc s = RPExit" "cview (rb_ring s) = unat n"
  proof -
    from idle calls obtain p where e: "e = CCheck p" and p: "unat n \<le> p"
      using ex by auto
    have "length (popped q) = p" using failed_pop [OF ring _ idle(1)] q e by simp
    moreover have "popped q = take (length (popped q)) (pushed q)" using ring' by (simp add: cring_inv_def)
    ultimately show ?thesis using pushed [OF ex(1)] p by simp
  qed
  then show ?thesis
    using ring' calls pok view pushed by (auto intro: rb_prod_ok_frame)
qed

lemma rb_cons_inv:
  assumes inv: "rb_inv sz n s" and step: "rb_cons_step sz e s = Some s'"
  shows "rb_inv sz n s'"
proof (cases e)
  case RCall
  with step obtain q where q: "cons_step sz CBegin (rb_ring s) = Some q" and
    s': "rb_cpc s = RCWhile \<and> s' = s\<lparr>rb_ring := q, rb_cpc := RCPop\<rparr> \<or>
      rb_cpc s = RCDrain \<and> s' = s\<lparr>rb_ring := q, rb_cpc := RCDrainPop\<rparr>"
    by (auto split: rb_cpc.splits)
  then show ?thesis
    using inv cons_step_calls [OF q] cons_step_inv [OF _ q]
    by (auto simp: rb_inv_def intro: rb_prod_ok_frame)
next
  case (RPop e')
  with step obtain q where q: "cons_step sz e' (rb_ring s) = Some q" and pc: "rb_cpc s = RCPop \<or> rb_cpc s = RCDrainPop" and
    s': "s' = s\<lparr>rb_ring := q, rb_cpc := (if cpc q \<noteq> CIdle then rb_cpc s
      else if pop_result e' then (if rb_cpc s = RCPop then RCWhile else RCDrain)
      else (if rb_cpc s = RCPop then RCFlag else RCExit))\<rparr>"
    by (auto split: rb_cpc.splits)
  have "cpc (rb_ring s) \<noteq> CIdle" using inv pc by (auto simp: rb_inv_def)
  from rb_pop_inv [OF inv q this] show ?thesis
    using inv pc by (auto simp: rb_inv_def s')
next
  case (RLoadDone p)
  with step have pc: "rb_cpc s = RCFlag" and p: "p < length (rb_done s)"
    by (auto split: rb_cpc.splits if_splits)
  have ring: "cring_inv sz (rb_ring s)" and idle: "cpc (rb_ring s) = CIdle" and
    dm: "rb_done s = (False, 0, 0) # (if rb_ppc s = RPExit then [(True, unat n, unat n)] else [])"
    using inv by (simp_all add: rb_inv_def pc)
  define v where "v \<longleftrightarrow> p \<noteq> 0"
  define k where "k = (if v then unat n else 0)"
  have ex: "rb_ppc s = RPExit" if v using that p dm by (auto simp: v_def split: if_splits)
  have len: "v \<Longrightarrow> length (pushed (rb_ring s)) = unat n"
    using inv ex by (auto simp: rb_inv_def)
  have load: "rb_done s ! p = (v, k, k)"
    using p dm by (auto simp: v_def k_def nth_Cons' split: if_splits)
  define q where "q = (rb_ring s)\<lparr>cview := max (cview (rb_ring s)) k, cknows := max (cknows (rb_ring s)) k\<rparr>"
  have s': "s' = s\<lparr>rb_ring := q, rb_dview := p, rb_cpc := (if v then RCDrain else RCWhile)\<rparr>"
    using step RLoadDone by (simp add: pc flag_load_def load q_def split: if_splits)
  have "cring_inv sz q"
    unfolding q_def using len by (intro cring_inv_raise [OF ring idle]) (auto simp: k_def)
  moreover have "cview q = unat n" if v
    using ring len that by (simp add: q_def k_def cring_defs)
  moreover have "pushed q = pushed (rb_ring s)" "ppc q = ppc (rb_ring s)" "cpc q = CIdle"
    using idle by (simp_all add: q_def)
  ultimately show ?thesis
    using inv ex p by (auto simp: rb_inv_def s' pc intro: rb_prod_ok_frame)
qed

lemma rb_reach_inv: "rb_reach sz n s \<Longrightarrow> size_ok sz \<Longrightarrow> rb_inv sz n s"
  by (induction rule: rb_reach.induct) (auto intro: rb_inv_new rb_prod_inv rb_cons_inv)

subsection \<open>Work left\<close>

text \<open>
  How far each thread is from its end. A call that fails brings a thread no closer, but there is
  always a thread whose next access, if it loads the newest values, does.
\<close>

fun rb_prod_work :: "u64 \<Rightarrow> u64 cring \<Rightarrow> rb_ppc \<Rightarrow> nat" where
  "rb_prod_work n q (RPFor i) = 5 * (unat n - unat i) + 2"
| "rb_prod_work n q (RPPush i) = 5 * (unat n - unat i - 1) + 2 + pleft (ppc q)"
| "rb_prod_work n q RPDone = 1"
| "rb_prod_work n q RPExit = 0"

fun rb_cons_rank :: "u64 cring \<Rightarrow> bool \<Rightarrow> rb_cpc \<Rightarrow> nat" where
  "rb_cons_rank q ended RCWhile = 9"
| "rb_cons_rank q ended RCPop = 5 + cleft (cpc q)"
| "rb_cons_rank q ended RCFlag = (if ended then 5 else 10)"
| "rb_cons_rank q ended RCDrain = 4"
| "rb_cons_rank q ended RCDrainPop = cleft (cpc q)"
| "rb_cons_rank q ended RCExit = 0"

definition rb_work :: "u64 \<Rightarrow> rbench \<Rightarrow> nat" where
  "rb_work n s = rb_prod_work n (rb_ring s) (rb_ppc s) +
     20 * (unat n - length (popped (rb_ring s))) +
     rb_cons_rank (rb_ring s) (rb_ppc s = RPExit) (rb_cpc s)"

lemma rb_cons_rank_frame [simp]:
  "rb_cons_rank (q\<lparr>ppc := a\<rparr>) b c = rb_cons_rank q b c"
  "rb_cons_rank (q\<lparr>pview := i\<rparr>) b c = rb_cons_rank q b c"
  "rb_cons_rank (q\<lparr>pclk := i\<rparr>) b c = rb_cons_rank q b c"
  "rb_cons_rank (q\<lparr>pknows := i\<rparr>) b c = rb_cons_rank q b c"
  "rb_cons_rank (q\<lparr>cells := xs\<rparr>) b c = rb_cons_rank q b c"
  "rb_cons_rank (q\<lparr>wstamp := is\<rparr>) b c = rb_cons_rank q b c"
  "rb_cons_rank (q\<lparr>race := r\<rparr>) b c = rb_cons_rank q b c"
  "rb_cons_rank (q\<lparr>wmo := m\<rparr>) b c = rb_cons_rank q b c"
  "rb_cons_rank (q\<lparr>pushed := xs\<rparr>) b c = rb_cons_rank q b c"
  by (cases c; simp)+

lemma rb_prod_work_cong:
  "ppc q' = ppc q \<Longrightarrow> rb_prod_work n q' p = rb_prod_work n q p"
  by (cases p) simp_all

lemma rb_prod_work_frame [simp]:
  "rb_prod_work n (q\<lparr>cpc := a\<rparr>) p = rb_prod_work n q p"
  "rb_prod_work n (q\<lparr>cview := i\<rparr>) p = rb_prod_work n q p"
  "rb_prod_work n (q\<lparr>cknows := i\<rparr>) p = rb_prod_work n q p"
  by (rule rb_prod_work_cong; simp)+

definition rb_finished :: "rbench \<Rightarrow> bool" where
  "rb_finished s \<longleftrightarrow> rb_ppc s = RPExit \<and> rb_cpc s = RCExit"

lemma rb_prod_progress:
  assumes inv: "rb_inv sz n s" and sz: "0 < unat sz" and empty: "length (popped (rb_ring s)) = length (pushed (rb_ring s))"
    and going: "rb_ppc s \<noteq> RPExit"
  shows "\<exists>e s'. rb_prod_step sz n e s = Some s' \<and> rb_work n s' < rb_work n s"
proof -
  have ring: "cring_inv sz (rb_ring s)" using inv by (simp add: rb_inv_def)
  show ?thesis
  proof (cases "rb_ppc s")
    case (RPFor i)
    have idle: "ppc (rb_ring s) = PIdle" using inv by (simp add: rb_inv_def RPFor)
    show ?thesis
      by (rule exI [of _ RTest])
        (use inv in \<open>auto simp: RPFor idle rb_work_def Let_def word_less_nat_alt split: prod.splits\<close>)
  next
    case (RPPush i)
    have "ppc (rb_ring s) \<noteq> PIdle" and i: "unat i < unat n"
      using inv by (auto simp: rb_inv_def RPPush word_less_nat_alt)
    then show ?thesis
    proof (cases "ppc (rb_ring s)")
      case (PLoaded x w)
      let ?p = "length (popped (rb_ring s))"
      have p: "?p < length (rmo (rb_ring s))" "pview (rb_ring s) \<le> ?p"
        using ring by (auto simp: cring_defs mo_ok_def)
      have "w = of_nat (length (pushed (rb_ring s)))" using ring by (simp add: cring_inv_def PLoaded)
      then have "\<not> w + 1 - of_nat ?p > sz"
        using stale_full_test [of sz ?p "length (pushed (rb_ring s))"] ring sz empty by (auto simp: cring_inv_def)
      then show ?thesis
        using p mo_ok_load [of "rmo (rb_ring s)" ?p ?p] ring
        by (intro exI [of _ "RPush (PCheck ?p)"])
          (auto simp: RPPush PLoaded rb_work_def Let_def cring_inv_def)
    next
      case (PChecked x w)
      then show ?thesis
        by (intro exI [of _ "RPush PWrite"]) (auto simp: RPPush rb_work_def Let_def)
    next
      case (PWritten x w)
      then show ?thesis
        using i unat_Suc_less [of i n]
        by (intro exI [of _ "RPush PPublish"]) (auto simp: RPPush rb_work_def word_less_nat_alt)
    qed simp
  next
    case RPDone
    then show ?thesis
      by (intro exI [of _ RStoreDone]) (cases "rb_cpc s"; simp add: rb_work_def)
  qed (use going in simp)
qed

lemma cleft_pos: "c \<noteq> CIdle \<Longrightarrow> 0 < cleft c"
  by (cases c) simp_all

lemma rb_pop_progress:
  assumes inv: "rb_inv sz n s" and busy: "cpc (rb_ring s) \<noteq> CIdle"
    and room: "length (popped (rb_ring s)) < length (pushed (rb_ring s)) \<or> rb_ppc s = RPExit"
  shows "\<exists>e q. cons_step sz e (rb_ring s) = Some q \<and> e \<noteq> CBegin \<and> popped q = popped (rb_ring s) \<and>
      (cleft (cpc q) < cleft (cpc (rb_ring s)) \<and> cpc q \<noteq> CIdle \<or>
       cpc q = CIdle \<and> \<not> pop_result e \<and> rb_ppc s = RPExit) \<or>
    (\<exists>q. cons_step sz CPublish (rb_ring s) = Some q \<and> cpc q = CIdle \<and>
      length (popped q) = Suc (length (popped (rb_ring s))) \<and> length (popped q) \<le> unat n)"
proof -
  let ?q = "rb_ring s"
  have ring: "cring_inv sz ?q" and pok: "rb_prod_ok n ?q (rb_ppc s)" using inv by (simp_all add: rb_inv_def)
  have le: "length (pushed ?q) \<le> unat n"
    using pok by (cases "rb_ppc s") (auto simp: word_le_nat_alt word_less_nat_alt)
  show ?thesis
  proof (cases "cpc ?q")
    case (CLoaded r)
    let ?p = "length (pushed ?q)"
    have p: "?p < length (wmo ?q)" "cview ?q \<le> ?p" using ring by (auto simp: cring_defs mo_ok_def)
    have "\<exists>q. cons_step sz (CCheck ?p) ?q = Some q \<and> popped q = popped ?q \<and>
        (cpc q = CIdle \<or> cpc q = CChecked r)"
      using p by (cases "atomic_load Acquire (wmo ?q) ?p (cknows ?q)") (auto simp: CLoaded Let_def)
    then obtain q where q: "cons_step sz (CCheck ?p) ?q = Some q" and
      same: "popped q = popped ?q" "cpc q = CIdle \<or> cpc q = CChecked r" by blast
    have "cpc q = CIdle \<Longrightarrow> rb_ppc s = RPExit"
      using failed_pop [OF ring q] room by auto
    with q same CLoaded have "cons_step sz (CCheck ?p) ?q = Some q \<and> CCheck ?p \<noteq> CBegin \<and> popped q = popped ?q \<and>
      (cleft (cpc q) < cleft (cpc ?q) \<and> cpc q \<noteq> CIdle \<or>
       cpc q = CIdle \<and> \<not> pop_result (CCheck ?p) \<and> rb_ppc s = RPExit)" by auto
    then show ?thesis by blast
  next
    case (CChecked r)
    then show ?thesis by (auto simp: Let_def intro!: exI [of _ CTake])
  next
    case (CTaken r x)
    then have "length (popped ?q) < length (pushed ?q)" using ring by (auto simp: cring_defs)
    then show ?thesis using CTaken le by auto
  qed (use busy in simp)
qed

lemma rb_cons_progress:
  assumes inv: "rb_inv sz n s" and going: "rb_cpc s \<noteq> RCExit"
    and room: "length (popped (rb_ring s)) < length (pushed (rb_ring s)) \<or> rb_ppc s = RPExit"
  shows "\<exists>e s'. rb_cons_step sz e s = Some s' \<and> rb_work n s' < rb_work n s"
proof -
  have call: "\<exists>s'. rb_cons_step sz RCall s = Some s' \<and> rb_work n s' < rb_work n s"
    if "rb_cpc s = RCWhile \<or> rb_cpc s = RCDrain"
    using inv that by (auto simp: rb_inv_def rb_work_def Let_def split: prod.splits)
  have pop: "\<exists>e s'. rb_cons_step sz e s = Some s' \<and> rb_work n s' < rb_work n s"
    if pc: "rb_cpc s = RCPop \<or> rb_cpc s = RCDrainPop"
  proof -
    have busy: "cpc (rb_ring s) \<noteq> CIdle" using inv pc by (auto simp: rb_inv_def)
    have same: "rb_prod_work n q (rb_ppc s) = rb_prod_work n (rb_ring s) (rb_ppc s)"
      if "cons_step sz e (rb_ring s) = Some q" for e q
      using cons_step_calls [OF that] by (intro rb_prod_work_cong) simp
    from rb_pop_progress [OF inv busy room] show ?thesis
    proof (elim exE conjE disjE, goal_cases)
      case (1 e q)
      then show ?case using pc same [OF 1(1)]
        by (intro exI [of _ "RPop e"]) (auto simp: rb_work_def)
    next
      case (2 e q)
      then show ?case using pc same [OF 2(1)] cleft_pos [OF busy]
        by (intro exI [of _ "RPop e"]) (auto simp: rb_work_def)
    next
      case (3 q)
      then show ?case using pc same [OF 3(1)]
        by (intro exI [of _ "RPop CPublish"]) (auto simp: rb_work_def simp del: cons_step.simps)
    qed
  qed
  have flag: "\<exists>e s'. rb_cons_step sz e s = Some s' \<and> rb_work n s' < rb_work n s" if "rb_cpc s = RCFlag"
  proof -
    let ?p = "length (rb_done s) - 1"
    have "rb_dview s \<le> ?p" "?p < length (rb_done s)"
      and "fst (rb_done s ! ?p) \<longleftrightarrow> rb_ppc s = RPExit"
      using inv by (auto simp: rb_inv_def)
    then show ?thesis using that
      by (intro exI [of _ "RLoadDone ?p"])
        (auto simp: flag_load_def rb_work_def split: prod.splits)
  qed
  show ?thesis using call pop flag going by (cases "rb_cpc s") blast+
qed

lemma rb_progress:
  assumes inv: "rb_inv sz n s" and sz: "0 < unat sz" and going: "\<not> rb_finished s"
  shows "(\<exists>e s'. rb_prod_step sz n e s = Some s' \<and> rb_work n s' < rb_work n s) \<or>
    (\<exists>e s'. rb_cons_step sz e s = Some s' \<and> rb_work n s' < rb_work n s)"
proof (cases "length (popped (rb_ring s)) < length (pushed (rb_ring s)) \<or> rb_ppc s = RPExit")
  case True
  have "rb_cpc s \<noteq> RCExit" using going inv by (auto simp: rb_finished_def rb_inv_def)
  then show ?thesis using rb_cons_progress [OF inv _ True] by blast
next
  case False
  have "length (popped (rb_ring s)) \<le> length (pushed (rb_ring s))" using inv by (auto simp: rb_inv_def cring_defs)
  then show ?thesis using rb_prod_progress [OF inv sz] False by auto
qed

subsection \<open>Executions as lists of steps\<close>

fun rb_run :: "u64 \<Rightarrow> u64 \<Rightarrow> (rb_pstep + rb_cstep) list \<Rightarrow> rbench \<Rightarrow> rbench option" where
  "rb_run sz n [] s = Some s"
| "rb_run sz n (Inl e # es) s = Option.bind (rb_prod_step sz n e s) (rb_run sz n es)"
| "rb_run sz n (Inr e # es) s = Option.bind (rb_cons_step sz e s) (rb_run sz n es)"

lemma rb_run_reach: "rb_run sz n es s = Some s' \<Longrightarrow> rb_reach sz n s \<Longrightarrow> rb_reach sz n s'"
  by (induction sz n es s rule: rb_run.induct)
    (auto simp: bind_eq_Some_conv intro: rb_reach.prod rb_reach.cons)

lemma rb_can_finish:
  assumes "rb_inv sz n s" and sz: "0 < unat sz"
  shows "\<exists>es s'. length es \<le> rb_work n s \<and> rb_run sz n es s = Some s' \<and> rb_finished s'"
  using assms(1)
proof (induction "rb_work n s" arbitrary: s rule: less_induct)
  case less
  show ?case
  proof (cases "rb_finished s")
    case True
    then show ?thesis by (intro exI [of _ "[]"] exI [of _ s]) simp
  next
    case False
    have one: "\<exists>es s'. length es \<le> rb_work n s \<and> rb_run sz n es s = Some s' \<and> rb_finished s'"
      if step: "rb_run sz n [e] s = Some s1" and w: "rb_work n s1 < rb_work n s" and inv: "rb_inv sz n s1" for e s1
    proof -
      from less.hyps [OF w inv] obtain es s' where
        "length es \<le> rb_work n s1" "rb_run sz n es s1 = Some s'" "rb_finished s'" by blast
      moreover from step have "rb_run sz n (e # es) s = rb_run sz n es s1"
        by (cases e) (auto simp: bind_eq_Some_conv)
      ultimately show ?thesis using w by (intro exI [of _ "e # es"] exI [of _ s']) simp
    qed
    from rb_progress [OF less.prems sz False] show ?thesis
    proof (elim disjE exE conjE, goal_cases)
      case (1 e s1)
      then show ?case using one [of "Inl e" s1] rb_prod_inv [OF less.prems] by simp
    next
      case (2 e s1)
      then show ?case using one [of "Inr e" s1] rb_cons_inv [OF less.prems] by simp
    qed
  qed
qed

lemma rb_work_new: "rb_work n (rbench_new sz) = 25 * unat n + 11"
  by (simp add: rb_work_def rbench_new_def cring_new_def)

text \<open>
  An execution used as a witness: one message through a ring of one slot. The consumer finds the
  ring empty and \<open>done\<close> unset; it is about to load \<open>done\<close> a second time when the producer pushes
  and leaves.
\<close>

definition rb_demo_steps :: "(rb_pstep + rb_cstep) list" where
  "rb_demo_steps =
     [Inr RCall, Inr (RPop (CCheck 0)), Inr (RLoadDone 0), Inr RCall, Inr (RPop (CCheck 0)),
      Inl RTest, Inl (RPush (PCheck 0)), Inl (RPush PWrite), Inl (RPush PPublish),
      Inl RTest, Inl RStoreDone, Inr (RLoadDone 1),
      Inr RCall, Inr (RPop (CCheck 1)), Inr (RPop CTake), Inr (RPop CPublish),
      Inr RCall, Inr (RPop (CCheck 1))]"

definition rb_demo_end :: rbench where
  "rb_demo_end =
     \<lparr>rb_ring = \<lparr>wmo = [(0, 0), (1, 1)], rmo = [(0, 0), (1, 1)], cells = [0], wstamp = [1], rstamp = [1],
        ppc = PIdle, pview = 0, pclk = 1, pknows = 0, cpc = CIdle, cview = 1, cclk = 1, cknows = 1,
        race = False, pushed = [0], popped = [0]\<rparr>,
      rb_done = [(False, 0, 0), (True, 1, 1)], rb_dview = 1, rb_ppc = RPExit, rb_cpc = RCExit\<rparr>"

lemma rb_demo_run: "rb_run 1 1 rb_demo_steps (rbench_new 1) = Some rb_demo_end"
  by (simp add: rb_demo_steps_def rb_demo_end_def rbench_new_def cring_new_def atomic_load_def
      atomic_store_def flag_load_def flag_store_def slot_def)

text \<open>
  C6. \<open>bench_ring\<close> under the memory orders of the source: in every execution, stale loads of both
  indices and of \<open>done\<close> included, no two accesses to the buffer race, the consumer has received a prefix of
  0, 1, 2, ..., and when it leaves through the load of \<open>done\<close> and the draining loop it has received all
  \<open>num_messages\<close> values and the producer has ended. In no state are the threads stuck: within
  \<open>rb_work\<close> more accesses, \<open>25 * num_messages + 11\<close> from the start, both can end.
\<close>

theorem ring_bench_loses_nothing:
  assumes sz: "size_ok sz" "0 < unat sz" and reach: "rb_reach sz n s"
  shows "\<not> race (rb_ring s) \<and>
    (\<exists>k\<le>unat n. popped (rb_ring s) = map of_nat [0..<k]) \<and>
    (rb_cpc s = RCExit \<longrightarrow> popped (rb_ring s) = map of_nat [0..<unat n] \<and> rb_ppc s = RPExit) \<and>
    (\<exists>es s'. length es \<le> rb_work n s \<and> rb_run sz n es s = Some s' \<and>
       rb_ppc s' = RPExit \<and> rb_cpc s' = RCExit) \<and>
    rb_work n (rbench_new sz) = 25 * unat n + 11"
proof -
  have inv: "rb_inv sz n s" using reach sz(1) by (rule rb_reach_inv)
  then have ring: "cring_inv sz (rb_ring s)" and pok: "rb_prod_ok n (rb_ring s) (rb_ppc s)"
    by (simp_all add: rb_inv_def)
  define m where "m = length (pushed (rb_ring s))"
  have m: "m \<le> unat n" "pushed (rb_ring s) = messages m"
    using pok by (cases "rb_ppc s"; simp add: m_def word_le_nat_alt word_less_nat_alt)+
  have le: "length (popped (rb_ring s)) \<le> m" using ring by (simp add: cring_defs m_def)
  have "popped (rb_ring s) = take (length (popped (rb_ring s))) (messages m)"
    using ring m by (simp add: cring_inv_def)
  also have "\<dots> = messages (length (popped (rb_ring s)))" using le by (simp add: take_map)
  finally have "\<exists>k\<le>unat n. popped (rb_ring s) = messages k" using le m(1) le_trans by blast
  moreover have "rb_cpc s = RCExit \<longrightarrow> popped (rb_ring s) = messages (unat n) \<and> rb_ppc s = RPExit"
    using inv by (auto simp: rb_inv_def)
  ultimately show ?thesis
    using ring rb_can_finish [OF inv sz(2)] rb_work_new by (simp add: cring_inv_def rb_finished_def)
qed

theorem ring_bench_loses_nothing_witness:
  "rb_reach 1 1 rb_demo_end \<and> \<not> race (rb_ring rb_demo_end) \<and> popped (rb_ring rb_demo_end) = [0]"
proof -
  have reach: "rb_reach 1 1 rb_demo_end" by (rule rb_run_reach [OF rb_demo_run rb_reach.start])
  have "size_ok 1" "0 < unat (1::u64)" by (simp_all add: size_ok_def)
  from ring_bench_loses_nothing [OF this reach] reach show ?thesis
    by (simp add: rb_demo_end_def)
qed

end
