(* ===== verification/Draining.thy ===== *)
theory Draining imports
  Prelude
begin

text \<open>
  Executions of a system whose threads may be blocked, and the interface that says when such a
  system gets its work done: whoever is scheduled, every step of the threads considered lowers
  a measure, and as long as the goal is not reached one of them can move.
\<close>

fun prun :: "('a \<Rightarrow> 's \<Rightarrow> 's option) \<Rightarrow> 'a list \<Rightarrow> 's \<Rightarrow> 's option" where
  "prun step [] s = Some s"
| "prun step (a # as) s = Option.bind (step a s) (prun step as)"

lemma prun_append: "prun step (as @ bs) s = Option.bind (prun step as s) (prun step bs)"
  by (induction as arbitrary: s) (simp_all add: bind_assoc split: Option.bind_splits)

lemma prun_inv:
  "prun step as s = Some s' \<Longrightarrow> (\<And>a s s'. I s \<Longrightarrow> step a s = Some s' \<Longrightarrow> I s') \<Longrightarrow> I s \<Longrightarrow> I s'"
  by (induction as arbitrary: s) (auto simp: bind_eq_Some_conv)

lemma prun_inv_all:
  "prun step as s = Some s' \<Longrightarrow> list_all P as \<Longrightarrow> (\<And>a s s'. I s \<Longrightarrow> P a \<Longrightarrow> step a s = Some s' \<Longrightarrow> I s') \<Longrightarrow>
     I s \<Longrightarrow> I s'"
  by (induction as arbitrary: s) (auto simp: bind_eq_Some_conv)

locale draining =
  fixes step :: "'a \<Rightarrow> 's \<Rightarrow> 's option"
    and mine :: "'a \<Rightarrow> bool"
    and ok :: "'s \<Rightarrow> bool"
    and fin :: "'s \<Rightarrow> bool"
    and work :: "'s \<Rightarrow> nat"
  assumes step_keeps: "ok s \<Longrightarrow> mine a \<Longrightarrow> step a s = Some s' \<Longrightarrow> ok s'"
    and step_lowers: "ok s \<Longrightarrow> mine a \<Longrightarrow> step a s = Some s' \<Longrightarrow> work s' < work s"
    and progress: "ok s \<Longrightarrow> \<not> fin s \<Longrightarrow> \<exists>a s'. mine a \<and> step a s = Some s'"
begin

lemma run_bounded:
  "prun step as s = Some s' \<Longrightarrow> ok s \<Longrightarrow> list_all mine as \<Longrightarrow> ok s' \<and> length as + work s' \<le> work s"
proof (induction as arbitrary: s)
  case (Cons a as)
  then obtain t where t: "step a s = Some t" "prun step as t = Some s'"
    by (auto simp: bind_eq_Some_conv)
  with Cons.prems have "ok t" "work t < work s" using step_keeps step_lowers by auto
  with Cons.IH [OF t(2)] Cons.prems show ?case by simp
qed simp

lemma stuck_finished: "ok s \<Longrightarrow> (\<And>a. mine a \<Longrightarrow> step a s = None) \<Longrightarrow> fin s"
  using progress [of s] by (metis option.distinct(1))

lemma finishes: "ok s \<Longrightarrow> \<exists>as s'. list_all mine as \<and> prun step as s = Some s' \<and> ok s' \<and> fin s'"
proof (induction "work s" arbitrary: s rule: less_induct)
  case less
  show ?case
  proof (cases "fin s")
    case True
    with less.prems show ?thesis by (intro exI [of _ "[]"]) simp
  next
    case False
    then obtain a t where t: "mine a" "step a s = Some t" using progress less.prems by blast
    with less.prems obtain as s' where "list_all mine as" "prun step as t = Some s'" "ok s'" "fin s'"
      using less.hyps [of t] step_keeps step_lowers by blast
    with t show ?thesis by (intro exI [of _ "a # as"] exI [of _ s']) simp
  qed
qed

end

end
