(* ===== verification/Simulation.thy ===== *)
theory Simulation imports
  Draining
begin

text \<open>
  Refinement between two systems whose steps are partial functions: a detailed one, with an invariant, and a
  coarse one. A step of the detailed system is one step of the coarse one (\<open>act\<close> says which) or none that
  shows. The interface is interpreted on the thread pool and on the epoll server; the lemmas lift it to
  executions.
\<close>

locale step_simulation =
  fixes cstep :: "'a \<Rightarrow> 's \<Rightarrow> 's option"
    and astep :: "'b \<Rightarrow> 't \<Rightarrow> 't option"
    and inv :: "'s \<Rightarrow> bool"
    and act :: "'a \<Rightarrow> 's \<Rightarrow> 'b option"
    and abs :: "'s \<Rightarrow> 't"
  assumes inv_step: "inv s \<Longrightarrow> cstep a s = Some s' \<Longrightarrow> inv s'"
    and sim: "inv s \<Longrightarrow> cstep a s = Some s' \<Longrightarrow>
      case act a s of None \<Rightarrow> abs s' = abs s | Some b \<Rightarrow> astep b (abs s) = Some (abs s')"
begin

lemma run_inv: "prun cstep as s = Some s' \<Longrightarrow> inv s \<Longrightarrow> inv s'"
  by (erule prun_inv) (rule inv_step)

text \<open>The coarse actions of an execution.\<close>

lemma run_sim:
  "prun cstep as s = Some s' \<Longrightarrow> inv s \<Longrightarrow>
     \<exists>bs. prun astep bs (abs s) = Some (abs s') \<and> length bs \<le> length as \<and> (\<forall>b\<in>set bs. \<exists>a\<in>set as. \<exists>t. act a t = Some b)"
proof (induction as arbitrary: s)
  case Nil
  then show ?case by (intro exI [of _ "[]"]) simp
next
  case (Cons a as)
  then obtain t where t: "cstep a s = Some t" "prun cstep as t = Some s'" by (auto simp: bind_eq_Some_conv)
  with Cons inv_step obtain bs where bs: "prun astep bs (abs t) = Some (abs s')" "length bs \<le> length as"
    "\<forall>b\<in>set bs. \<exists>a\<in>set as. \<exists>t. act a t = Some b" by blast
  show ?case
  proof (cases "act a s")
    case None
    with sim [OF Cons.prems(2) t(1)] bs show ?thesis by (intro exI [of _ bs]) auto
  next
    case (Some b)
    with sim [OF Cons.prems(2) t(1)] bs show ?thesis by (intro exI [of _ "b # bs"]) auto
  qed
qed

text \<open>What holds of every coarse state that can be reached holds of the abstraction of every detailed one.\<close>

lemma invariant_transfers:
  assumes "\<And>b t t'. I t \<Longrightarrow> astep b t = Some t' \<Longrightarrow> I t'" "prun cstep as s = Some s'" "inv s" "I (abs s)"
  shows "I (abs s')"
  using run_sim [OF assms(2,3)] assms(1,4) by (elim exE conjE, erule_tac prun_inv) blast+

end

end
