(* ===== verification/Thread_Pool.thy ===== *)
theory Thread_Pool imports
  Simulation
  "HOL-Library.Multiset"
begin

text \<open>
  \<open>ThreadPool\<close> of \<open>src/echo_server/common/thread_pool.cpp\<close>: a FIFO of tasks under a mutex, workers
  that sleep on a condition variable, and a shutdown flag that is an atomic and is written
  without the mutex. One action of the model is one synchronisation step of one thread. The
  network thread is the only caller of \<open>enqueue\<close>; \<open>stop\<close> is called by the signal handler, which
  interrupts that same thread at any point, and by the destructors.
\<close>

subsection \<open>State\<close>

datatype owner = Network | Worker nat

text \<open>
  Where a worker is in \<open>worker_loop\<close>: at the loop test, locking, evaluating the predicate of
  \<open>wait\<close>, about to release the mutex and sleep, asleep, woken and about to lock again, past
  \<open>wait\<close>, about to dequeue, running a task, or returned.
\<close>

datatype 'a wpc = WTop | WLock | WPred | WBlock | WSleep | WWake | WTest | WPop | WRun 'a | WExit

text \<open>Where the network thread is in \<open>enqueue\<close>.\<close>

datatype 'a npc = NIdle | NLock 'a | NPush 'a | NUnlock | NNotify

text \<open>Where the call of \<open>stop\<close> that interrupts it is, if there is one.\<close>

datatype hpc = HNone | HSet | HNotify | HJoin nat

record 'a pool =
  tasks :: "'a list"
  mtx :: "owner option"
  running :: bool
  workers :: "'a wpc list"
  joined :: "bool list"
  net :: "'a npc"
  hnd :: hpc
  enqueued :: "'a list"
  started :: "'a list"
  finished :: "'a list"

definition pool_new :: "nat \<Rightarrow> 'a pool" where
  "pool_new num_workers =
     \<lparr>tasks = [], mtx = None, running = True,
      workers = replicate num_workers WTop, joined = replicate num_workers False,
      net = NIdle, hnd = HNone, enqueued = [], started = [], finished = []\<rparr>"

abbreviation set_worker :: "nat \<Rightarrow> 'a wpc \<Rightarrow> 'a pool \<Rightarrow> 'a pool" where
  "set_worker i pc s \<equiv> s\<lparr>workers := (workers s)[i := pc]\<rparr>"

subsection \<open>worker_loop\<close>

text \<open>A worker that cannot take a step (waiting for the mutex, asleep, returned) is \<open>None\<close>.\<close>

definition worker_loop :: "nat \<Rightarrow> 'a pool \<Rightarrow> 'a pool option" where
  "worker_loop i s =
     (case workers s ! i of
        WTop \<Rightarrow> Some (set_worker i (if running s then WLock else WExit) s)
      | WLock \<Rightarrow> if mtx s = None then Some (set_worker i WPred (s\<lparr>mtx := Some (Worker i)\<rparr>)) else None
      | WPred \<Rightarrow> Some (set_worker i (if tasks s \<noteq> [] \<or> \<not> running s then WTest else WBlock) s)
      | WBlock \<Rightarrow> Some (set_worker i WSleep (s\<lparr>mtx := None\<rparr>))
      | WSleep \<Rightarrow> None
      | WWake \<Rightarrow> if mtx s = None then Some (set_worker i WPred (s\<lparr>mtx := Some (Worker i)\<rparr>)) else None
      | WTest \<Rightarrow> if \<not> running s \<and> tasks s = [] then Some (set_worker i WExit (s\<lparr>mtx := None\<rparr>))
                 else Some (set_worker i WPop s)
      | WPop \<Rightarrow> (case tasks s of
                   [] \<Rightarrow> None
                 | task # rest \<Rightarrow>
                     Some (set_worker i (WRun task)
                       (s\<lparr>tasks := rest, mtx := None, started := started s @ [task]\<rparr>)))
      | WRun task \<Rightarrow> Some (set_worker i WTop (s\<lparr>finished := finished s @ [task]\<rparr>))
      | WExit \<Rightarrow> None)"

subsection \<open>enqueue and stop\<close>

text \<open>
  \<open>enqueue\<close> of the thread pool, one access per step. \<open>notify_one\<close> wakes one sleeping worker,
  any one (\<open>w\<close> is the choice), or does nothing when none is asleep.
\<close>

definition enqueue :: "nat \<Rightarrow> 'a pool \<Rightarrow> 'a pool option" where
  "enqueue w s =
     (case net s of
        NIdle \<Rightarrow> None
      | NLock task \<Rightarrow> if mtx s = None then Some (s\<lparr>mtx := Some Network, net := NPush task\<rparr>) else None
      | NPush task \<Rightarrow> Some (s\<lparr>tasks := tasks s @ [task], enqueued := enqueued s @ [task], net := NUnlock\<rparr>)
      | NUnlock \<Rightarrow> Some (s\<lparr>mtx := None, net := NNotify\<rparr>)
      | NNotify \<Rightarrow>
          if w < length (workers s) \<and> workers s ! w = WSleep then Some (set_worker w WWake (s\<lparr>net := NIdle\<rparr>))
          else if WSleep \<in> set (workers s) then None
          else Some (s\<lparr>net := NIdle\<rparr>))"

definition wake :: "'a wpc \<Rightarrow> 'a wpc" where
  "wake pc = (if pc = WSleep then WWake else pc)"

definition stop :: "'a pool \<Rightarrow> 'a pool option" where
  "stop s =
     (case hnd s of
        HNone \<Rightarrow> None
      | HSet \<Rightarrow> Some (s\<lparr>running := False, hnd := HNotify\<rparr>)
      | HNotify \<Rightarrow> Some (s\<lparr>workers := map wake (workers s), hnd := HJoin 0\<rparr>)
      | HJoin k \<Rightarrow>
          if k < length (workers s) then
            (if joined s ! k then Some (s\<lparr>hnd := HJoin (Suc k)\<rparr>)
             else if workers s ! k = WExit then Some (s\<lparr>joined := (joined s)[k := True], hnd := HJoin (Suc k)\<rparr>)
             else None)
          else Some (s\<lparr>hnd := HNone\<rparr>))"

subsection \<open>Actions and executions\<close>

text \<open>
  \<open>Submit\<close> starts a call of \<open>enqueue\<close>, \<open>Enqueue w\<close> takes its next step, \<open>Stop\<close> starts a call of
  \<open>stop\<close>, \<open>Stopping\<close> takes its next step. While \<open>stop\<close> runs, the network thread it interrupts
  does not move. \<open>Spurious\<close> is the wake-up without notification that C++ allows.
\<close>

datatype 'a action = Work nat | Spurious nat | Submit 'a | Enqueue nat | Stop | Stopping

fun pool_step :: "'a action \<Rightarrow> 'a pool \<Rightarrow> 'a pool option" where
  "pool_step (Work i) s = (if i < length (workers s) then worker_loop i s else None)"
| "pool_step (Spurious i) s =
     (if i < length (workers s) \<and> workers s ! i = WSleep then Some (set_worker i WWake s) else None)"
| "pool_step (Submit t) s = (if hnd s = HNone \<and> net s = NIdle then Some (s\<lparr>net := NLock t\<rparr>) else None)"
| "pool_step (Enqueue w) s = (if hnd s = HNone then enqueue w s else None)"
| "pool_step Stop s = (if hnd s = HNone then Some (s\<lparr>hnd := HSet\<rparr>) else None)"
| "pool_step Stopping s = stop s"

abbreviation pool_run :: "'a action list \<Rightarrow> 'a pool \<Rightarrow> 'a pool option" where
  "pool_run \<equiv> prun pool_step"

inductive preach :: "nat \<Rightarrow> 'a pool \<Rightarrow> bool" for n where
  start: "preach n (pool_new n)"
| step: "preach n s \<Longrightarrow> pool_step a s = Some s' \<Longrightarrow> preach n s'"

lemma pool_run_reach: "pool_run as s = Some s' \<Longrightarrow> preach n s \<Longrightarrow> preach n s'"
  by (induction as arbitrary: s) (auto simp: bind_eq_Some_conv intro: preach.step)

lemma pool_run_new: "pool_run as (pool_new n) = Some s \<Longrightarrow> preach n s"
  by (rule pool_run_reach [OF _ preach.start])

subsection \<open>Invariants\<close>

fun holds :: "'a wpc \<Rightarrow> bool" where
  "holds WPred = True"
| "holds WBlock = True"
| "holds WTest = True"
| "holds WPop = True"
| "holds _ = False"

fun net_holds :: "'a npc \<Rightarrow> bool" where
  "net_holds (NPush _) = True"
| "net_holds NUnlock = True"
| "net_holds _ = False"

text \<open>What a worker may rely on at each point, because it holds the mutex there.\<close>

fun pc_ok :: "'a list \<Rightarrow> bool \<Rightarrow> 'a wpc \<Rightarrow> bool" where
  "pc_ok q r WTest = (q \<noteq> [] \<or> \<not> r)"
| "pc_ok q r WPop = (q \<noteq> [])"
| "pc_ok q r WBlock = (q = [])"
| "pc_ok q r WExit = (\<not> r)"
| "pc_ok q r _ = True"

definition lock_ok :: "'a pool \<Rightarrow> bool" where
  "lock_ok s \<longleftrightarrow> (\<forall>i<length (workers s). holds (workers s ! i) \<longleftrightarrow> mtx s = Some (Worker i)) \<and>
     (\<forall>i. mtx s = Some (Worker i) \<longrightarrow> i < length (workers s)) \<and>
     (net_holds (net s) \<longleftrightarrow> mtx s = Some Network)"

definition pcs_ok :: "'a pool \<Rightarrow> bool" where
  "pcs_ok s \<longleftrightarrow> (\<forall>i<length (workers s). pc_ok (tasks s) (running s) (workers s ! i))"

definition join_ok :: "'a pool \<Rightarrow> bool" where
  "join_ok s \<longleftrightarrow> length (joined s) = length (workers s) \<and>
     (\<forall>k<length (workers s). joined s ! k \<longrightarrow> workers s ! k = WExit) \<and>
     (case hnd s of HJoin k \<Rightarrow> \<not> running s \<and> (\<forall>j<k. j < length (workers s) \<longrightarrow> joined s ! j)
      | HNotify \<Rightarrow> \<not> running s | _ \<Rightarrow> True)"

definition awake :: "'a wpc \<Rightarrow> bool" where
  "awake pc \<longleftrightarrow> pc \<noteq> WSleep \<and> pc \<noteq> WExit"

definition wake_ok :: "'a pool \<Rightarrow> bool" where
  "wake_ok s \<longleftrightarrow> (running s \<and> tasks s \<noteq> [] \<and> net s \<noteq> NUnlock \<and> net s \<noteq> NNotify \<and> workers s \<noteq> [] \<longrightarrow>
     (\<exists>i<length (workers s). awake (workers s ! i)))"

fun task_of :: "'a wpc \<Rightarrow> 'a list" where
  "task_of (WRun t) = [t]"
| "task_of _ = []"

definition in_flight :: "'a pool \<Rightarrow> 'a multiset" where
  "in_flight s = (\<Sum>pc\<in>#mset (workers s). mset (task_of pc))"

definition pool_inv :: "nat \<Rightarrow> 'a pool \<Rightarrow> bool" where
  "pool_inv n s \<longleftrightarrow> length (workers s) = n \<and> lock_ok s \<and> pcs_ok s \<and> join_ok s \<and> wake_ok s \<and>
     enqueued s = started s @ tasks s \<and> mset (started s) = mset (finished s) + in_flight s"

lemmas pool_defs = lock_ok_def pcs_ok_def join_ok_def wake_ok_def

lemma in_flight_update:
  "i < length (workers s) \<Longrightarrow> workers s ! i = old \<Longrightarrow>
     in_flight (s\<lparr>workers := (workers s)[i := new]\<rparr>) + mset (task_of old) = in_flight s + mset (task_of new)"
  by (auto simp: in_flight_def mset_update) (metis (no_types, lifting) add.commute add.left_commute
      image_mset_add_mset insert_DiffM nth_mem_mset sum_mset.add_mset)

lemma pool_inv_new: "pool_inv n (pool_new n)"
  by (simp add: pool_inv_def pool_new_def pool_defs in_flight_def)

subsection \<open>A worker's steps keep the invariants\<close>

lemma lock_ok_holder: "lock_ok s \<Longrightarrow> i < length (workers s) \<Longrightarrow> holds (workers s ! i) \<longleftrightarrow> mtx s = Some (Worker i)"
  by (simp add: lock_ok_def)

text \<open>The three ways a step of worker \<open>i\<close> can leave the mutex.\<close>

lemma lock_keep:
  "lock_ok s \<Longrightarrow> i < length (workers s) \<Longrightarrow> holds pc = holds (workers s ! i) \<Longrightarrow>
     lock_ok (set_worker i pc s)"
  by (simp add: lock_ok_def nth_list_update)

lemma lock_take:
  assumes "lock_ok s" "i < length (workers s)" "mtx s = None" "holds pc"
  shows "lock_ok (set_worker i pc (s\<lparr>mtx := Some (Worker i)\<rparr>))"
  using assms by (auto simp: lock_ok_def nth_list_update)

lemma lock_drop:
  assumes "lock_ok s" "i < length (workers s)" "holds (workers s ! i)" "\<not> holds pc"
  shows "lock_ok (set_worker i pc (s\<lparr>mtx := None\<rparr>))"
proof -
  have "mtx s = Some (Worker i)" using assms by (simp add: lock_ok_def)
  with assms show ?thesis by (auto simp: lock_ok_def nth_list_update)
qed

lemma lock_ok_cong:
  "workers s' = workers s \<Longrightarrow> mtx s' = mtx s \<Longrightarrow> net s' = net s \<Longrightarrow> lock_ok s \<Longrightarrow> lock_ok s'"
  by (simp add: lock_ok_def)

lemma work_lock:
  assumes ok: "lock_ok s" and i: "i < length (workers s)" and step: "worker_loop i s = Some s'"
  shows "lock_ok s'"
proof (cases "workers s ! i")
  case WPop
  with step obtain t ts where s': "s' = set_worker i (WRun t)
      (s\<lparr>tasks := ts, mtx := None, started := started s @ [t]\<rparr>)"
    by (auto simp: worker_loop_def split: list.splits)
  show ?thesis
    using lock_drop [OF ok i, of "WRun t"] WPop by (rule_tac lock_ok_cong) (simp_all add: s')
next
  case (WRun t)
  then show ?thesis
    using step lock_keep [OF ok i, of WTop] by (auto simp: worker_loop_def lock_ok_def)
qed (use step lock_keep [OF ok i] lock_take [OF ok i, of WPred] lock_drop [OF ok i] in
    \<open>auto simp: worker_loop_def split: if_splits\<close>)

lemma only_holder:
  "lock_ok s \<Longrightarrow> i < length (workers s) \<Longrightarrow> holds (workers s ! i) \<Longrightarrow> j < length (workers s) \<Longrightarrow>
     j \<noteq> i \<Longrightarrow> \<not> holds (workers s ! j)"
  by (simp add: lock_ok_def)

lemma pc_ok_free: "\<not> holds pc \<Longrightarrow> pc_ok q' r pc = pc_ok q r pc"
  by (cases pc) auto

lemma work_pcs:
  assumes ok: "lock_ok s" "pcs_ok s" and i: "i < length (workers s)" and step: "worker_loop i s = Some s'"
  shows "pcs_ok s'"
proof -
  have own: "pc_ok (tasks s) (running s) (workers s ! i)" using ok i by (simp add: pcs_ok_def)
  show ?thesis
  proof (cases "workers s ! i")
    case WPop
    with step obtain t ts where s': "s' = set_worker i (WRun t)
        (s\<lparr>tasks := ts, mtx := None, started := started s @ [t]\<rparr>)"
      by (auto simp: worker_loop_def split: list.splits)
    have "\<not> holds (workers s ! j)" if "j < length (workers s)" "j \<noteq> i" for j
      using only_holder [OF ok(1) i _ that] WPop by simp
    then show ?thesis
      using ok(2) i pc_ok_free [of _ ts "running s" "tasks s"] by (auto simp: pcs_ok_def s' nth_list_update)
  qed (use own ok i step in \<open>auto simp: worker_loop_def pcs_ok_def nth_list_update split: if_splits\<close>)
qed

lemma work_join:
  "join_ok s \<Longrightarrow> i < length (workers s) \<Longrightarrow> worker_loop i s = Some s' \<Longrightarrow> join_ok s'"
  by (cases "workers s ! i")
    (auto simp: worker_loop_def join_ok_def nth_list_update split: if_splits list.splits hpc.splits)

lemma work_wake:
  assumes "pcs_ok s" "wake_ok s" "i < length (workers s)" "worker_loop i s = Some s'"
  shows "wake_ok s'"
proof -
  have "pc_ok (tasks s) (running s) (workers s ! i)" using assms by (simp add: pcs_ok_def)
  then show ?thesis
    using assms(2-4) by (cases "workers s ! i")
      (auto simp: worker_loop_def wake_ok_def awake_def split: if_splits list.splits
        intro!: exI [of _ i])
qed

lemma work_frame:
  "worker_loop i s = Some s' \<Longrightarrow> length (workers s') = length (workers s) \<and> net s' = net s \<and>
     hnd s' = hnd s \<and> running s' = running s \<and> enqueued s' = enqueued s \<and> joined s' = joined s"
  by (cases "workers s ! i") (auto simp: worker_loop_def split: if_splits list.splits)

lemma work_counts:
  assumes "enqueued s = started s @ tasks s" "mset (started s) = mset (finished s) + in_flight s"
    "i < length (workers s)" "worker_loop i s = Some s'"
  shows "enqueued s' = started s' @ tasks s' \<and> mset (started s') = mset (finished s') + in_flight s'"
proof -
  have *: "in_flight s' = in_flight (s\<lparr>workers := workers s'\<rparr>)" by (simp add: in_flight_def)
  show ?thesis
    using assms in_flight_update [OF assms(3) refl]
    by (cases "workers s ! i") (force simp: * worker_loop_def split: if_splits list.splits)+
qed

lemma work_inv:
  assumes "pool_inv n s" "i < length (workers s)" "worker_loop i s = Some s'"
  shows "pool_inv n s'"
  using assms work_lock [of s i s'] work_pcs [of s i s'] work_join [of s i s'] work_wake [of s i s']
    work_frame [of i s s'] work_counts [of s i s'] by (simp add: pool_inv_def)

subsection \<open>The other actions keep the invariants\<close>

lemma in_flight_cong: "map task_of (workers s') = map task_of (workers s) \<Longrightarrow> in_flight s' = in_flight s"
proof -
  assume *: "map task_of (workers s') = map task_of (workers s)"
  have "in_flight u = sum_list (map mset (map task_of (workers u)))" for u :: "'a pool"
    by (simp add: in_flight_def comp_def flip: sum_mset_sum_list)
  then show ?thesis by (simp only: *)
qed

lemma lock_ok_eq: "workers s' = workers s \<Longrightarrow> mtx s' = mtx s \<Longrightarrow> net_holds (net s') = net_holds (net s) \<Longrightarrow>
  lock_ok s' = lock_ok s"
  by (simp add: lock_ok_def)

lemma pcs_ok_eq: "workers s' = workers s \<Longrightarrow> tasks s' = tasks s \<Longrightarrow> running s' = running s \<Longrightarrow>
  pcs_ok s' = pcs_ok s"
  by (simp add: pcs_ok_def)

lemma join_ok_eq: "workers s' = workers s \<Longrightarrow> joined s' = joined s \<Longrightarrow> running s' = running s \<Longrightarrow>
  hnd s' = hnd s \<Longrightarrow> join_ok s' = join_ok s"
  by (simp add: join_ok_def split: hpc.splits)

lemma in_flight_eq: "workers s' = workers s \<Longrightarrow> in_flight s' = in_flight s"
  by (simp add: in_flight_def)

lemma holds_wake [simp]: "holds (wake pc) = holds pc"
  by (cases pc) (auto simp: wake_def)

lemma pc_ok_wake [simp]: "pc_ok q r (wake pc) = pc_ok q r pc"
  by (cases pc) (auto simp: wake_def)

lemma task_of_wake [simp]: "task_of (wake pc) = task_of pc"
  by (cases pc) (auto simp: wake_def)

lemma wake_exit_iff [simp]: "wake pc = WExit \<longleftrightarrow> pc = WExit"
  by (simp add: wake_def)

lemma map_task_of_update:
  "workers s ! i = WSleep \<Longrightarrow> i < length (workers s) \<Longrightarrow>
     map task_of ((workers s)[i := WWake]) = map task_of (workers s)"
  by (intro nth_equalityI) (auto simp: nth_list_update)

lemma pc_ok_stop: "pc_ok q r pc \<Longrightarrow> pc_ok q False pc"
  by (cases pc) auto

lemma spurious_inv:
  assumes "pool_inv n s" "i < length (workers s)" "workers s ! i = WSleep"
  shows "pool_inv n (set_worker i WWake s)"
proof -
  have "lock_ok (set_worker i WWake s)"
    using assms by (auto simp: pool_inv_def intro!: lock_keep)
  moreover have "pcs_ok (set_worker i WWake s)" "join_ok (set_worker i WWake s)"
    using assms by (auto simp: pool_inv_def pcs_ok_def join_ok_def nth_list_update split: hpc.splits)
  moreover have "wake_ok (set_worker i WWake s)"
    using assms by (auto simp: pool_inv_def wake_ok_def awake_def intro!: exI [of _ i])
  moreover have "in_flight (set_worker i WWake s) = in_flight s"
    using assms by (intro in_flight_cong) (simp add: map_task_of_update)
  ultimately show ?thesis using assms by (simp add: pool_inv_def)
qed

lemma submit_inv:
  assumes "pool_inv n s" "net s = NIdle"
  shows "pool_inv n (s\<lparr>net := NLock t\<rparr>)"
  using assms lock_ok_eq [of "s\<lparr>net := NLock t\<rparr>" s] pcs_ok_eq [of "s\<lparr>net := NLock t\<rparr>" s]
    join_ok_eq [of "s\<lparr>net := NLock t\<rparr>" s] in_flight_eq [of "s\<lparr>net := NLock t\<rparr>" s]
  by (clarsimp simp: pool_inv_def wake_ok_def)

lemma enqueue_inv:
  assumes inv: "pool_inv n s" and step: "enqueue w s = Some s'"
  shows "pool_inv n s'"
proof (cases "net s")
  case (NLock t)
  then have s': "s' = s\<lparr>mtx := Some Network, net := NPush t\<rparr>" "mtx s = None"
    using step by (auto simp: enqueue_def split: if_splits)
  have "lock_ok s'" using inv NLock s'(2) by (simp add: pool_inv_def lock_ok_def s'(1))
  then show ?thesis
    using inv NLock pcs_ok_eq [of s' s] join_ok_eq [of s' s] in_flight_eq [of s' s]
    by (clarsimp simp: pool_inv_def wake_ok_def s'(1))
next
  case (NPush t)
  then have s': "s' = s\<lparr>tasks := tasks s @ [t], enqueued := enqueued s @ [t], net := NUnlock\<rparr>"
    using step by (auto simp: enqueue_def)
  have pcs: "pc_ok (tasks s @ [t]) (running s) (workers s ! i)" if "i < length (workers s)" for i
  proof -
    have "mtx s = Some Network" using inv NPush by (simp add: pool_inv_def lock_ok_def)
    then have "\<not> holds (workers s ! i)" using inv that by (simp add: pool_inv_def lock_ok_def)
    then show ?thesis
      using inv that pc_ok_free [of "workers s ! i" "tasks s @ [t]" "running s" "tasks s"]
      by (simp add: pool_inv_def pcs_ok_def)
  qed
  then have "pcs_ok s'" by (simp add: pcs_ok_def s')
  then show ?thesis
    using inv NPush lock_ok_eq [of s' s] join_ok_eq [of s' s] in_flight_eq [of s' s]
    by (clarsimp simp: pool_inv_def wake_ok_def s')
next
  case NUnlock
  then have s': "s' = s\<lparr>mtx := None, net := NNotify\<rparr>"
    using step by (auto simp: enqueue_def)
  have "lock_ok s'" using inv NUnlock by (simp add: pool_inv_def lock_ok_def s')
  then show ?thesis
    using inv NUnlock pcs_ok_eq [of s' s] join_ok_eq [of s' s] in_flight_eq [of s' s]
    by (clarsimp simp: pool_inv_def wake_ok_def s')
next
  case NNotify
  let ?t = "s\<lparr>net := NIdle\<rparr>"
  show ?thesis
  proof (cases "w < length (workers s) \<and> workers s ! w = WSleep")
    case True
    then have s': "s' = set_worker w WWake (s\<lparr>net := NIdle\<rparr>)"
      using step NNotify by (simp add: enqueue_def)
    have "lock_ok s'"
      using lock_keep [of s w WWake] inv True NNotify by (auto simp: pool_inv_def lock_ok_def s')
    moreover have "pcs_ok s'" "join_ok s'"
      using inv True by (auto simp: pool_inv_def pcs_ok_def join_ok_def nth_list_update s' split: hpc.splits)
    moreover have "wake_ok s'"
      using True by (auto simp: wake_ok_def awake_def s' intro!: exI [of _ w])
    moreover have "in_flight s' = in_flight s"
      using True by (intro in_flight_cong) (simp add: map_task_of_update s')
    ultimately show ?thesis using inv by (simp add: pool_inv_def s')
  next
    case False
    then have s': "s' = s\<lparr>net := NIdle\<rparr>" and nobody: "WSleep \<notin> set (workers s)"
      using step NNotify by (auto simp: enqueue_def split: if_splits)
    have "wake_ok s'"
    proof -
      have "awake (workers s ! i)" if "i < length (workers s)" "running s" for i
        using inv that nobody nth_mem [OF that(1)] unfolding pool_inv_def pcs_ok_def awake_def by (metis pc_ok.simps(4))
      then show ?thesis by (auto simp: wake_ok_def s' intro!: exI [of _ 0])
    qed
    then show ?thesis
      using inv NNotify lock_ok_eq [of s' s] pcs_ok_eq [of s' s] join_ok_eq [of s' s] in_flight_eq [of s' s]
      by (simp add: pool_inv_def s')
  qed
qed (use step in \<open>simp add: enqueue_def\<close>)

lemma stop_inv:
  assumes inv: "pool_inv n s" and step: "stop s = Some s'"
  shows "pool_inv n s'"
proof (cases "hnd s")
  case HSet
  then have s': "s' = s\<lparr>running := False, hnd := HNotify\<rparr>"
    using step by (simp add: stop_def)
  show ?thesis
    using inv HSet pc_ok_stop [of "tasks s" "running s"] lock_ok_eq [of s' s] in_flight_eq [of s' s]
    by (simp add: pool_inv_def pcs_ok_def join_ok_def wake_ok_def s')
next
  case HNotify
  then have s': "s' = s\<lparr>workers := map wake (workers s), hnd := HJoin 0\<rparr>"
    using step by (simp add: stop_def)
  show ?thesis
    using inv HNotify in_flight_cong [of s' s]
    by (clarsimp simp: pool_inv_def pool_defs s' comp_def)
next
  case (HJoin k)
  have "lock_ok s'" "pcs_ok s'" "wake_ok s'" "in_flight s' = in_flight s"
    using inv step HJoin
    by (auto simp: pool_inv_def lock_ok_def pcs_ok_def wake_ok_def in_flight_def stop_def split: if_splits)
  moreover have "join_ok s'"
    using inv step HJoin
    by (auto simp: pool_inv_def join_ok_def stop_def nth_list_update less_Suc_eq split: if_splits)
  ultimately show ?thesis
    using inv step HJoin by (auto simp: pool_inv_def stop_def split: if_splits)
qed (use step in \<open>simp add: stop_def\<close>)

lemma stop_call_inv: "pool_inv n s \<Longrightarrow> hnd s = HNone \<Longrightarrow> pool_inv n (s\<lparr>hnd := HSet\<rparr>)"
  by (clarsimp simp: pool_inv_def pool_defs in_flight_def)

lemma pool_step_inv: "pool_inv n s \<Longrightarrow> pool_step a s = Some s' \<Longrightarrow> pool_inv n s'"
  by (cases a)
    (auto split: if_splits intro: work_inv spurious_inv submit_inv enqueue_inv stop_inv stop_call_inv)

lemma preach_inv: "preach n s \<Longrightarrow> pool_inv n s"
  by (induction rule: preach.induct) (auto intro: pool_inv_new pool_step_inv)

subsection \<open>Safety\<close>

text \<open>A worker that is about to dequeue holds the mutex alone and finds a task there.\<close>

lemma pool_never_pops_empty:
  assumes "preach n s" "i < n" "workers s ! i = WPop"
  shows "tasks s \<noteq> [] \<and> mtx s = Some (Worker i) \<and> \<not> net_holds (net s) \<and>
    (\<forall>j<n. j \<noteq> i \<longrightarrow> \<not> holds (workers s ! j))"
proof -
  have inv: "lock_ok s" "pcs_ok s" "length (workers s) = n"
    using preach_inv [OF assms(1)] by (simp_all add: pool_inv_def)
  with assms(2,3) have "mtx s = Some (Worker i)" "tasks s \<noteq> []"
    using lock_ok_holder [of s i] by (auto simp: pcs_ok_def)
  with inv assms(2) show ?thesis by (simp add: lock_ok_def)
qed

text \<open>C15. Every task that was enqueued is queued, running or finished, once, and tasks start in order.\<close>

lemma pool_fifo_once:
  assumes "preach n s"
  shows "enqueued s = started s @ tasks s \<and> mset (started s) = mset (finished s) + in_flight s"
  using preach_inv [OF assms] by (simp add: pool_inv_def)

subsection \<open>No lost wake-up while the pool runs\<close>

definition pool_idle :: "nat \<Rightarrow> 'a pool \<Rightarrow> bool" where
  "pool_idle n s \<longleftrightarrow> preach n s \<and> 0 < n \<and> running s \<and> hnd s = HNone \<and> net s = NIdle"

lemma holder_moves: "holds (workers s ! i) \<Longrightarrow> pc_ok (tasks s) (running s) (workers s ! i) \<Longrightarrow>
  worker_loop i s \<noteq> None"
  by (cases "workers s ! i") (auto simp: worker_loop_def split: list.splits)

lemma free_moves: "mtx s = None \<Longrightarrow> awake (workers s ! i) \<Longrightarrow> \<not> holds (workers s ! i) \<Longrightarrow> worker_loop i s \<noteq> None"
  by (cases "workers s ! i") (auto simp: worker_loop_def awake_def)

lemma awake_moves:
  assumes inv: "pool_inv n s" and free: "\<not> net_holds (net s)" and i: "i < n" "awake (workers s ! i)"
  shows "\<exists>j<n. \<exists>s'. worker_loop j s = Some s'"
proof -
  have ok: "lock_ok s" "pcs_ok s" "length (workers s) = n" using inv by (simp_all add: pool_inv_def)
  show ?thesis
  proof (cases "mtx s")
    case None
    then show ?thesis
      using ok i free_moves [of s i] by (auto simp: lock_ok_def)
  next
    case (Some w)
    then obtain j where "w = Worker j" using free ok by (cases w) (auto simp: lock_ok_def)
    then have "j < n" "holds (workers s ! j)" using ok Some by (auto simp: lock_ok_def)
    then show ?thesis using holder_moves [of s j] ok by (auto simp: pcs_ok_def)
  qed
qed

text \<open>While the pool runs and the producer is not inside \<open>enqueue\<close>, a queued task always has a worker that can move.\<close>

lemma pool_no_lost_task:
  assumes "pool_idle n s" "tasks s \<noteq> []"
  shows "\<exists>i<n. \<exists>s'. pool_step (Work i) s = Some s'"
proof -
  have inv: "pool_inv n s" using assms by (simp add: pool_idle_def preach_inv)
  with assms obtain i where "i < n" "awake (workers s ! i)"
    by (auto simp: pool_idle_def pool_inv_def wake_ok_def)
  with assms(1) have "\<exists>j<n. \<exists>s'. worker_loop j s = Some s'"
    by (intro awake_moves [OF inv]) (auto simp: pool_idle_def)
  with inv show ?thesis by (auto simp: pool_inv_def)
qed

fun rank :: "'a wpc \<Rightarrow> nat" where
  "rank (WRun _) = 8" | "rank WTop = 7" | "rank WLock = 6" | "rank WWake = 6" | "rank WPred = 5"
| "rank WTest = 4" | "rank WPop = 3" | "rank WBlock = 1" | "rank WSleep = 0" | "rank WExit = 0"

definition pool_work :: "'a pool \<Rightarrow> nat" where
  "pool_work s = 10 * length (tasks s) + sum_list (map rank (workers s))"

lemma sum_rank_update:
  "i < length ws \<Longrightarrow> ws ! i = old \<Longrightarrow> sum_list (map rank (ws[i := new])) + rank old = sum_list (map rank ws) + rank new"
  by (induction ws arbitrary: i) (auto split: nat.splits)

lemma work_lowers:
  assumes "i < length (workers s)" "worker_loop i s = Some s'"
  shows "pool_work s' < pool_work s"
proof -
  define old where "old = workers s ! i"
  note up = sum_rank_update [OF assms(1) old_def [symmetric]]
  have "worker_loop i s = Some s' \<Longrightarrow> workers s ! i = old \<Longrightarrow> pool_work s' < pool_work s"
    using up [of WTop] up [of WLock] up [of WPred] up [of WBlock] up [of WSleep] up [of WTest]
      up [of WPop] up [of WExit] up [of "WRun (hd (tasks s))"]
    by (cases old) (auto simp: worker_loop_def pool_work_def split: if_splits list.splits)
  then show ?thesis using assms(2) old_def by simp
qed

text \<open>Nothing is left to do: the queue is empty, every worker sleeps, every task has finished.\<close>

definition pool_drained :: "'a pool \<Rightarrow> bool" where
  "pool_drained s \<longleftrightarrow> tasks s = [] \<and> list_all (\<lambda>pc. pc = WSleep) (workers s) \<and> mset (finished s) = mset (enqueued s)"

lemma asleep_in_flight: "list_all (\<lambda>pc. pc = WSleep) (workers s) \<Longrightarrow> in_flight s = {#}"
  unfolding in_flight_def by (intro sum_mset.neutral) (auto simp: list_all_iff)

lemma idle_progress:
  assumes "pool_idle n s" "\<not> pool_drained s"
  shows "\<exists>a s'. (\<exists>i<n. a = Work i) \<and> pool_step a s = Some s'"
proof -
  have inv: "pool_inv n s" using assms by (simp add: pool_idle_def preach_inv)
  have "\<exists>i<n. awake (workers s ! i)"
  proof (rule ccontr)
    assume no: "\<not> ?thesis"
    then have "tasks s = []" using inv assms(1) by (auto simp: pool_idle_def pool_inv_def wake_ok_def)
    moreover have "list_all (\<lambda>pc. pc = WSleep) (workers s)"
      using no inv assms(1) by (fastforce simp: pool_idle_def pool_inv_def pcs_ok_def awake_def list_all_length)
    ultimately have "pool_drained s"
      using inv by (simp add: pool_drained_def pool_inv_def asleep_in_flight)
    with assms(2) show False by simp
  qed
  then obtain i where "i < n" "awake (workers s ! i)" by blast
  with assms(1) have "\<exists>j<n. \<exists>s'. worker_loop j s = Some s'"
    by (intro awake_moves [OF inv]) (auto simp: pool_idle_def)
  then obtain j s' where "j < n" "worker_loop j s = Some s'" by blast
  with inv show ?thesis by (intro exI [of _ "Work j"] exI [of _ s']) (simp add: pool_inv_def)
qed

lemma idle_step: "pool_idle n s \<Longrightarrow> pool_step (Work i) s = Some s' \<Longrightarrow> pool_idle n s'"
  by (auto simp: pool_idle_def split: if_splits dest: work_frame intro: preach.step [of n s "Work i"])

interpretation pooldrain: draining pool_step "\<lambda>a. \<exists>i<n. a = Work i" "pool_idle n" pool_drained pool_work for n
proof (unfold_locales, goal_cases)
  case (1 s a s')
  then show ?case by (auto simp del: pool_step.simps intro: idle_step)
next
  case (2 s a s')
  then show ?case by (auto intro: work_lowers split: if_splits)
next
  case (3 s)
  then show ?case by (rule idle_progress)
qed

text \<open>C8. Left alone, the workers finish every queued task in a bounded number of steps, whatever the schedule.\<close>

lemma pool_finishes_all_tasks:
  assumes "pool_idle n s"
  shows "(\<exists>as s'. pool_run as s = Some s' \<and> list_all (\<lambda>a. \<exists>i<n. a = Work i) as \<and> pool_drained s') \<and>
    (\<forall>as s'. pool_run as s = Some s' \<and> list_all (\<lambda>a. \<exists>i<n. a = Work i) as \<longrightarrow>
       length as \<le> pool_work s \<and> (pool_drained s' \<or> (\<exists>i<n. pool_step (Work i) s' \<noteq> None)))"
proof (intro conjI allI impI)
  show "\<exists>as s'. pool_run as s = Some s' \<and> list_all (\<lambda>a. \<exists>i<n. a = Work i) as \<and> pool_drained s'"
    using pooldrain.finishes [OF assms] by blast
next
  fix as s'
  assume run: "pool_run as s = Some s' \<and> list_all (\<lambda>a. \<exists>i<n. a = Work i) as"
  then have b: "pool_idle n s' \<and> length as + pool_work s' \<le> pool_work s"
    by (intro pooldrain.run_bounded) (simp_all add: assms)
  then show "length as \<le> pool_work s" by simp
  from b show "pool_drained s' \<or> (\<exists>i<n. pool_step (Work i) s' \<noteq> None)"
    using pooldrain.progress [of n s'] by (metis option.distinct(1))
qed

subsection \<open>Order with one worker\<close>

definition seq_ok :: "'a pool \<Rightarrow> bool" where
  "seq_ok s \<longleftrightarrow> length (workers s) = 1 \<and> started s = finished s @ task_of (workers s ! 0)"

lemma seq_ok_work: "seq_ok s \<Longrightarrow> worker_loop 0 s = Some s' \<Longrightarrow> seq_ok s'"
  by (cases "workers s ! 0")
    (auto simp: seq_ok_def worker_loop_def length_Suc_conv split: if_splits list.splits)

lemma seq_ok_step: "seq_ok s \<Longrightarrow> pool_step a s = Some s' \<Longrightarrow> seq_ok s'"
proof (cases a)
  case (Work i)
  assume "seq_ok s" "pool_step a s = Some s'"
  with Work have "i = 0" "worker_loop 0 s = Some s'" by (auto simp: seq_ok_def split: if_splits)
  with \<open>seq_ok s\<close> show ?thesis by (simp add: seq_ok_work)
next
  case (Enqueue w)
  assume "seq_ok s" "pool_step a s = Some s'"
  with Enqueue show ?thesis
    by (cases "net s") (auto simp: seq_ok_def enqueue_def length_Suc_conv split: if_splits)
next
  case Stopping
  assume "seq_ok s" "pool_step a s = Some s'"
  with Stopping show ?thesis
    by (cases "hnd s") (auto simp: seq_ok_def stop_def length_Suc_conv split: if_splits)
qed (auto simp: seq_ok_def length_Suc_conv split: if_splits)

text \<open>With one worker, tasks finish in the order in which they were enqueued, and at most one is running.\<close>

lemma pool_single_worker_order:
  assumes "preach 1 s"
  shows "\<exists>current. enqueued s = finished s @ current @ tasks s \<and> length current \<le> 1"
proof -
  have "seq_ok s"
    using assms by (induction rule: preach.induct) (auto simp: seq_ok_step, simp add: seq_ok_def pool_new_def)
  then show ?thesis
    using preach_inv [OF assms]
    by (intro exI [of _ "task_of (workers s ! 0)"], cases "workers s ! 0") (auto simp: seq_ok_def pool_inv_def)
qed

subsection \<open>An abstract pool\<close>

text \<open>
  What the servers rely on: a queue, and for each worker the task it is running. The mutex, the
  condition variable and the program counters are gone.
\<close>

record 'a apool =
  queue :: "'a list"
  busy :: "'a option list"

datatype 'a apool_act = Put 'a | Take nat | Done nat | Nothing

fun apool_step :: "'a apool_act \<Rightarrow> 'a apool \<Rightarrow> 'a apool option" where
  "apool_step (Put t) p = Some (p\<lparr>queue := queue p @ [t]\<rparr>)"
| "apool_step (Take i) p =
     (case queue p of
        [] \<Rightarrow> None
      | t # ts \<Rightarrow> if i < length (busy p) \<and> busy p ! i = None
                  then Some (p\<lparr>queue := ts, busy := (busy p)[i := Some t]\<rparr>) else None)"
| "apool_step (Done i) p =
     (if i < length (busy p) \<and> busy p ! i \<noteq> None then Some (p\<lparr>busy := (busy p)[i := None]\<rparr>) else None)"
| "apool_step Nothing p = Some p"

fun running_task :: "'a wpc \<Rightarrow> 'a option" where
  "running_task (WRun t) = Some t"
| "running_task _ = None"

definition abs_pool :: "'a pool \<Rightarrow> 'a apool" where
  "abs_pool s = \<lparr>queue = tasks s, busy = map running_task (workers s)\<rparr>"

definition abs_act :: "'a action \<Rightarrow> 'a pool \<Rightarrow> 'a apool_act" where
  "abs_act a s =
     (case a of
        Work i \<Rightarrow> (case workers s ! i of WPop \<Rightarrow> Take i | WRun t \<Rightarrow> Done i | _ \<Rightarrow> Nothing)
      | Enqueue w \<Rightarrow> (case net s of NPush t \<Rightarrow> Put t | _ \<Rightarrow> Nothing)
      | _ \<Rightarrow> Nothing)"

lemma running_task_wake [simp]: "running_task (wake pc) = running_task pc"
  by (cases pc) (auto simp: wake_def)

lemma map_update_same: "i < length xs \<Longrightarrow> f (xs ! i) = y \<Longrightarrow> (map f xs)[i := y] = map f xs"
  by (auto intro!: nth_equalityI simp: nth_list_update)

lemma pool_sim:
  assumes "pool_step a s = Some s'"
  shows "apool_step (abs_act a s) (abs_pool s) = Some (abs_pool s')"
proof (cases a)
  case (Work i)
  with assms have i: "i < length (workers s)" "worker_loop i s = Some s'" by (auto split: if_splits)
  with Work show ?thesis
    by (cases "workers s ! i")
      (auto simp: worker_loop_def abs_act_def abs_pool_def map_update_same map_update split: if_splits list.splits)
next
  case (Enqueue w)
  with assms show ?thesis
    by (cases "net s") (auto simp: enqueue_def abs_act_def abs_pool_def map_update_same map_update split: if_splits)
next
  case Stopping
  with assms show ?thesis
    by (cases "hnd s") (auto simp: stop_def abs_act_def abs_pool_def split: if_splits)
qed (use assms in \<open>auto simp: abs_act_def abs_pool_def map_update_same map_update split: if_splits\<close>)

interpretation poolsim: step_simulation pool_step apool_step "\<lambda>_. True" "\<lambda>a s. Some (abs_act a s)" abs_pool
  by unfold_locales (auto simp del: pool_step.simps apool_step.simps intro: pool_sim)

text \<open>Every step of the mutex-and-condition-variable pool is a step of the abstract pool, or none.\<close>

lemma pool_refines_abstract:
  assumes "pool_step a s = Some s'"
  shows "apool_step (abs_act a s) (abs_pool s) = Some (abs_pool s')"
  using poolsim.sim [OF TrueI assms] by simp

subsection \<open>stop\<close>

text \<open>When \<open>stop\<close> returns, every worker has returned: no task is running and none will run.\<close>

lemma pool_stop_joins_all:
  assumes "preach n s" "hnd s = HJoin k" "pool_step Stopping s = Some s'" "hnd s' = HNone"
  shows "list_all (\<lambda>pc. pc = WExit) (workers s') \<and> mset (started s') = mset (finished s') \<and>
    (\<forall>i. pool_step (Work i) s' = None)"
proof -
  have "join_ok s" using preach_inv [OF assms(1)] by (simp add: pool_inv_def)
  with assms have all: "list_all (\<lambda>pc. pc = WExit) (workers s')"
    by (auto simp: stop_def join_ok_def list_all_length split: if_splits)
  have "preach n s'" using assms by (blast intro: preach.step)
  then have "mset (started s') = mset (finished s') + in_flight s'" using preach_inv by (auto simp: pool_inv_def)
  moreover have "in_flight s' = {#}"
    unfolding in_flight_def using all by (intro sum_mset.neutral) (auto simp: list_all_iff)
  moreover have "pool_step (Work i) s' = None" for i
    using all by (auto simp: list_all_length worker_loop_def)
  ultimately show ?thesis using all by simp
qed

text \<open>
  The states in which a call of \<open>stop\<close> that has notified is still waiting for workers, or is over,
  and no worker went to sleep behind its back.
\<close>

definition stopping :: "nat \<Rightarrow> 'a pool \<Rightarrow> bool" where
  "stopping n s \<longleftrightarrow> preach n s \<and> \<not> net_holds (net s) \<and> \<not> running s \<and>
     list_all (\<lambda>pc. pc \<noteq> WBlock \<and> pc \<noteq> WSleep) (workers s) \<and>
     (case hnd s of HNone \<Rightarrow> list_all (\<lambda>pc. pc = WExit) (workers s) | HJoin k \<Rightarrow> k \<le> n | _ \<Rightarrow> False)"

definition stop_work :: "nat \<Rightarrow> 'a pool \<Rightarrow> nat" where
  "stop_work n s = pool_work s + (case hnd s of HJoin k \<Rightarrow> Suc n - k | _ \<Rightarrow> 0)"

lemma stopping_reach: "stopping n s \<Longrightarrow> pool_step a s = Some s' \<Longrightarrow> preach n s'"
  unfolding stopping_def by (blast intro: preach.step)

lemma stopping_work:
  assumes "stopping n s" "pool_step (Work i) s = Some s'"
  shows "stopping n s' \<and> stop_work n s' < stop_work n s"
proof -
  have i: "i < length (workers s)" "worker_loop i s = Some s'" using assms(2) by (auto split: if_splits)
  have "list_all (\<lambda>pc. pc \<noteq> WBlock \<and> pc \<noteq> WSleep) (workers s')"
    using assms(1) i by (cases "workers s ! i")
      (auto simp: stopping_def worker_loop_def list_all_length nth_list_update split: if_splits list.splits)
  moreover have "preach n s'" using assms by (rule stopping_reach)
  moreover have "list_all (\<lambda>pc. pc = WExit) (workers s) \<Longrightarrow> False"
    using i by (auto simp: list_all_length worker_loop_def)
  ultimately show ?thesis
    using assms(1) work_frame [OF i(2)] work_lowers [OF i]
    by (auto simp: stopping_def stop_work_def split: hpc.splits)
qed

lemma stopping_stop:
  assumes "stopping n s" "pool_step Stopping s = Some s'"
  shows "stopping n s' \<and> stop_work n s' < stop_work n s"
proof -
  obtain k where k: "hnd s = HJoin k" "k \<le> n"
    using assms by (auto simp: stopping_def stop_def split: hpc.splits)
  have pre: "preach n s'" "preach n s" using assms(1) stopping_reach [OF assms] by (simp_all add: stopping_def)
  then have n: "length (workers s) = n" "join_ok s" using preach_inv by (auto simp: pool_inv_def)
  show ?thesis
  proof (cases "k < n")
    case True
    with k n pre(1) assms show ?thesis
      by (auto simp: stopping_def stop_def stop_work_def pool_work_def split: if_splits)
  next
    case False
    then have "list_all (\<lambda>pc. pc = WExit) (workers s)" using k n by (auto simp: join_ok_def list_all_length)
    with False k n pre(1) assms show ?thesis
      by (auto simp: stopping_def stop_def stop_work_def pool_work_def)
  qed
qed

lemma stopping_progress:
  assumes "stopping n s" "hnd s \<noteq> HNone"
  shows "\<exists>a s'. ((\<exists>i<n. a = Work i) \<or> a = Stopping) \<and> pool_step a s = Some s'"
proof -
  obtain k where k: "hnd s = HJoin k" "k \<le> n"
    using assms by (auto simp: stopping_def split: hpc.splits)
  have inv: "pool_inv n s" using assms preach_inv by (auto simp: stopping_def)
  then have n: "length (workers s) = n" by (simp add: pool_inv_def)
  show ?thesis
  proof (cases "k < n \<and> \<not> joined s ! k \<and> workers s ! k \<noteq> WExit")
    case True
    then have "awake (workers s ! k)" using assms n by (simp add: stopping_def awake_def list_all_length)
    then have "\<exists>j<n. \<exists>s'. worker_loop j s = Some s'"
      using True assms by (intro awake_moves [OF inv]) (auto simp: stopping_def)
    then obtain j s' where "j < n" "worker_loop j s = Some s'" by blast
    with n show ?thesis by (intro exI [of _ "Work j"] exI [of _ s']) simp
  next
    case False
    then have "stop s \<noteq> None" using k n by (auto simp: stop_def)
    then show ?thesis by (intro exI [of _ Stopping]) auto
  qed
qed

interpretation poolstop: draining pool_step "\<lambda>a. (\<exists>i<n. a = Work i) \<or> a = Stopping" "stopping n"
  "\<lambda>s. hnd s = HNone" "stop_work n" for n
proof (unfold_locales, goal_cases)
  case (1 s a s')
  then show ?case by (auto simp del: pool_step.simps dest: stopping_work stopping_stop)
next
  case (2 s a s')
  then show ?case by (auto simp del: pool_step.simps dest: stopping_work stopping_stop)
next
  case (3 s)
  then show ?case by (rule stopping_progress)
qed

lemma notified_stopping:
  assumes "preach n s" "hnd s = HNotify" "WBlock \<notin> set (workers s)" "\<not> net_holds (net s)"
    "pool_step Stopping s = Some t"
  shows "stopping n t"
proof -
  have "pool_inv n s" "preach n t" using assms preach_inv preach.step by blast+
  with assms show ?thesis
    by (auto simp: stopping_def stop_def pool_inv_def join_ok_def list_all_iff wake_def)
qed

text \<open>
  If no worker is between finding the queue empty and falling asleep when \<open>stop\<close> notifies, and the
  interrupted \<open>enqueue\<close> does not hold the mutex, then \<open>stop\<close> returns, whatever the schedule.
\<close>

lemma pool_stop_returns:
  assumes "preach n s" "hnd s = HNotify" "WBlock \<notin> set (workers s)" "\<not> net_holds (net s)"
    "pool_step Stopping s = Some t"
  shows "(\<exists>as s'. pool_run as t = Some s' \<and> list_all (\<lambda>a. (\<exists>i<n. a = Work i) \<or> a = Stopping) as \<and> hnd s' = HNone) \<and>
    (\<forall>as s'. pool_run as t = Some s' \<and> list_all (\<lambda>a. (\<exists>i<n. a = Work i) \<or> a = Stopping) as \<longrightarrow>
       length as \<le> stop_work n t \<and>
       (hnd s' = HNone \<or> pool_step Stopping s' \<noteq> None \<or> (\<exists>i<n. pool_step (Work i) s' \<noteq> None)))"
proof (intro conjI allI impI)
  note ok = notified_stopping [OF assms]
  show "\<exists>as s'. pool_run as t = Some s' \<and> list_all (\<lambda>a. (\<exists>i<n. a = Work i) \<or> a = Stopping) as \<and> hnd s' = HNone"
    using poolstop.finishes [OF ok] by blast
  fix as s'
  assume run: "pool_run as t = Some s' \<and> list_all (\<lambda>a. (\<exists>i<n. a = Work i) \<or> a = Stopping) as"
  then have b: "stopping n s' \<and> length as + stop_work n s' \<le> stop_work n t"
    by (intro poolstop.run_bounded) (simp_all add: ok)
  then show "length as \<le> stop_work n t" by simp
  from b show "hnd s' = HNone \<or> pool_step Stopping s' \<noteq> None \<or> (\<exists>i<n. pool_step (Work i) s' \<noteq> None)"
    using poolstop.progress [of n s'] by (metis option.distinct(1))
qed

subsection \<open>Shutdown problems\<close>

text \<open>
  \<open>stop\<close> writes \<open>running_\<close> and notifies without the mutex, so its notification can fall between a
  worker's test of the predicate and its sleep: the worker never wakes, and \<open>stop\<close> waits for it
  for ever, unless a spurious wake-up happens.
\<close>

lemma stop_can_lose_wakeup:
  "\<exists>s :: nat pool. preach 1 s \<and> hnd s = HJoin 0 \<and> workers s = [WSleep] \<and>
     {a. pool_step a s \<noteq> None} = {Spurious 0}"
proof -
  let ?run = "[Work 0, Work 0, Work 0, Stop, Stopping, Stopping, Work 0] :: nat action list"
  obtain s where s: "pool_run ?run (pool_new 1) = Some s"
    by (simp add: pool_new_def worker_loop_def stop_def wake_def)
  then have s': "s = (pool_new 1)\<lparr>workers := [WSleep], running := False, hnd := HJoin 0\<rparr>"
    by (simp add: pool_new_def worker_loop_def stop_def wake_def)
  have "pool_step a s \<noteq> None \<longleftrightarrow> a = Spurious 0" for a
    by (cases a) (auto simp: s' pool_new_def worker_loop_def stop_def intro!: gr0I)
  then show ?thesis using pool_run_new [OF s] by (intro exI [of _ s]) (auto simp: s' pool_new_def)
qed

text \<open>
  A signal that arrives while the network thread is inside \<open>enqueue\<close> with the mutex locked runs
  \<open>stop\<close> on that thread, which joins workers that need the mutex: nothing can ever move again.
\<close>

lemma stop_in_handler_can_deadlock:
  "\<exists>s :: nat pool. preach 1 s \<and> hnd s = HJoin 0 \<and> mtx s = Some Network \<and> {a. pool_step a s \<noteq> None} = {}"
proof -
  let ?run = "[Work 0, Submit 7, Enqueue 0, Stop, Stopping, Stopping] :: nat action list"
  obtain s where s: "pool_run ?run (pool_new 1) = Some s"
    by (simp add: pool_new_def worker_loop_def enqueue_def stop_def wake_def)
  then have s': "s = (pool_new 1)\<lparr>workers := [WLock], mtx := Some Network, net := NPush 7, running := False, hnd := HJoin 0\<rparr>"
    by (simp add: pool_new_def worker_loop_def enqueue_def stop_def wake_def)
  have "pool_step a s = None" for a
    by (cases a) (auto simp: s' pool_new_def worker_loop_def stop_def intro!: gr0I)
  then show ?thesis using pool_run_new [OF s] by (intro exI [of _ s]) (auto simp: s' pool_new_def)
qed

text \<open>
  Shutdown is not a drain: a worker at the top of its loop leaves with the queue not empty, and
  \<open>stop\<close> returns with a task that never runs.
\<close>

lemma stop_can_drop_tasks:
  "\<exists>s :: nat pool. preach 1 s \<and> hnd s = HNone \<and> workers s = [WExit] \<and> tasks s = [7] \<and> finished s = []"
proof -
  let ?run = "[Submit 7, Enqueue 0, Enqueue 0, Enqueue 0, Enqueue 0, Stop, Stopping, Stopping, Work 0,
    Stopping, Stopping] :: nat action list"
  obtain s where s: "pool_run ?run (pool_new 1) = Some s"
    by (simp add: pool_new_def worker_loop_def enqueue_def stop_def wake_def)
  then show ?thesis
    using pool_run_new [OF s]
    by (intro exI [of _ s]) (auto simp: pool_new_def worker_loop_def enqueue_def stop_def wake_def)
qed

subsection \<open>Witnesses\<close>

lemmas pool_eval = pool_new_def worker_loop_def enqueue_def stop_def wake_def

text \<open>Two tasks enqueued, the worker about to dequeue the first.\<close>

definition pool_demo :: "nat pool" where
  "pool_demo = (pool_new 1)\<lparr>workers := [WPop], mtx := Some (Worker 0), tasks := [7, 8], enqueued := [7, 8]\<rparr>"

lemma pool_demo_reach: "preach 1 pool_demo"
  by (rule pool_run_new [of "[Submit 7, Enqueue 0, Enqueue 0, Enqueue 0, Enqueue 0, Submit 8, Enqueue 0, Enqueue 0,
    Enqueue 0, Enqueue 0, Work 0, Work 0, Work 0, Work 0]"]) (simp add: pool_eval pool_demo_def)

lemma pool_demo_idle: "pool_idle 1 pool_demo"
  using pool_demo_reach by (simp add: pool_idle_def pool_demo_def pool_new_def)

lemma pool_never_pops_empty_witness: "mtx pool_demo = Some (Worker 0) \<and> tasks pool_demo \<noteq> []"
  using pool_never_pops_empty [OF pool_demo_reach, of 0] by (simp add: pool_demo_def)

lemma pool_fifo_once_witness: "enqueued pool_demo = started pool_demo @ [7, 8]"
  using pool_fifo_once [OF pool_demo_reach] by (simp add: pool_demo_def pool_new_def)

lemma pool_no_lost_task_witness: "\<exists>s'. pool_step (Work 0) pool_demo = Some s'"
  using pool_no_lost_task [OF pool_demo_idle] by (auto simp: pool_demo_def)

lemma pool_finishes_all_tasks_witness: "\<exists>as s'. pool_run as pool_demo = Some s' \<and> pool_drained s'"
  using pool_finishes_all_tasks [OF pool_demo_idle] by blast

lemma pool_single_worker_order_witness: "\<exists>current. [7, 8] = current @ [7, 8 :: nat] \<and> length current \<le> 1"
  using pool_single_worker_order [OF pool_demo_reach] by (simp add: pool_demo_def pool_new_def)

lemma pool_refines_abstract_witness:
  "apool_step (Take 0) (abs_pool pool_demo) = Some \<lparr>queue = [8], busy = [Some 7]\<rparr>"
  using pool_refines_abstract [of "Work 0" pool_demo]
  by (simp add: pool_demo_def worker_loop_def abs_act_def abs_pool_def pool_new_def)

text \<open>A pool whose only worker has left and whose \<open>stop\<close> is about to return.\<close>

definition pool_stopped :: "nat pool" where
  "pool_stopped = (pool_new 1)\<lparr>workers := [WExit], running := False, joined := [True], hnd := HJoin 1\<rparr>"

lemma pool_stopped_reach: "preach 1 pool_stopped"
  by (rule pool_run_new [of "[Stop, Stopping, Stopping, Work 0, Stopping]"]) (simp add: pool_eval pool_stopped_def)

lemma pool_stop_joins_all_witness: "pool_step (Work 0) (pool_stopped\<lparr>hnd := HNone\<rparr>) = None"
  using pool_stop_joins_all [OF pool_stopped_reach, of 1 "pool_stopped\<lparr>hnd := HNone\<rparr>"]
  by (simp add: pool_stopped_def pool_new_def stop_def) (metis (no_types, lifting))

definition pool_notify :: "nat pool" where
  "pool_notify = (pool_new 1)\<lparr>workers := [WSleep], running := False, hnd := HNotify\<rparr>"

lemma pool_notify_reach: "preach 1 pool_notify"
  by (rule pool_run_new [of "[Work 0, Work 0, Work 0, Work 0, Stop, Stopping]"]) (simp add: pool_eval pool_notify_def)

lemma pool_stop_returns_witness:
  "\<exists>as s'. pool_run as (pool_notify\<lparr>workers := [WWake], hnd := HJoin 0\<rparr>) = Some s' \<and> hnd s' = HNone"
  using pool_stop_returns [OF pool_notify_reach, of "pool_notify\<lparr>workers := [WWake], hnd := HJoin 0\<rparr>"]
  by (auto simp: pool_notify_def pool_new_def stop_def wake_def)

end
