(* ===== verification/Kernel.thy ===== *)
theory Kernel imports
  Prelude
begin

text \<open>
  The system calls of the servers. The operating system is not part of the sources, so it is a
  parameter of the model: a record of operations on a state of any type \<open>'k\<close>. A call returns its
  error or its result (the C convention -1 and \<open>errno\<close> as a sum). What the servers rely on is stated
  over four observables of that state: the bytes read from and written to each descriptor since
  \<open>accept\<close> returned it, the open descriptors and the watched ones.
\<close>

subsection \<open>Calls\<close>

datatype errno = EAGAIN | EWOULDBLOCK | EINTR | EOTHER nat

type_synonym 'a sysret = "errno + 'a"

datatype sockopt = SO_REUSEADDR | SO_REUSEPORT

text \<open>
  An event of \<open>epoll_wait\<close> is the descriptor and the event bits; an event of \<open>kevent\<close> is the
  descriptor, the flags and the filter. Both are the descriptor and two words here.
\<close>

record event =
  ev_fd :: fd
  ev_bits :: "32 word"
  ev_filter :: int

record 'k kernel =
  sys_socket :: "bool \<Rightarrow> 'k \<Rightarrow> fd sysret \<times> 'k"
  sys_fcntl_getfl :: "fd \<Rightarrow> 'k \<Rightarrow> 32 word \<times> 'k"
  sys_fcntl_setfl :: "fd \<Rightarrow> 32 word \<Rightarrow> 'k \<Rightarrow> 'k"
  sys_setsockopt :: "fd \<Rightarrow> sockopt \<Rightarrow> 'k \<Rightarrow> 'k"
  sys_bind :: "fd \<Rightarrow> u16 \<Rightarrow> 'k \<Rightarrow> unit sysret \<times> 'k"
  sys_listen :: "fd \<Rightarrow> 'k \<Rightarrow> unit sysret \<times> 'k"
  sys_poll_create :: "'k \<Rightarrow> fd sysret \<times> 'k"
  sys_poll_add :: "fd \<Rightarrow> fd \<Rightarrow> 'k \<Rightarrow> unit sysret \<times> 'k"
  sys_poll_del :: "fd \<Rightarrow> fd \<Rightarrow> 'k \<Rightarrow> 'k"
  sys_poll_wait :: "fd \<Rightarrow> nat \<Rightarrow> 'k \<Rightarrow> event list sysret \<times> 'k"
  sys_accept :: "bool \<Rightarrow> fd \<Rightarrow> 'k \<Rightarrow> fd sysret \<times> 'k"
  sys_read :: "fd \<Rightarrow> nat \<Rightarrow> 'k \<Rightarrow> byte list sysret \<times> 'k"
  sys_write :: "fd \<Rightarrow> byte list \<Rightarrow> 'k \<Rightarrow> nat sysret \<times> 'k"
  sys_close :: "fd \<Rightarrow> 'k \<Rightarrow> 'k"
  running_seen :: "'k \<Rightarrow> bool"

text \<open>
  The boolean of \<open>sys_socket\<close> and \<open>sys_accept\<close> is \<open>SOCK_NONBLOCK\<close>. \<open>running_seen\<close> is the value the
  loop test reads from \<open>running_\<close>, which the signal handler writes at a moment that the code does not choose.
\<close>

definition would_block :: "errno \<Rightarrow> bool" where
  "would_block e \<longleftrightarrow> e = EAGAIN \<or> e = EWOULDBLOCK"

subsection \<open>What the servers rely on\<close>

record netobs =
  rcvd :: "fd \<Rightarrow> byte list"
  sent :: "fd \<Rightarrow> byte list"
  opened :: "fd set"
  watched :: "fd set"

abbreviation append_at :: "fd \<Rightarrow> byte list \<Rightarrow> (fd \<Rightarrow> byte list) \<Rightarrow> fd \<Rightarrow> byte list" where
  "append_at fd bs f \<equiv> f(fd := f fd @ bs)"

definition read_law :: "'k kernel \<Rightarrow> ('k \<Rightarrow> netobs) \<Rightarrow> bool" where
  "read_law K obs \<longleftrightarrow> (\<forall>fd n k.
     case sys_read K fd n k of
       (Inl e, k') \<Rightarrow> obs k' = obs k
     | (Inr d, k') \<Rightarrow> length d \<le> n \<and> obs k' = (obs k)\<lparr>rcvd := append_at fd d (rcvd (obs k))\<rparr>)"

definition write_law :: "'k kernel \<Rightarrow> ('k \<Rightarrow> netobs) \<Rightarrow> bool" where
  "write_law K obs \<longleftrightarrow> (\<forall>fd bs k.
     case sys_write K fd bs k of
       (Inl e, k') \<Rightarrow> obs k' = obs k
     | (Inr n, k') \<Rightarrow> n \<le> length bs \<and> obs k' = (obs k)\<lparr>sent := append_at fd (take n bs) (sent (obs k))\<rparr>)"

definition close_law :: "'k kernel \<Rightarrow> ('k \<Rightarrow> netobs) \<Rightarrow> bool" where
  "close_law K obs \<longleftrightarrow> (\<forall>fd k.
     obs (sys_close K fd k) = (obs k)\<lparr>opened := opened (obs k) - {fd}, watched := watched (obs k) - {fd}\<rparr>)"

text \<open>A new descriptor is not open before; its logs start empty.\<close>

definition accept_law :: "'k kernel \<Rightarrow> ('k \<Rightarrow> netobs) \<Rightarrow> bool" where
  "accept_law K obs \<longleftrightarrow> (\<forall>nb l k.
     case sys_accept K nb l k of
       (Inl e, k') \<Rightarrow> obs k' = obs k
     | (Inr fd, k') \<Rightarrow> fd \<notin> opened (obs k) \<and> fd \<notin> watched (obs k) \<and>
         obs k' = (obs k)\<lparr>rcvd := (rcvd (obs k))(fd := []), sent := (sent (obs k))(fd := []),
                          opened := insert fd (opened (obs k))\<rparr>)"

definition poll_law :: "'k kernel \<Rightarrow> ('k \<Rightarrow> netobs) \<Rightarrow> bool" where
  "poll_law K obs \<longleftrightarrow> (\<forall>p fd k.
     (case sys_poll_add K p fd k of
        (Inl e, k') \<Rightarrow> obs k' = obs k
      | (Inr _, k') \<Rightarrow> obs k' = (obs k)\<lparr>watched := insert fd (watched (obs k))\<rparr>) \<and>
     obs (sys_poll_del K p fd k) = (obs k)\<lparr>watched := watched (obs k) - {fd}\<rparr>)"

definition wait_law :: "'k kernel \<Rightarrow> ('k \<Rightarrow> netobs) \<Rightarrow> bool" where
  "wait_law K obs \<longleftrightarrow> (\<forall>p n k. obs (snd (sys_poll_wait K p n k)) = obs k)"

definition create_law :: "'k kernel \<Rightarrow> ('k \<Rightarrow> netobs) \<Rightarrow> bool" where
  "create_law K obs \<longleftrightarrow> (\<forall>nb k.
     (case sys_socket K nb k of
        (Inl e, k') \<Rightarrow> obs k' = obs k
      | (Inr fd, k') \<Rightarrow> fd \<notin> opened (obs k) \<and> obs k' = (obs k)\<lparr>opened := insert fd (opened (obs k))\<rparr>) \<and>
     (case sys_poll_create K k of
        (Inl e, k') \<Rightarrow> obs k' = obs k
      | (Inr fd, k') \<Rightarrow> fd \<notin> opened (obs k) \<and> obs k' = (obs k)\<lparr>opened := insert fd (opened (obs k))\<rparr>))"

definition option_law :: "'k kernel \<Rightarrow> ('k \<Rightarrow> netobs) \<Rightarrow> bool" where
  "option_law K obs \<longleftrightarrow> (\<forall>fd opt port fl k.
     obs (sys_setsockopt K fd opt k) = obs k \<and> obs (snd (sys_bind K fd port k)) = obs k \<and>
     obs (snd (sys_listen K fd k)) = obs k \<and> obs (snd (sys_fcntl_getfl K fd k)) = obs k \<and>
     obs (sys_fcntl_setfl K fd fl k) = obs k)"

definition kernel_contract :: "'k kernel \<Rightarrow> ('k \<Rightarrow> netobs) \<Rightarrow> bool" where
  "kernel_contract K obs \<longleftrightarrow> read_law K obs \<and> write_law K obs \<and> close_law K obs \<and> accept_law K obs \<and>
     poll_law K obs \<and> wait_law K obs \<and> create_law K obs \<and> option_law K obs"

subsection \<open>The laws, call by call\<close>

lemma contract_read_ok:
  "kernel_contract K obs \<Longrightarrow> sys_read K fd n k = (Inr d, k') \<Longrightarrow>
     length d \<le> n \<and> obs k' = (obs k)\<lparr>rcvd := append_at fd d (rcvd (obs k))\<rparr>"
  unfolding kernel_contract_def read_law_def by (elim conjE allE [of _ fd] allE [of _ n] allE [of _ k]) simp

lemma contract_read_err:
  "kernel_contract K obs \<Longrightarrow> sys_read K fd n k = (Inl e, k') \<Longrightarrow> obs k' = obs k"
  unfolding kernel_contract_def read_law_def by (elim conjE allE [of _ fd] allE [of _ n] allE [of _ k]) simp

lemma contract_write_ok:
  "kernel_contract K obs \<Longrightarrow> sys_write K fd bs k = (Inr n, k') \<Longrightarrow>
     n \<le> length bs \<and> obs k' = (obs k)\<lparr>sent := append_at fd (take n bs) (sent (obs k))\<rparr>"
  unfolding kernel_contract_def write_law_def by (elim conjE allE [of _ fd] allE [of _ bs] allE [of _ k]) simp

lemma contract_write_err:
  "kernel_contract K obs \<Longrightarrow> sys_write K fd bs k = (Inl e, k') \<Longrightarrow> obs k' = obs k"
  unfolding kernel_contract_def write_law_def by (elim conjE allE [of _ fd] allE [of _ bs] allE [of _ k]) simp

lemma contract_close:
  "kernel_contract K obs \<Longrightarrow>
     obs (sys_close K fd k) = (obs k)\<lparr>opened := opened (obs k) - {fd}, watched := watched (obs k) - {fd}\<rparr>"
  by (simp add: kernel_contract_def close_law_def)

lemma contract_accept_ok:
  "kernel_contract K obs \<Longrightarrow> sys_accept K nb l k = (Inr fd, k') \<Longrightarrow>
     fd \<notin> opened (obs k) \<and> fd \<notin> watched (obs k) \<and>
     obs k' = (obs k)\<lparr>rcvd := (rcvd (obs k))(fd := []), sent := (sent (obs k))(fd := []),
                      opened := insert fd (opened (obs k))\<rparr>"
  unfolding kernel_contract_def accept_law_def by (elim conjE allE [of _ nb] allE [of _ l] allE [of _ k]) simp

lemma contract_accept_err:
  "kernel_contract K obs \<Longrightarrow> sys_accept K nb l k = (Inl e, k') \<Longrightarrow> obs k' = obs k"
  unfolding kernel_contract_def accept_law_def by (elim conjE allE [of _ nb] allE [of _ l] allE [of _ k]) simp

lemma contract_add_ok:
  "kernel_contract K obs \<Longrightarrow> sys_poll_add K p fd k = (Inr u, k') \<Longrightarrow>
     obs k' = (obs k)\<lparr>watched := insert fd (watched (obs k))\<rparr>"
  unfolding kernel_contract_def poll_law_def by (elim conjE allE [of _ p] allE [of _ fd] allE [of _ k]) simp

lemma contract_add_err:
  "kernel_contract K obs \<Longrightarrow> sys_poll_add K p fd k = (Inl e, k') \<Longrightarrow> obs k' = obs k"
  unfolding kernel_contract_def poll_law_def by (elim conjE allE [of _ p] allE [of _ fd] allE [of _ k]) simp

lemma contract_del:
  "kernel_contract K obs \<Longrightarrow> obs (sys_poll_del K p fd k) = (obs k)\<lparr>watched := watched (obs k) - {fd}\<rparr>"
  by (simp add: kernel_contract_def poll_law_def)

lemma contract_socket_ok:
  "kernel_contract K obs \<Longrightarrow> sys_socket K nb k = (Inr fd, k') \<Longrightarrow>
     fd \<notin> opened (obs k) \<and> obs k' = (obs k)\<lparr>opened := insert fd (opened (obs k))\<rparr>"
  unfolding kernel_contract_def create_law_def by (elim conjE allE [of _ nb] allE [of _ k]) simp

lemma contract_socket_err:
  "kernel_contract K obs \<Longrightarrow> sys_socket K nb k = (Inl e, k') \<Longrightarrow> obs k' = obs k"
  unfolding kernel_contract_def create_law_def by (elim conjE allE [of _ nb] allE [of _ k]) simp

lemma contract_poll_create_ok:
  "kernel_contract K obs \<Longrightarrow> sys_poll_create K k = (Inr fd, k') \<Longrightarrow>
     fd \<notin> opened (obs k) \<and> obs k' = (obs k)\<lparr>opened := insert fd (opened (obs k))\<rparr>"
  unfolding kernel_contract_def create_law_def by (elim conjE allE [of _ True] allE [of _ k]) simp

lemma contract_poll_create_err:
  "kernel_contract K obs \<Longrightarrow> sys_poll_create K k = (Inl e, k') \<Longrightarrow> obs k' = obs k"
  unfolding kernel_contract_def create_law_def by (elim conjE allE [of _ True] allE [of _ k]) simp

lemma contract_options:
  "kernel_contract K obs \<Longrightarrow> obs (sys_setsockopt K fd opt k) = obs k"
  "kernel_contract K obs \<Longrightarrow> obs (sys_fcntl_setfl K fd fl k) = obs k"
  "kernel_contract K obs \<Longrightarrow> sys_bind K fd port k = (rb, k') \<Longrightarrow> obs k' = obs k"
  "kernel_contract K obs \<Longrightarrow> sys_listen K fd k = (rl, k') \<Longrightarrow> obs k' = obs k"
  "kernel_contract K obs \<Longrightarrow> sys_fcntl_getfl K fd k = (w, k') \<Longrightarrow> obs k' = obs k"
  unfolding kernel_contract_def option_law_def by (metis snd_conv)+

lemmas contract_laws = contract_read_ok contract_read_err contract_write_ok contract_write_err
  contract_accept_ok contract_accept_err contract_add_ok contract_add_err

subsection \<open>A kernel that keeps the laws\<close>

text \<open>
  A scripted kernel for the concrete examples: reads answer from the chunks a client has sent (an
  empty chunk is its end of stream), \<open>accept\<close> and \<open>socket\<close> from a list of descriptors, writes from a
  list of answers (a write takes everything when the list is used up), waits from a list of event lists.
  \<open>refuse\<close> makes one of the calls of the constructors fail.
\<close>

datatype setup_call = Bind_Call | Listen_Call | Create_Call | Add_Call

record sim =
  simnet :: netobs
  chunks :: "fd \<Rightarrow> byte list list"
  arrivals :: "fd list"
  answers :: "nat sysret list"
  waits :: "event list list"
  refuse :: "setup_call option"

definition sim_new :: "fd list \<Rightarrow> sim" where
  "sim_new fds = \<lparr>simnet = \<lparr>rcvd = (\<lambda>_. []), sent = (\<lambda>_. []), opened = {}, watched = {}\<rparr>,
     chunks = (\<lambda>_. []), arrivals = fds, answers = [], waits = [], refuse = None\<rparr>"

definition sim_open :: "bool \<Rightarrow> sim \<Rightarrow> fd sysret \<times> sim" where
  "sim_open fresh s =
     (case arrivals s of
        [] \<Rightarrow> (Inl EAGAIN, s)
      | fd # fds \<Rightarrow>
          if fd \<in> opened (simnet s) \<or> fd \<in> watched (simnet s) then (Inl (EOTHER 24), s)
          else (Inr fd, s\<lparr>arrivals := fds, simnet := (simnet s)\<lparr>opened := insert fd (opened (simnet s)),
                  rcvd := (if fresh then (rcvd (simnet s))(fd := []) else rcvd (simnet s)),
                  sent := (if fresh then (sent (simnet s))(fd := []) else sent (simnet s))\<rparr>\<rparr>))"

definition sim_read :: "fd \<Rightarrow> nat \<Rightarrow> sim \<Rightarrow> byte list sysret \<times> sim" where
  "sim_read fd n s =
     (case chunks s fd of
        [] \<Rightarrow> (Inl EAGAIN, s)
      | c # cs \<Rightarrow> (Inr (take n c), s\<lparr>chunks := (chunks s)(fd := (if length c \<le> n then cs else drop n c # cs)),
                  simnet := (simnet s)\<lparr>rcvd := append_at fd (take n c) (rcvd (simnet s))\<rparr>\<rparr>))"

definition sim_write :: "fd \<Rightarrow> byte list \<Rightarrow> sim \<Rightarrow> nat sysret \<times> sim" where
  "sim_write fd bs s =
     (case answers s of
        [] \<Rightarrow> (Inr (length bs), s\<lparr>simnet := (simnet s)\<lparr>sent := append_at fd bs (sent (simnet s))\<rparr>\<rparr>)
      | Inl e # as \<Rightarrow> (Inl e, s\<lparr>answers := as\<rparr>)
      | Inr n # as \<Rightarrow> (Inr (min n (length bs)),
          s\<lparr>answers := as, simnet := (simnet s)\<lparr>sent := append_at fd (take (min n (length bs)) bs) (sent (simnet s))\<rparr>\<rparr>))"

definition sim_refuses :: "setup_call \<Rightarrow> sim \<Rightarrow> unit sysret \<times> sim" where
  "sim_refuses c s = (if refuse s = Some c then Inl (EOTHER 98) else Inr (), s)"

definition sim_kernel :: "sim kernel" where
  "sim_kernel =
     \<lparr>sys_socket = (\<lambda>_. sim_open False),
      sys_fcntl_getfl = (\<lambda>fd s. (2, s)),
      sys_fcntl_setfl = (\<lambda>fd fl s. s),
      sys_setsockopt = (\<lambda>fd opt s. s),
      sys_bind = (\<lambda>fd port. sim_refuses Bind_Call),
      sys_listen = (\<lambda>fd. sim_refuses Listen_Call),
      sys_poll_create = (\<lambda>s. if refuse s = Some Create_Call then (Inl (EOTHER 24), s) else sim_open False s),
      sys_poll_add = (\<lambda>p fd s. if refuse s = Some Add_Call then (Inl (EOTHER 28), s)
         else (Inr (), s\<lparr>simnet := (simnet s)\<lparr>watched := insert fd (watched (simnet s))\<rparr>\<rparr>)),
      sys_poll_del = (\<lambda>p fd s. s\<lparr>simnet := (simnet s)\<lparr>watched := watched (simnet s) - {fd}\<rparr>\<rparr>),
      sys_poll_wait = (\<lambda>p n s. case waits s of [] \<Rightarrow> (Inl EINTR, s) | es # ess \<Rightarrow> (Inr es, s\<lparr>waits := ess\<rparr>)),
      sys_accept = (\<lambda>_ l. sim_open True),
      sys_read = sim_read,
      sys_write = sim_write,
      sys_close = (\<lambda>fd s. s\<lparr>simnet := (simnet s)\<lparr>opened := opened (simnet s) - {fd}, watched := watched (simnet s) - {fd}\<rparr>\<rparr>),
      running_seen = (\<lambda>s. waits s \<noteq> [])\<rparr>"

lemma sim_contract: "kernel_contract sim_kernel simnet"
  by (simp add: kernel_contract_def read_law_def write_law_def close_law_def accept_law_def poll_law_def
      wait_law_def create_law_def option_law_def sim_kernel_def sim_open_def sim_read_def sim_write_def
      sim_refuses_def split: list.splits sum.splits)

lemmas sim_defs = sim_kernel_def sim_open_def sim_read_def sim_write_def sim_refuses_def sim_new_def

end
