(* ===== verification/Epoll_Server.thy ===== *)
theory Epoll_Server imports
  Kernel
  Thread_Pool
begin

text \<open>
  \<open>EchoServer\<close> of \<open>src/echo_server/flavors/epoll/server.cpp\<close>: constructor, event loop, accepting,
  reading, and the two lambdas that it hands to the thread pool. The pool is the abstract one that
  \<open>ThreadPool\<close> refines.
\<close>

subsection \<open>State\<close>

text \<open>The tasks: echo a buffer to a client, or close it.\<close>

datatype task = EchoTask fd "byte list" | CloseTask fd

fun task_fd :: "task \<Rightarrow> fd" where
  "task_fd (EchoTask fd buf) = fd"
| "task_fd (CloseTask fd) = fd"

record echo_server =
  listen_fd :: fd
  poll_fd :: fd
  port :: u16
  pool :: "task apool"

definition MAX_EVENTS :: nat where "MAX_EVENTS = 1024"

definition BUF_SIZE :: nat where "BUF_SIZE = 4096"

definition EPOLLIN :: "32 word" where "EPOLLIN = 1"

definition EPOLLERR :: "32 word" where "EPOLLERR = 8"

definition pool_enqueue :: "task \<Rightarrow> echo_server \<Rightarrow> echo_server" where
  "pool_enqueue t srv = srv\<lparr>pool := (pool srv)\<lparr>queue := queue (pool srv) @ [t]\<rparr>\<rparr>"

lemma pool_enqueue_refines: "apool_step (Put t) (pool srv) = Some (pool (pool_enqueue t srv))"
  by (simp add: pool_enqueue_def)

subsection \<open>Constructor and destructor\<close>

datatype exn = Runtime_error string errno

definition epoll_server_new ::
  "'k kernel \<Rightarrow> u16 \<Rightarrow> nat \<Rightarrow> 'k \<Rightarrow> (exn + echo_server) \<times> 'k" where
  "epoll_server_new K p num_workers k =
     (case sys_socket K True k of
        (Inl e, k1) \<Rightarrow> (Inl (Runtime_error ''socket: '' e), k1)
      | (Inr lfd, k1) \<Rightarrow>
          (case sys_bind K lfd p (sys_setsockopt K lfd SO_REUSEPORT (sys_setsockopt K lfd SO_REUSEADDR k1)) of
             (Inl e, k2) \<Rightarrow> (Inl (Runtime_error ''bind: '' e), sys_close K lfd k2)
           | (Inr _, k2) \<Rightarrow>
               (case sys_listen K lfd k2 of
                  (Inl e, k3) \<Rightarrow> (Inl (Runtime_error ''listen: '' e), sys_close K lfd k3)
                | (Inr _, k3) \<Rightarrow>
                    (case sys_poll_create K k3 of
                       (Inl e, k4) \<Rightarrow> (Inl (Runtime_error ''epoll_create1: '' e), sys_close K lfd k4)
                     | (Inr efd, k4) \<Rightarrow>
                         (case sys_poll_add K efd lfd k4 of
                            (Inl e, k5) \<Rightarrow>
                              (Inl (Runtime_error ''epoll_ctl add listen: '' e), sys_close K efd (sys_close K lfd k5))
                          | (Inr _, k5) \<Rightarrow>
                              (Inr \<lparr>listen_fd = lfd, poll_fd = efd, port = p,
                                    pool = abs_pool (pool_new num_workers)\<rparr>, k5))))))"

definition epoll_server_delete :: "'k kernel \<Rightarrow> echo_server \<Rightarrow> 'k \<Rightarrow> 'k" where
  "epoll_server_delete K srv k = sys_close K (listen_fd srv) (sys_close K (poll_fd srv) k)"

subsection \<open>accept_connection\<close>

text \<open>
  One turn of the loop: accept one client and register it, closing it again when it cannot be
  registered. The flag says whether the loop goes on. The loop is partial: it runs as long as
  \<open>accept4\<close> returns clients.
\<close>

definition accept_one :: "'k kernel \<Rightarrow> echo_server \<Rightarrow> 'k \<Rightarrow> bool \<times> 'k" where
  "accept_one K srv k =
     (case sys_accept K True (listen_fd srv) k of
        (Inl e, k1) \<Rightarrow> (False, k1)
      | (Inr client_fd, k1) \<Rightarrow>
          (case sys_poll_add K (poll_fd srv) client_fd k1 of
             (Inl e, k2) \<Rightarrow> (True, sys_close K client_fd k2)
           | (Inr _, k2) \<Rightarrow> (True, k2)))"

partial_function (option) accept_connection :: "'k kernel \<Rightarrow> echo_server \<Rightarrow> 'k \<Rightarrow> 'k option" where
  "accept_connection K srv k =
     (let (go_on, k') = accept_one K srv k
      in if go_on then accept_connection K srv k' else Some k')"

subsection \<open>handle_read\<close>

text \<open>
  \<open>read_client\<close> is the function up to the call of \<open>enqueue\<close>: the task to hand over, if any, and the
  kernel after the read (and after the deregistration, at end of stream or on an error).
\<close>

definition read_client :: "'k kernel \<Rightarrow> echo_server \<Rightarrow> fd \<Rightarrow> 'k \<Rightarrow> task option \<times> 'k" where
  "read_client K srv client_fd k =
     (case sys_read K client_fd BUF_SIZE k of
        (Inl e, k1) \<Rightarrow>
          if \<not> would_block e then (Some (CloseTask client_fd), sys_poll_del K (poll_fd srv) client_fd k1)
          else (None, k1)
      | (Inr buf, k1) \<Rightarrow>
          if length buf = 0 then (Some (CloseTask client_fd), sys_poll_del K (poll_fd srv) client_fd k1)
          else (Some (EchoTask client_fd buf), k1))"

definition handle_read :: "'k kernel \<Rightarrow> fd \<Rightarrow> echo_server \<times> 'k \<Rightarrow> echo_server \<times> 'k" where
  "handle_read K client_fd = (\<lambda>(srv, k).
     (case read_client K srv client_fd k of
        (None, k1) \<Rightarrow> (srv, k1)
      | (Some t, k1) \<Rightarrow> (pool_enqueue t srv, k1)))"

subsection \<open>event_loop\<close>

definition handle_event :: "'k kernel \<Rightarrow> event \<Rightarrow> echo_server \<times> 'k \<Rightarrow> (echo_server \<times> 'k) option" where
  "handle_event K ev = (\<lambda>(srv, k).
     if ev_bits ev AND EPOLLERR \<noteq> 0 then Some (srv, sys_close K (ev_fd ev) k)
     else if ev_fd ev = listen_fd srv then map_option (Pair srv) (accept_connection K srv k)
     else if ev_bits ev AND EPOLLIN \<noteq> 0 then Some (handle_read K (ev_fd ev) (srv, k))
     else Some (srv, k))"

fun handle_events :: "'k kernel \<Rightarrow> event list \<Rightarrow> echo_server \<times> 'k \<Rightarrow> (echo_server \<times> 'k) option" where
  "handle_events K [] w = Some w"
| "handle_events K (ev # evs) w = Option.bind (handle_event K ev w) (handle_events K evs)"

partial_function (option) event_loop :: "'k kernel \<Rightarrow> echo_server \<times> 'k \<Rightarrow> (echo_server \<times> 'k) option" where
  "event_loop K w =
     (if running_seen K (snd w) then
        (let (r, k') = sys_poll_wait K (poll_fd (fst w)) MAX_EVENTS (snd w)
         in case r of
              Inl e \<Rightarrow> Some (fst w, k')
            | Inr evs \<Rightarrow> Option.bind (handle_events K evs (fst w, k')) (event_loop K))
      else Some w)"

subsection \<open>The tasks of the workers\<close>

text \<open>
  One turn of the writing loop with \<open>total_written\<close> bytes out: the new count while the loop goes on,
  \<open>None\<close> when it gives up on an error.
\<close>

definition echo_write :: "'k kernel \<Rightarrow> fd \<Rightarrow> byte list \<Rightarrow> nat \<Rightarrow> 'k \<Rightarrow> nat option \<times> 'k" where
  "echo_write K client_fd buf total_written k =
     (case sys_write K client_fd (drop total_written buf) k of
        (Inl e, k') \<Rightarrow> (if would_block e then Some total_written else None, k')
      | (Inr nw, k') \<Rightarrow> (Some (total_written + nw), k'))"

partial_function (option) echo_loop :: "'k kernel \<Rightarrow> fd \<Rightarrow> byte list \<Rightarrow> nat \<Rightarrow> 'k \<Rightarrow> 'k option" where
  "echo_loop K client_fd buf total_written k =
     (if total_written < length buf then
        (let (r, k') = echo_write K client_fd buf total_written k
         in case r of
              None \<Rightarrow> Some k'
            | Some n \<Rightarrow> echo_loop K client_fd buf n k')
      else Some k)"

fun run_task :: "'k kernel \<Rightarrow> task \<Rightarrow> 'k \<Rightarrow> 'k option" where
  "run_task K (EchoTask client_fd buf) k = echo_loop K client_fd buf 0 k"
| "run_task K (CloseTask client_fd) k = Some (sys_close K client_fd k)"

subsection \<open>Constructor: no descriptor is leaked\<close>

text \<open>
  C33. When the constructor throws, every descriptor it opened is closed again, on each of its five
  failure paths; when it returns, exactly the listening socket and the epoll instance are new and the
  socket is watched, and the destructor gives both back.
\<close>

lemma epoll_constructor_descriptors:
  assumes c: "kernel_contract K obs"
  shows "case epoll_server_new K p num_workers k of
      (Inl ex, k') \<Rightarrow> opened (obs k') = opened (obs k)
    | (Inr srv, k') \<Rightarrow>
        listen_fd srv \<notin> opened (obs k) \<and> poll_fd srv \<notin> opened (obs k) \<and> listen_fd srv \<noteq> poll_fd srv \<and>
        opened (obs k') = insert (poll_fd srv) (insert (listen_fd srv) (opened (obs k))) \<and>
        listen_fd srv \<in> watched (obs k') \<and> port srv = p \<and>
        opened (obs (epoll_server_delete K srv k')) = opened (obs k)"
  unfolding epoll_server_new_def epoll_server_delete_def
  by (auto split: prod.splits sum.splits simp: contract_close [OF c] contract_options [OF c]
      dest!: contract_socket_ok [OF c] contract_socket_err [OF c] contract_options(3,4) [OF c]
        contract_poll_create_ok [OF c] contract_poll_create_err [OF c] contract_add_ok [OF c] contract_add_err [OF c])

lemma epoll_constructor_descriptors_witness:
  "opened (simnet (snd (epoll_server_new sim_kernel 8080 1 ((sim_new [3, 4])\<lparr>refuse := Some Add_Call\<rparr>)))) = {}"
  using epoll_constructor_descriptors [OF sim_contract, where k = "(sim_new [3, 4])\<lparr>refuse := Some Add_Call\<rparr>" and p = 8080 and num_workers = 1]
  by (simp add: epoll_server_new_def sim_defs)

subsection \<open>Accepting\<close>

text \<open>The queue of pending connections is finite: every client accepted shortens it.\<close>

definition finite_backlog :: "'k kernel \<Rightarrow> ('k \<Rightarrow> nat) \<Rightarrow> bool" where
  "finite_backlog K backlog \<longleftrightarrow> (\<forall>nb l p fd k.
     (\<forall>c k'. sys_accept K nb l k = (Inr c, k') \<longrightarrow> backlog k' < backlog k) \<and>
     backlog (snd (sys_poll_add K p fd k)) \<le> backlog k \<and> backlog (sys_close K fd k) \<le> backlog k)"

lemma accept_one_backlog:
  assumes "finite_backlog K backlog" "accept_one K srv k = (True, k')"
  shows "backlog k' < backlog k"
proof -
  obtain c k1 where a: "sys_accept K True (listen_fd srv) k = (Inr c, k1)"
    using assms(2) by (auto simp: accept_one_def split: prod.splits sum.splits)
  have law: "\<And>p fd k. backlog (snd (sys_poll_add K p fd k)) \<le> backlog k" "\<And>fd k. backlog (sys_close K fd k) \<le> backlog k"
    and "backlog k1 < backlog k"
    using assms(1) a by (auto simp: finite_backlog_def)
  moreover have "backlog k' \<le> backlog (snd (sys_poll_add K (poll_fd srv) c k1))"
    using assms(2) a law(2) by (auto simp: accept_one_def split: prod.splits sum.splits)
  ultimately show ?thesis using law(1) [of "poll_fd srv" c k1] by linarith
qed

text \<open>One turn leaves a new client watched or closed, and no other descriptor touched.\<close>

definition accepted :: "netobs \<Rightarrow> netobs \<Rightarrow> bool" where
  "accepted o1 o2 \<longleftrightarrow> opened o1 \<subseteq> opened o2 \<and> opened o2 - opened o1 \<subseteq> watched o2 \<and>
     watched o1 \<subseteq> watched o2 \<and> (\<forall>fd\<in>opened o1. rcvd o2 fd = rcvd o1 fd \<and> sent o2 fd = sent o1 fd)"

lemma accepted_refl: "accepted o1 o1"
  by (simp add: accepted_def)

lemma accepted_trans: "accepted o1 o2 \<Longrightarrow> accepted o2 o3 \<Longrightarrow> accepted o1 o3"
  by (auto simp: accepted_def)

lemma accept_one_accepted:
  assumes c: "kernel_contract K obs" and "accept_one K srv k = (b, k')"
  shows "accepted (obs k) (obs k')"
proof (cases "sys_accept K True (listen_fd srv) k")
  case (Pair r k1)
  show ?thesis
  proof (cases r)
    case (Inl e)
    with assms(2) Pair show ?thesis
      using contract_accept_err [OF c] by (auto simp: accept_one_def accepted_refl)
  next
    case (Inr cfd)
    have a: "cfd \<notin> opened (obs k) \<and> cfd \<notin> watched (obs k) \<and>
        obs k1 = (obs k)\<lparr>rcvd := (rcvd (obs k))(cfd := []), sent := (sent (obs k))(cfd := []),
          opened := insert cfd (opened (obs k))\<rparr>"
      using contract_accept_ok [OF c] Pair Inr by blast
    then show ?thesis
      using assms(2) Pair Inr contract_add_err [OF c] contract_add_ok [OF c]
      by (auto simp: accept_one_def accepted_def contract_close [OF c] split: prod.splits sum.splits)
  qed
qed

text \<open>
  C32. With finitely many connections pending, \<open>accept_connection\<close> returns, and every descriptor it
  leaves open is registered with epoll: a client that cannot be registered is closed, not leaked.
\<close>

lemma accept_connection_registers_all:
  assumes "kernel_contract K obs" "finite_backlog K backlog"
  shows "\<exists>k'. accept_connection K srv k = Some k' \<and> accepted (obs k) (obs k')"
proof (induction "backlog k" arbitrary: k rule: less_induct)
  case less
  obtain b k1 where one: "accept_one K srv k = (b, k1)" by fastforce
  note step = accept_one_accepted [OF assms(1) one]
  show ?case
  proof (cases b)
    case True
    with one have "backlog k1 < backlog k" using accept_one_backlog [OF assms(2)] by simp
    from less [OF this] obtain k' where "accept_connection K srv k1 = Some k'" "accepted (obs k1) (obs k')"
      by blast
    with True one step show ?thesis by (subst accept_connection.simps) (auto intro: accepted_trans)
  qed (use one step in \<open>subst accept_connection.simps, simp\<close>)
qed

lemma sim_backlog: "finite_backlog sim_kernel (\<lambda>s. length (arrivals s))"
  by (simp add: finite_backlog_def sim_defs split: list.splits)

lemma accept_connection_registers_all_witness:
  "\<exists>k'. accept_connection sim_kernel \<lparr>listen_fd = 3, poll_fd = 4, port = 8080, pool = abs_pool (pool_new 1)\<rparr>
     (sim_new [5, 6]) = Some k' \<and> opened (simnet k') \<subseteq> watched (simnet k')"
  using accept_connection_registers_all [OF sim_contract sim_backlog,
      of "\<lparr>listen_fd = 3, poll_fd = 4, port = 8080, pool = abs_pool (pool_new 1)\<rparr>" "sim_new [5, 6]"]
  by (auto simp: accepted_def sim_new_def)

subsection \<open>Echoing\<close>

lemma echo_write_ok:
  assumes "kernel_contract K obs" "echo_write K fd buf off k = (Some n, k')" "off \<le> length buf"
  shows "off \<le> n \<and> n \<le> length buf \<and>
    obs k' = (obs k)\<lparr>sent := append_at fd (take (n - off) (drop off buf)) (sent (obs k))\<rparr>"
proof (cases "sys_write K fd (drop off buf) k")
  case (Pair r k1)
  with assms contract_write_err [OF assms(1)] contract_write_ok [OF assms(1)]
  show ?thesis by (cases r) (fastforce simp: echo_write_def split: if_splits)+
qed

lemma echo_write_err:
  "kernel_contract K obs \<Longrightarrow> echo_write K fd buf off k = (None, k') \<Longrightarrow> obs k' = obs k"
  by (auto simp: echo_write_def split: prod.splits sum.splits if_splits dest: contract_write_err)

lemma take_drop_glue: "a \<le> b \<Longrightarrow> b \<le> c \<Longrightarrow> take (b - a) (drop a xs) @ take (c - b) (drop b xs) = take (c - a) (drop a xs)"
  by (metis add_diff_inverse_nat add_diff_assoc2 drop_drop le_add_diff_inverse2 not_less take_add)

text \<open>What the writing loop has sent when it returns: a first part of what was left, in order.\<close>

lemma echo_loop_prefix:
  "echo_loop K fd buf off k = Some k' \<Longrightarrow> kernel_contract K obs \<Longrightarrow> off \<le> length buf \<Longrightarrow>
     \<exists>n. off \<le> n \<and> n \<le> length buf \<and>
      obs k' = (obs k)\<lparr>sent := append_at fd (take (n - off) (drop off buf)) (sent (obs k))\<rparr>"
proof (induction rule: echo_loop.raw_induct [rotated, consumes 1, case_names step])
  case (step echo_loop K fd buf off k k')
  note c = step.prems(1) and le = step.prems(2)
  obtain r k1 where w: "echo_write K fd buf off k = (r, k1)" by fastforce
  show ?case
  proof (cases "off < length buf")
    case True
    show ?thesis
    proof (cases r)
      case None
      with True w step.hyps echo_write_err [OF c] show ?thesis by (intro exI [of _ off]) (simp add: le)
    next
      case (Some m)
      note one = echo_write_ok [OF c w [unfolded Some] le]
      from True w Some step.hyps have "echo_loop K fd buf m k1 = Some k'" by simp
      from step.IH [OF this c] one obtain n where n: "m \<le> n" "n \<le> length buf"
        "obs k' = (obs k1)\<lparr>sent := append_at fd (take (n - m) (drop m buf)) (sent (obs k1))\<rparr>" by blast
      with one show ?thesis by (intro exI [of _ n]) (simp add: take_drop_glue fun_upd_def cong: if_cong)
    qed
  qed (use step.hyps le in \<open>intro exI [of _ off], simp\<close>)
qed

text \<open>
  An echo task never repeats, skips or reorders bytes and touches no other client: whenever it
  returns, what it has sent is a first part of its buffer.
\<close>

lemma echo_task_sends_prefix:
  assumes "kernel_contract K obs" "run_task K (EchoTask fd buf) k = Some k'"
  shows "\<exists>n\<le>length buf. obs k' = (obs k)\<lparr>sent := append_at fd (take n buf) (sent (obs k))\<rparr>"
  using echo_loop_prefix [OF _ assms(1), of fd buf 0 k k'] assms(2) by auto

text \<open>
  A client that reads: from a state that is \<open>good\<close>, writes do not fail for ever. \<open>patience\<close> bounds how
  often a write can still send nothing.
\<close>

definition writes_progress :: "'k kernel \<Rightarrow> ('k \<Rightarrow> bool) \<Rightarrow> ('k \<Rightarrow> nat) \<Rightarrow> bool" where
  "writes_progress K good patience \<longleftrightarrow> (\<forall>fd bs k r k'. good k \<and> bs \<noteq> [] \<and> sys_write K fd bs k = (r, k') \<longrightarrow>
     good k' \<and> (case r of
        Inl e \<Rightarrow> would_block e \<and> patience k' < patience k
      | Inr n \<Rightarrow> patience k' \<le> patience k \<and> (n = 0 \<longrightarrow> patience k' < patience k)))"

lemma echo_loop_completes:
  assumes c: "kernel_contract K obs" and p: "writes_progress K good patience"
  shows "good k \<Longrightarrow> off \<le> length buf \<Longrightarrow> \<exists>k'. echo_loop K fd buf off k = Some k' \<and> good k' \<and>
    obs k' = (obs k)\<lparr>sent := append_at fd (drop off buf) (sent (obs k))\<rparr>"
proof (induction "length buf - off + patience k" arbitrary: off k rule: less_induct)
  case less
  show ?case
  proof (cases "off < length buf")
    case True
    obtain r k1 where w: "sys_write K fd (drop off buf) k = (r, k1)" by fastforce
    with True less.prems have law: "good k1 \<and> (case r of
        Inl e \<Rightarrow> would_block e \<and> patience k1 < patience k
      | Inr n \<Rightarrow> patience k1 \<le> patience k \<and> (n = 0 \<longrightarrow> patience k1 < patience k))"
      using p unfolding writes_progress_def by (metis drop_eq_Nil2 not_less)
    define n where "n = (case r of Inl e \<Rightarrow> off | Inr m \<Rightarrow> off + m)"
    have e: "echo_write K fd buf off k = (Some n, k1)"
      using w law by (auto simp: echo_write_def n_def split: sum.splits)
    note one = echo_write_ok [OF c e less.prems(2)]
    have "length buf - n + patience k1 < length buf - off + patience k"
      using law one True by (auto simp: n_def split: sum.splits)
    from less.hyps [OF this] law one obtain k' where k': "echo_loop K fd buf n k1 = Some k'" "good k'"
        "obs k' = (obs k1)\<lparr>sent := append_at fd (drop n buf) (sent (obs k1))\<rparr>" by blast
    moreover have "take (n - off) (drop off buf) @ drop n buf = drop off buf"
      using take_drop_glue [of off n "length buf" buf] one by simp
    ultimately show ?thesis using True e one by (subst echo_loop.simps) simp
  next
    case False
    with less.prems show ?thesis by (subst echo_loop.simps) simp
  qed
qed

text \<open>
  When the client's socket keeps accepting bytes, short writes and \<open>EAGAIN\<close> included, an echo task
  returns and has sent exactly its buffer.
\<close>

lemma echo_task_completes:
  assumes "kernel_contract K obs" "writes_progress K good patience" "good k"
  shows "\<exists>k'. run_task K (EchoTask fd buf) k = Some k' \<and> good k' \<and>
    obs k' = (obs k)\<lparr>sent := append_at fd buf (sent (obs k))\<rparr>"
  using echo_loop_completes [OF assms, of 0 buf fd] by auto

text \<open>
  When the client stops reading, its echo task does not return: the loop retries without
  waiting, so the worker that runs it does nothing else.
\<close>

lemma echo_loop_spins:
  "echo_loop K fd buf off k = Some k' \<Longrightarrow> off < length buf \<Longrightarrow>
     (\<And>bs k. bs \<noteq> [] \<Longrightarrow> \<exists>e. would_block e \<and> fst (sys_write K fd bs k) = Inl e) \<Longrightarrow> False"
proof (induction rule: echo_loop.raw_induct [rotated, consumes 1, case_names step])
  case (step echo_loop K fd buf off k k')
  obtain r k1 where w: "sys_write K fd (drop off buf) k = (r, k1)" by fastforce
  moreover obtain e where "would_block e" "r = Inl e"
    using step.prems(2) [of "drop off buf" k] step.prems(1) w by auto
  ultimately have "echo_loop K fd buf off k1 = Some k'"
    using step.hyps step.prems(1) by (simp add: echo_write_def)
  then show ?case using step.IH step.prems by blast
qed

lemma echo_task_spins_when_blocked:
  assumes "\<And>bs k. bs \<noteq> [] \<Longrightarrow> \<exists>e. would_block e \<and> fst (sys_write K fd bs k) = Inl e" "buf \<noteq> []"
  shows "run_task K (EchoTask fd buf) k = None"
  using echo_loop_spins [of K fd buf 0 k] assms by (cases "run_task K (EchoTask fd buf) k") auto

subsection \<open>Witnesses for the tasks\<close>

lemma echo_task_sends_prefix_witness:
  "\<exists>k'. run_task sim_kernel (EchoTask 5 [1, 2, 3]) ((sim_new [])\<lparr>answers := [Inr 1, Inl EAGAIN, Inl (EOTHER 104)]\<rparr>) = Some k' \<and>
     (\<exists>n. sent (simnet k') 5 = take n [1, 2, 3])"
proof -
  let ?k = "(sim_new [])\<lparr>answers := [Inr 1, Inl EAGAIN, Inl (EOTHER 104)]\<rparr>"
  obtain k' where r: "run_task sim_kernel (EchoTask 5 [1, 2, 3]) ?k = Some k'"
    by (simp add: echo_loop.simps echo_write_def sim_defs would_block_def)
  from echo_task_sends_prefix [OF sim_contract r] show ?thesis using r by (auto simp: sim_new_def)
qed

definition sim_reads :: "sim \<Rightarrow> bool" where
  "sim_reads s \<longleftrightarrow> list_all (\<lambda>a. case a of Inl e \<Rightarrow> would_block e | Inr n \<Rightarrow> True) (answers s)"

lemma sim_progress: "writes_progress sim_kernel sim_reads (\<lambda>s. length (answers s))"
  by (auto simp: writes_progress_def sim_reads_def sim_defs split: list.splits sum.splits)

lemma echo_task_completes_witness:
  "\<exists>k'. run_task sim_kernel (EchoTask 5 [1, 2, 3]) ((sim_new [])\<lparr>answers := [Inr 1, Inl EAGAIN, Inr 0]\<rparr>) = Some k' \<and>
     sent (simnet k') 5 = [1, 2, 3]"
  using echo_task_completes [OF sim_contract sim_progress, of "(sim_new [])\<lparr>answers := [Inr 1, Inl EAGAIN, Inr 0]\<rparr>" 5 "[1, 2, 3]"]
  by (auto simp: sim_reads_def would_block_def sim_new_def)

lemma echo_task_spins_when_blocked_witness:
  "run_task (sim_kernel\<lparr>sys_write := (\<lambda>fd bs k. (Inl EAGAIN, k))\<rparr>) (EchoTask 5 [1]) (sim_new []) = None"
  by (rule echo_task_spins_when_blocked) (auto simp: would_block_def)

subsection \<open>Leaving the event loop\<close>

text \<open>
  The event loop leaves as soon as \<open>epoll_wait\<close> reports an error, an interruption included: after
  \<open>EINTR\<close> the server stops although \<open>running_\<close> is still true.
\<close>

lemma event_loop_leaves_on_interrupt:
  "running_seen K k \<Longrightarrow> sys_poll_wait K (poll_fd srv) MAX_EVENTS k = (Inl EINTR, k') \<Longrightarrow>
     event_loop K (srv, k) = Some (srv, k')"
  by (subst event_loop.simps) simp

end

