(* ===== verification/Echo_System.thy ===== *)
theory Echo_System imports
  Epoll_Server
begin

text \<open>
  The epoll server as a whole: the network thread, the pool's workers and the clients, as a step
  relation. A step is one turn of the accept loop, the part of \<open>handle_read\<close> before \<open>enqueue\<close>, the
  \<open>enqueue\<close>, the close on an error event, a worker taking a task, or one turn of a task (one
  \<open>write\<close>, or the \<open>close\<close>). The kernel is any one that keeps the laws of \<open>Kernel\<close>; it reports events only for
  watched descriptors.
\<close>

subsection \<open>State and steps\<close>

record 'k echo_sys =
  server :: echo_server
  os :: 'k
  hand :: "task option"
  written :: "nat list"
  broken :: "fd set"

text \<open>
  \<open>hand\<close> is the task that the network thread is about to enqueue, \<open>written\<close> the \<open>total_written\<close> of each
  worker, \<open>broken\<close> the clients on which a write has failed.
\<close>

definition sys_new :: "nat \<Rightarrow> echo_server \<Rightarrow> 'k \<Rightarrow> 'k echo_sys" where
  "sys_new n srv k = \<lparr>server = srv, os = k, hand = None, written = replicate n 0, broken = {}\<rparr>"

datatype sys_act = Accept | Readable fd | Error_Event fd | Hand_Over | Take_Task nat | Run_Task nat

definition with_pool :: "task apool_act \<Rightarrow> 'k echo_sys \<Rightarrow> 'k echo_sys option" where
  "with_pool a s = map_option (\<lambda>p. s\<lparr>server := (server s)\<lparr>pool := p\<rparr>\<rparr>) (apool_step a (pool (server s)))"

definition accept_step :: "'k kernel \<Rightarrow> 'k echo_sys \<Rightarrow> 'k echo_sys" where
  "accept_step K s =
     s\<lparr>os := snd (accept_one K (server s) (os s)),
       broken := (case fst (sys_accept K True (listen_fd (server s)) (os s)) of
                    Inl e \<Rightarrow> broken s | Inr c \<Rightarrow> broken s - {c})\<rparr>"

definition run_step :: "'k kernel \<Rightarrow> nat \<Rightarrow> 'k echo_sys \<Rightarrow> 'k echo_sys option" where
  "run_step K i s =
     (case busy (pool (server s)) ! i of
        None \<Rightarrow> None
      | Some (CloseTask fd) \<Rightarrow> with_pool (Done i) (s\<lparr>os := sys_close K fd (os s)\<rparr>)
      | Some (EchoTask fd buf) \<Rightarrow>
          if written s ! i < length buf then
            (case echo_write K fd buf (written s ! i) (os s) of
               (Some n, k') \<Rightarrow> Some (s\<lparr>os := k', written := (written s)[i := n]\<rparr>)
             | (None, k') \<Rightarrow> with_pool (Done i) (s\<lparr>os := k', broken := insert fd (broken s)\<rparr>))
          else with_pool (Done i) s)"

fun sys_step :: "'k kernel \<Rightarrow> ('k \<Rightarrow> netobs) \<Rightarrow> sys_act \<Rightarrow> 'k echo_sys \<Rightarrow> 'k echo_sys option" where
  "sys_step K obs Accept s = (if hand s = None then Some (accept_step K s) else None)"
| "sys_step K obs (Readable fd) s =
     (if hand s = None \<and> fd \<in> watched (obs (os s)) \<and> fd \<noteq> listen_fd (server s) then
        (let (t, k') = read_client K (server s) fd (os s) in Some (s\<lparr>os := k', hand := t\<rparr>))
      else None)"
| "sys_step K obs (Error_Event fd) s =
     (if hand s = None \<and> fd \<in> watched (obs (os s)) then Some (s\<lparr>os := sys_close K fd (os s)\<rparr>) else None)"
| "sys_step K obs Hand_Over s =
     (case hand s of None \<Rightarrow> None | Some t \<Rightarrow> with_pool (Put t) (s\<lparr>hand := None\<rparr>))"
| "sys_step K obs (Take_Task i) s =
     (if i < length (written s) then with_pool (Take i) (s\<lparr>written := (written s)[i := 0]\<rparr>) else None)"
| "sys_step K obs (Run_Task i) s = (if i < length (busy (pool (server s))) then run_step K i s else None)"

text \<open>
  Reachable states of a server with \<open>n\<close> workers, built by the constructor on a kernel that watches
  nothing yet, with the kinds of steps that \<open>allowed\<close> admits.
\<close>

inductive sys_reach :: "'k kernel \<Rightarrow> ('k \<Rightarrow> netobs) \<Rightarrow> nat \<Rightarrow> (sys_act \<Rightarrow> bool) \<Rightarrow> 'k echo_sys \<Rightarrow> bool"
  for K obs n allowed where
  start: "watched (obs k) = {} \<Longrightarrow> epoll_server_new K p n k = (Inr srv, k') \<Longrightarrow>
     sys_reach K obs n allowed (sys_new n srv k')"
| step: "sys_reach K obs n allowed s \<Longrightarrow> allowed a \<Longrightarrow> sys_step K obs a s = Some s' \<Longrightarrow>
     sys_reach K obs n allowed s'"

definition no_error_event :: "sys_act \<Rightarrow> bool" where
  "no_error_event a \<longleftrightarrow> (case a of Error_Event _ \<Rightarrow> False | _ \<Rightarrow> True)"

subsection \<open>What is still to be done\<close>

text \<open>The rest of a task of which a worker has written \<open>w\<close> bytes, and all tasks in order.\<close>

fun rest_task :: "task \<Rightarrow> nat \<Rightarrow> task" where
  "rest_task (EchoTask fd buf) w = EchoTask fd (drop w buf)"
| "rest_task (CloseTask fd) w = CloseTask fd"

definition option_list :: "'a option \<Rightarrow> 'a list" where
  "option_list x = (case x of None \<Rightarrow> [] | Some y \<Rightarrow> [y])"

definition todo :: "'k echo_sys \<Rightarrow> task list" where
  "todo s =
     concat (map (\<lambda>(b, w). option_list (map_option (\<lambda>t. rest_task t w) b)) (zip (busy (pool (server s))) (written s))) @
     queue (pool (server s)) @ option_list (hand s)"

fun task_bytes :: "fd \<Rightarrow> task \<Rightarrow> byte list" where
  "task_bytes fd (EchoTask f buf) = (if f = fd then buf else [])"
| "task_bytes fd (CloseTask f) = []"

definition bytes_for :: "fd \<Rightarrow> task list \<Rightarrow> byte list" where
  "bytes_for fd ts = concat (map (task_bytes fd) ts)"

lemma bytes_for_simps [simp]:
  "bytes_for fd [] = []" "bytes_for fd (t # ts) = task_bytes fd t @ bytes_for fd ts"
  "bytes_for fd (ts @ us) = bytes_for fd ts @ bytes_for fd us"
  by (simp_all add: bytes_for_def)

lemma bytes_for_none: "fd \<notin> task_fd ` set ts \<Longrightarrow> bytes_for fd ts = []"
proof (induction ts)
  case (Cons t ts)
  then show ?case by (cases t) auto
qed simp

text \<open>A close is the last task of its descriptor.\<close>

fun closes_last :: "task list \<Rightarrow> bool" where
  "closes_last [] = True"
| "closes_last (t # ts) = ((case t of CloseTask fd \<Rightarrow> fd \<notin> task_fd ` set ts | _ \<Rightarrow> True) \<and> closes_last ts)"

lemma closes_last_snoc:
  "closes_last (ts @ [t]) \<longleftrightarrow> closes_last ts \<and> CloseTask (task_fd t) \<notin> set ts"
proof (induction ts)
  case Nil
  then show ?case by (cases t) auto
next
  case (Cons u ts)
  then show ?case by (cases u) auto
qed

text \<open>The clients: accepted and not closed yet.\<close>

definition client :: "('k \<Rightarrow> netobs) \<Rightarrow> 'k echo_sys \<Rightarrow> fd \<Rightarrow> bool" where
  "client obs s fd \<longleftrightarrow> fd \<noteq> listen_fd (server s) \<and>
     (fd \<in> watched (obs (os s)) \<or> CloseTask fd \<in> set (todo s))"

subsection \<open>The invariant of one worker\<close>

text \<open>
  \<open>l\<close> is the listening socket, \<open>o\<close> what is observed of the kernel, \<open>b\<close> the broken clients and \<open>ts\<close> all
  that is still to be done, in order.
\<close>

definition tasks_ok :: "fd \<Rightarrow> netobs \<Rightarrow> task list \<Rightarrow> bool" where
  "tasks_ok l ob ts \<longleftrightarrow> closes_last ts \<and> watched ob \<subseteq> opened ob \<and> l \<in> opened ob \<and>
     (\<forall>t\<in>set ts. task_fd t \<in> opened ob \<and> task_fd t \<noteq> l \<and>
        (task_fd t \<in> watched ob \<or> CloseTask (task_fd t) \<in> set ts)) \<and>
     (\<forall>fd. CloseTask fd \<in> set ts \<longrightarrow> fd \<notin> watched ob)"

definition echoes_ok :: "fd \<Rightarrow> netobs \<Rightarrow> fd set \<Rightarrow> task list \<Rightarrow> bool" where
  "echoes_ok l ob b ts \<longleftrightarrow> (\<forall>fd. fd \<noteq> l \<and> (fd \<in> watched ob \<or> CloseTask fd \<in> set ts) \<and> fd \<notin> b \<longrightarrow>
     rcvd ob fd = sent ob fd @ bytes_for fd ts)"

definition echo_ok :: "fd \<Rightarrow> netobs \<Rightarrow> fd set \<Rightarrow> task list \<Rightarrow> bool" where
  "echo_ok l ob b ts \<longleftrightarrow> tasks_ok l ob ts \<and> echoes_ok l ob b ts"

lemma ok_accept:
  assumes "echo_ok l ob b ts" "c \<notin> opened ob"
  shows "echo_ok l (ob\<lparr>rcvd := (rcvd ob)(c := []), sent := (sent ob)(c := []), opened := opened ob\<rparr>) (b - {c}) ts"
    and "echo_ok l (ob\<lparr>rcvd := (rcvd ob)(c := []), sent := (sent ob)(c := []), opened := insert c (opened ob),
      watched := insert c (watched ob)\<rparr>) (b - {c}) ts"
proof -
  have no: "c \<notin> task_fd ` set ts" "c \<noteq> l" "c \<notin> watched ob" "CloseTask c \<notin> set ts"
    using assms by (force simp: echo_ok_def tasks_ok_def)+
  show "echo_ok l (ob\<lparr>rcvd := (rcvd ob)(c := []), sent := (sent ob)(c := []), opened := opened ob\<rparr>) (b - {c}) ts"
    using assms no by (auto simp: echo_ok_def tasks_ok_def echoes_ok_def)
  show "echo_ok l (ob\<lparr>rcvd := (rcvd ob)(c := []), sent := (sent ob)(c := []), opened := insert c (opened ob),
      watched := insert c (watched ob)\<rparr>) (b - {c}) ts"
    using assms no bytes_for_none [OF no(1)] by (auto simp: echo_ok_def tasks_ok_def echoes_ok_def)
qed

lemma ok_data:
  assumes "echo_ok l ob b ts" "fd \<in> watched ob" "fd \<noteq> l"
  shows "echo_ok l (ob\<lparr>rcvd := append_at fd d (rcvd ob)\<rparr>) b (ts @ [EchoTask fd d])"
  using assms by (auto simp: echo_ok_def tasks_ok_def echoes_ok_def closes_last_snoc)

lemma ok_end_of_stream:
  assumes "echo_ok l ob b ts" "fd \<in> watched ob" "fd \<noteq> l"
  shows "echo_ok l (ob\<lparr>watched := watched ob - {fd}\<rparr>) b (ts @ [CloseTask fd])"
  using assms by (auto simp: echo_ok_def tasks_ok_def echoes_ok_def closes_last_snoc)

lemma ok_write:
  assumes "echo_ok l ob b (EchoTask fd buf # ts)"
  shows "echo_ok l (ob\<lparr>sent := append_at fd (take n buf) (sent ob)\<rparr>) b (EchoTask fd (drop n buf) # ts)"
  using assms by (auto simp: echo_ok_def tasks_ok_def echoes_ok_def)

lemma ok_written: "echo_ok l ob b (EchoTask fd [] # ts) \<Longrightarrow> echo_ok l ob b ts"
  by (auto simp: echo_ok_def tasks_ok_def echoes_ok_def)

lemma ok_give_up: "echo_ok l ob b (EchoTask fd buf # ts) \<Longrightarrow> echo_ok l ob (insert fd b) ts"
  by (auto simp: echo_ok_def tasks_ok_def echoes_ok_def)

lemma ok_close:
  assumes "echo_ok l ob b (CloseTask fd # ts)"
  shows "echo_ok l (ob\<lparr>opened := opened ob - {fd}, watched := watched ob - {fd}\<rparr>) b ts"
  using assms by (force simp: echo_ok_def tasks_ok_def echoes_ok_def)

definition sys_inv :: "('k \<Rightarrow> netobs) \<Rightarrow> 'k echo_sys \<Rightarrow> bool" where
  "sys_inv obs s \<longleftrightarrow> length (busy (pool (server s))) = 1 \<and> length (written s) = 1 \<and>
     echo_ok (listen_fd (server s)) (obs (os s)) (broken s) (todo s)"

text \<open>With one worker the list of things to do starts with the rest of its task.\<close>

lemma todo_one:
  assumes "busy (pool (server s)) = [x]" "written s = [w]"
  shows "todo s = option_list (map_option (\<lambda>t. rest_task t w) x) @ queue (pool (server s)) @ option_list (hand s)"
  using assms by (simp add: todo_def)

lemma sys_inv_one:
  "sys_inv obs s \<longleftrightarrow> (\<exists>x w. busy (pool (server s)) = [x] \<and> written s = [w] \<and>
     echo_ok (listen_fd (server s)) (obs (os s)) (broken s)
       (option_list (map_option (\<lambda>t. rest_task t w) x) @ queue (pool (server s)) @ option_list (hand s)))"
  by (auto simp: sys_inv_def todo_one length_Suc_conv)

lemma accept_inv:
  assumes c: "kernel_contract K obs" and inv: "sys_inv obs s"
  shows "sys_inv obs (accept_step K s)"
proof (cases "sys_accept K True (listen_fd (server s)) (os s)")
  case (Pair r k1)
  let ?t = "accept_step K s"
  have todo: "todo ?t = todo s" by (simp add: accept_step_def todo_def)
  have "echo_ok (listen_fd (server s)) (obs (os ?t)) (broken ?t) (todo s)"
  proof (cases r)
    case (Inl e)
    with Pair inv contract_accept_err [OF c] show ?thesis
      by (simp add: accept_step_def accept_one_def sys_inv_def)
  next
    case (Inr f)
    note acc = contract_accept_ok [OF c Pair [unfolded Inr]]
    obtain r2 k2 where add: "sys_poll_add K (poll_fd (server s)) f k1 = (r2, k2)" by fastforce
    have ok: "echo_ok (listen_fd (server s)) (obs (os s)) (broken s) (todo s)" using inv by (simp add: sys_inv_def)
    show ?thesis
    proof (cases r2)
      case (Inl e)
      with Pair Inr add acc contract_add_err [OF c] ok_accept(1) [OF ok, of f] show ?thesis
        by (auto simp: accept_step_def accept_one_def contract_close [OF c])
    next
      case r2: (Inr u)
      with Pair Inr add acc contract_add_ok [OF c] ok_accept(2) [OF ok, of f] show ?thesis
        by (auto simp: accept_step_def accept_one_def)
    qed
  qed
  with inv todo show ?thesis by (simp add: sys_inv_def accept_step_def)
qed

lemma read_inv:
  assumes c: "kernel_contract K obs" and inv: "sys_inv obs s" and fd: "fd \<in> watched (obs (os s))" "fd \<noteq> listen_fd (server s)"
    and h: "hand s = None" and r: "read_client K (server s) fd (os s) = (t, k')"
  shows "sys_inv obs (s\<lparr>os := k', hand := t\<rparr>)"
proof -
  obtain x k1 where x: "sys_read K fd BUF_SIZE (os s) = (x, k1)" by fastforce
  have todo: "todo (s\<lparr>os := k', hand := t\<rparr>) = todo s @ option_list t"
    by (simp add: todo_def h option_list_def)
  have ok: "echo_ok (listen_fd (server s)) (obs (os s)) (broken s) (todo s)" using inv by (simp add: sys_inv_def)
  note eof = ok_end_of_stream [OF ok fd]
  have "echo_ok (listen_fd (server s)) (obs k') (broken s) (todo s @ option_list t)"
  proof (cases x)
    case (Inl e)
    with x r ok eof contract_read_err [OF c] show ?thesis
      by (auto simp: read_client_def contract_del [OF c] option_list_def split: if_splits)
  next
    case (Inr d)
    with x have d: "obs k1 = (obs (os s))\<lparr>rcvd := append_at fd d (rcvd (obs (os s)))\<rparr>"
      using contract_read_ok [OF c] by blast
    with Inr x r ok eof ok_data [OF ok fd, of d] show ?thesis
      by (auto simp: read_client_def contract_del [OF c] option_list_def split: if_splits)
  qed
  with inv todo show ?thesis by (simp add: sys_inv_def)
qed

lemma hand_over_inv:
  assumes "sys_inv obs s" "hand s = Some t" "with_pool (Put t) (s\<lparr>hand := None\<rparr>) = Some s'"
  shows "sys_inv obs s'"
  using assms by (auto simp: sys_inv_one with_pool_def option_list_def)

lemma take_inv:
  assumes "sys_inv obs s" "with_pool (Take i) (s\<lparr>written := (written s)[i := 0]\<rparr>) = Some s'"
  shows "sys_inv obs s'"
proof -
  have "rest_task t 0 = t" for t by (cases t) auto
  then show ?thesis
    using assms by (auto simp: sys_inv_one with_pool_def option_list_def split: list.splits if_splits)
qed

lemma run_step_inv:
  assumes c: "kernel_contract K obs" and inv: "sys_inv obs s" and step: "run_step K 0 s = Some s'"
  shows "sys_inv obs s'"
proof -
  obtain x w where xw: "busy (pool (server s)) = [x]" "written s = [w]"
    and ok: "echo_ok (listen_fd (server s)) (obs (os s)) (broken s)
       (option_list (map_option (\<lambda>t. rest_task t w) x) @ queue (pool (server s)) @ option_list (hand s))"
    using inv by (auto simp: sys_inv_one)
  let ?rest = "queue (pool (server s)) @ option_list (hand s)"
  obtain t where t: "x = Some t" using step xw by (auto simp: run_step_def split: option.splits)
  show ?thesis
  proof (cases t)
    case (CloseTask fd)
    with t xw step ok_close [of "listen_fd (server s)" "obs (os s)" "broken s" fd ?rest] ok show ?thesis
      by (auto simp: run_step_def with_pool_def sys_inv_one option_list_def contract_close [OF c])
  next
    case (EchoTask fd buf)
    with ok t have ok': "echo_ok (listen_fd (server s)) (obs (os s)) (broken s) (EchoTask fd (drop w buf) # ?rest)"
      by (simp add: option_list_def)
    show ?thesis
    proof (cases "w < length buf")
      case False
      with EchoTask t xw step ok' ok_written show ?thesis
        by (auto simp: run_step_def with_pool_def sys_inv_one option_list_def)
    next
      case True
      obtain r k' where e: "echo_write K fd buf w (os s) = (r, k')" by fastforce
      show ?thesis
      proof (cases r)
        case None
        with True EchoTask t xw step e ok_give_up [OF ok'] echo_write_err [OF c] show ?thesis
          by (auto simp: run_step_def with_pool_def sys_inv_one option_list_def)
      next
        case (Some n)
        note one = echo_write_ok [OF c e [unfolded Some] less_imp_le [OF True]]
        with ok_write [OF ok', of "n - w"] have
          "echo_ok (listen_fd (server s)) (obs k') (broken s) (EchoTask fd (drop n buf) # ?rest)" by simp
        with Some True EchoTask t xw step e show ?thesis
          by (auto simp: run_step_def sys_inv_one option_list_def)
      qed
    qed
  qed
qed

lemma sys_step_inv:
  assumes c: "kernel_contract K obs" and inv: "sys_inv obs s" and a: "no_error_event a" "sys_step K obs a s = Some s'"
  shows "sys_inv obs s'"
proof -
  have len: "length (busy (pool (server s))) = 1" "length (written s) = 1" using inv by (auto simp: sys_inv_def)
  show ?thesis
    using a len inv by (cases a) (auto simp: no_error_event_def split: if_splits option.splits prod.splits
        intro: accept_inv [OF c] read_inv [OF c] hand_over_inv take_inv run_step_inv [OF c])
qed

lemma epoll_server_new_state:
  assumes c: "kernel_contract K obs" and new: "epoll_server_new K p n k = (Inr srv, k')"
  shows "listen_fd srv \<in> opened (obs k') \<and> watched (obs k') = insert (listen_fd srv) (watched (obs k)) \<and>
    busy (pool srv) = replicate n None \<and> queue (pool srv) = []"
  using new unfolding epoll_server_new_def
  by (auto split: prod.splits sum.splits simp: contract_options [OF c] abs_pool_def pool_new_def
      dest!: contract_socket_ok [OF c] contract_options(3,4) [OF c] contract_poll_create_ok [OF c] contract_add_ok [OF c])

lemma sys_start_inv:
  assumes "kernel_contract K obs" "watched (obs k) = {}" "epoll_server_new K p 1 k = (Inr srv, k')"
  shows "sys_inv obs (sys_new 1 srv k')"
  using epoll_server_new_state [OF assms(1,3)] assms(2)
  by (simp add: sys_inv_one sys_new_def option_list_def echo_ok_def tasks_ok_def echoes_ok_def)

lemma sys_reach_inv:
  assumes "kernel_contract K obs" "sys_reach K obs 1 no_error_event s"
  shows "sys_inv obs s"
  using assms(2)
proof (induction rule: sys_reach.induct)
  case (start k p srv k')
  then show ?case by (rule sys_start_inv [OF assms(1)])
next
  case (step s a s')
  then show ?case by (blast intro: sys_step_inv [OF assms(1)])
qed

subsection \<open>One worker echoes correctly\<close>



subsection \<open>Executions\<close>

definition sys_run :: "nat \<Rightarrow> sim \<Rightarrow> sys_act list \<Rightarrow> sim echo_sys option" where
  "sys_run n k as =
     (case epoll_server_new sim_kernel 8080 n k of
        (Inl _, _) \<Rightarrow> None
      | (Inr srv, k') \<Rightarrow> prun (sys_step sim_kernel simnet) as (sys_new n srv k'))"

lemma sys_run_reach:
  assumes "watched (simnet k) = {}" "sys_run n k as = Some s" "list_all allowed as"
  shows "sys_reach sim_kernel simnet n allowed s"
proof -
  obtain srv k' where new: "epoll_server_new sim_kernel 8080 n k = (Inr srv, k')"
    and run: "prun (sys_step sim_kernel simnet) as (sys_new n srv k') = Some s"
    using assms(2) by (auto simp: sys_run_def split: prod.splits sum.splits)
  have "prun (sys_step sim_kernel simnet) as t = Some s \<Longrightarrow> list_all allowed as \<Longrightarrow>
      sys_reach sim_kernel simnet n allowed t \<Longrightarrow> sys_reach sim_kernel simnet n allowed s" for t
    by (induction as arbitrary: t) (auto simp del: sys_step.simps simp: bind_eq_Some_conv intro: sys_reach.step)
  moreover have "sys_reach sim_kernel simnet n allowed (sys_new n srv k')"
    using assms(1) new by (rule sys_reach.start)
  ultimately show ?thesis using run assms(3) by blast
qed

lemmas sys_eval = sys_run_def epoll_server_new_def sys_new_def accept_step_def accept_one_def read_client_def
  run_step_def with_pool_def echo_write_def abs_pool_def pool_new_def would_block_def BUF_SIZE_def sim_defs

text \<open>One client sends two chunks and closes.\<close>

definition one_client :: sim where
  "one_client = (sim_new [3, 4, 5])\<lparr>chunks := (\<lambda>_. [])(5 := [[1], [2], []]), answers := [Inr 1, Inl EAGAIN]\<rparr>"



subsection \<open>Two workers, and error events\<close>

text \<open>
  With two workers the echo can come back in the wrong order: the second chunk of a client is written
  before the first.
\<close>

lemma two_workers_can_reorder:
  "\<exists>s. sys_reach sim_kernel simnet 2 no_error_event s \<and> client simnet s 5 \<and> broken s = {} \<and>
     rcvd (simnet (os s)) 5 = [1, 2] \<and> sent (simnet (os s)) 5 = [2, 1] \<and> todo s = []"
proof -
  let ?k = "(sim_new [3, 4, 5])\<lparr>chunks := (\<lambda>_. [])(5 := [[1], [2]])\<rparr>"
  let ?as = "[Accept, Readable 5, Hand_Over, Readable 5, Hand_Over, Take_Task 0, Take_Task 1, Run_Task 1, Run_Task 1,
    Run_Task 0, Run_Task 0]"
  obtain s where s: "sys_run 2 ?k ?as = Some s" by (simp add: numeral_2_eq_2 sys_eval)
  have "sys_reach sim_kernel simnet 2 no_error_event s"
    by (rule sys_run_reach [OF _ s]) (simp_all add: sim_new_def no_error_event_def list_all_iff)
  with s show ?thesis
    by (intro exI [of _ s]) (auto simp: numeral_2_eq_2 sys_eval client_def todo_def option_list_def)
qed

text \<open>
  C29. With two workers a close can overtake an echo: the descriptor is reused by the next client, which
  receives bytes that another client sent.
\<close>

lemma two_workers_can_leak_across_clients:
  "\<exists>s. sys_reach sim_kernel simnet 2 no_error_event s \<and> client simnet s 5 \<and>
     rcvd (simnet (os s)) 5 = [] \<and> sent (simnet (os s)) 5 = [1]"
proof -
  let ?k = "(sim_new [3, 4, 5, 5])\<lparr>chunks := (\<lambda>_. [])(5 := [[1], []])\<rparr>"
  let ?as = "[Accept, Readable 5, Hand_Over, Readable 5, Hand_Over, Take_Task 0, Take_Task 1, Run_Task 1, Accept,
    Run_Task 0]"
  obtain s where s: "sys_run 2 ?k ?as = Some s" by (simp add: numeral_2_eq_2 sys_eval)
  have "sys_reach sim_kernel simnet 2 no_error_event s"
    by (rule sys_run_reach [OF _ s]) (simp_all add: sim_new_def no_error_event_def list_all_iff)
  with s show ?thesis
    by (intro exI [of _ s]) (auto simp: numeral_2_eq_2 sys_eval client_def)
qed

text \<open>
  Even with one worker, an error event makes the network thread close a descriptor that a queued task
  still names: the next client to get it receives another client's bytes.
\<close>

lemma error_event_can_leak_across_clients:
  "\<exists>s. sys_reach sim_kernel simnet 1 (\<lambda>_. True) s \<and> client simnet s 5 \<and>
     rcvd (simnet (os s)) 5 = [] \<and> sent (simnet (os s)) 5 = [1]"
proof -
  let ?k = "(sim_new [3, 4, 5, 5])\<lparr>chunks := (\<lambda>_. [])(5 := [[1]])\<rparr>"
  let ?as = "[Accept, Readable 5, Hand_Over, Error_Event 5, Accept, Take_Task 0, Run_Task 0]"
  obtain s where s: "sys_run 1 ?k ?as = Some s" by (simp add: sys_eval)
  have "sys_reach sim_kernel simnet 1 (\<lambda>_. True) s"
    by (rule sys_run_reach [OF _ s]) (simp_all add: sim_new_def list_all_iff)
  with s show ?thesis
    by (intro exI [of _ s]) (auto simp: sys_eval client_def)
qed

end

