(* ===== verification/Server_Threads.thy ===== *)
theory Server_Threads imports
  Echo_System
begin

text \<open>
  The epoll server on the real \<open>ThreadPool\<close>: the handlers of Epoll_Server on the network thread, the workers
  of Thread_Pool with their mutex and condition variable, and the signal handler's \<open>stop\<close>, all on one kernel. A
  worker that runs a task takes one system call per step. The system refines Echo_System, so what is proved there
  holds of the threads, and it has the liveness that the queue alone cannot give.
\<close>

subsection \<open>State and steps\<close>

record 'k full =
  base :: echo_server
  threads :: "task Thread_Pool.pool"
  kst :: 'k
  outs :: "nat list"
  failed :: "fd set"

text \<open>
  \<open>base\<close> holds the descriptors (its own abstract pool is not used), \<open>outs\<close> the \<open>total_written\<close> of each worker,
  \<open>failed\<close> the clients on which a write has failed.
\<close>

definition full_new :: "nat \<Rightarrow> echo_server \<Rightarrow> 'k \<Rightarrow> 'k full" where
  "full_new n srv k = \<lparr>base = srv, threads = pool_new n, kst = k, outs = replicate n 0, failed = {}\<rparr>"

datatype full_act = Net_Accept | Net_Read fd | Net_Error fd | Pool_Act "task action"

text \<open>The network thread handles an event only when it is not inside \<open>enqueue\<close> and no signal handler runs on it.\<close>

definition net_free :: "'k full \<Rightarrow> bool" where
  "net_free f \<longleftrightarrow> net (threads f) = NIdle \<and> hnd (threads f) = HNone"

definition move_pool :: "task action \<Rightarrow> 'k full \<Rightarrow> 'k full option" where
  "move_pool a f = map_option (\<lambda>p. f\<lparr>threads := p\<rparr>) (pool_step a (threads f))"

definition full_accept :: "'k kernel \<Rightarrow> 'k full \<Rightarrow> 'k full" where
  "full_accept K f =
     f\<lparr>kst := snd (accept_one K (base f) (kst f)),
       failed := (case fst (sys_accept K True (listen_fd (base f)) (kst f)) of
                    Inl e \<Rightarrow> failed f | Inr c \<Rightarrow> failed f - {c})\<rparr>"

definition full_read :: "'k kernel \<Rightarrow> fd \<Rightarrow> 'k full \<Rightarrow> 'k full option" where
  "full_read K fd f =
     (let (t, k') = read_client K (base f) fd (kst f)
      in case t of None \<Rightarrow> Some (f\<lparr>kst := k'\<rparr>) | Some task \<Rightarrow> move_pool (Submit task) (f\<lparr>kst := k'\<rparr>))"

text \<open>One step of worker \<open>i\<close>: of its task if it runs one, otherwise of \<open>worker_loop\<close>.\<close>

definition full_work :: "'k kernel \<Rightarrow> nat \<Rightarrow> 'k full \<Rightarrow> 'k full option" where
  "full_work K i f =
     (case workers (threads f) ! i of
        WRun (CloseTask fd) \<Rightarrow> move_pool (Work i) (f\<lparr>kst := sys_close K fd (kst f)\<rparr>)
      | WRun (EchoTask fd buf) \<Rightarrow>
          if outs f ! i < length buf then
            (case echo_write K fd buf (outs f ! i) (kst f) of
               (Some n, k') \<Rightarrow> Some (f\<lparr>kst := k', outs := (outs f)[i := n]\<rparr>)
             | (None, k') \<Rightarrow> move_pool (Work i) (f\<lparr>kst := k', failed := insert fd (failed f)\<rparr>))
          else move_pool (Work i) f
      | WPop \<Rightarrow> move_pool (Work i) (f\<lparr>outs := (outs f)[i := 0]\<rparr>)
      | _ \<Rightarrow> move_pool (Work i) f)"

fun full_step :: "'k kernel \<Rightarrow> ('k \<Rightarrow> netobs) \<Rightarrow> full_act \<Rightarrow> 'k full \<Rightarrow> 'k full option" where
  "full_step K obs Net_Accept f = (if net_free f then Some (full_accept K f) else None)"
| "full_step K obs (Net_Read fd) f =
     (if net_free f \<and> fd \<in> watched (obs (kst f)) \<and> fd \<noteq> listen_fd (base f) then full_read K fd f else None)"
| "full_step K obs (Net_Error fd) f =
     (if net_free f \<and> fd \<in> watched (obs (kst f)) then Some (f\<lparr>kst := sys_close K fd (kst f)\<rparr>) else None)"
| "full_step K obs (Pool_Act a) f =
     (case a of
        Work i \<Rightarrow> if i < length (workers (threads f)) then full_work K i f else None
      | Submit t \<Rightarrow> None
      | _ \<Rightarrow> move_pool a f)"

abbreviation full_run :: "'k kernel \<Rightarrow> ('k \<Rightarrow> netobs) \<Rightarrow> full_act list \<Rightarrow> 'k full \<Rightarrow> 'k full option" where
  "full_run K obs \<equiv> prun (full_step K obs)"

definition no_net_error :: "full_act \<Rightarrow> bool" where
  "no_net_error a \<longleftrightarrow> (case a of Net_Error _ \<Rightarrow> False | _ \<Rightarrow> True)"

inductive full_reach :: "'k kernel \<Rightarrow> ('k \<Rightarrow> netobs) \<Rightarrow> nat \<Rightarrow> (full_act \<Rightarrow> bool) \<Rightarrow> 'k full \<Rightarrow> bool"
  for K obs n allowed where
  start: "watched (obs k) = {} \<Longrightarrow> epoll_server_new K p n k = (Inr srv, k') \<Longrightarrow>
     full_reach K obs n allowed (full_new n srv k')"
| step: "full_reach K obs n allowed f \<Longrightarrow> allowed a \<Longrightarrow> full_step K obs a f = Some f' \<Longrightarrow>
     full_reach K obs n allowed f'"

subsection \<open>The pool inside the server is the pool\<close>

lemma move_pool_threads: "move_pool a f = Some f' \<Longrightarrow> pool_step a (threads f) = Some (threads f')"
  by (auto simp: move_pool_def)

lemma full_work_pool:
  "i < length (workers (threads f)) \<Longrightarrow> full_work K i f = Some f' \<Longrightarrow>
     threads f' = threads f \<or> pool_step (Work i) (threads f) = Some (threads f')"
  by (auto simp: full_work_def split: wpc.splits task.splits if_splits prod.splits option.splits dest!: move_pool_threads)

lemma full_step_pool:
  "full_step K obs a f = Some f' \<Longrightarrow> threads f' = threads f \<or> (\<exists>b. pool_step b (threads f) = Some (threads f'))"
  by (cases a) (auto simp del: pool_step.simps simp: full_accept_def full_read_def
      split: if_splits action.splits prod.splits option.splits dest!: move_pool_threads full_work_pool)

lemma full_reach_pool: "full_reach K obs n allowed f \<Longrightarrow> preach n (threads f)"
proof (induction rule: full_reach.induct)
  case (start k p srv k')
  then show ?case by (simp add: full_new_def preach.start)
next
  case (step f a f')
  then show ?case using full_step_pool [OF step.hyps(3)] by (auto intro: preach.step)
qed

lemma move_pool_frame:
  "move_pool a f = Some f' \<Longrightarrow> base f' = base f \<and> kst f' = kst f \<and> outs f' = outs f \<and> failed f' = failed f"
  by (auto simp: move_pool_def)

lemma full_step_frame: "full_step K obs a f = Some f' \<Longrightarrow> base f' = base f \<and> length (outs f') = length (outs f)"
  by (cases a) (auto simp: full_accept_def full_read_def full_work_def
      split: if_splits action.splits prod.splits option.splits wpc.splits task.splits dest!: move_pool_frame)

lemma full_reach_outs: "full_reach K obs n allowed f \<Longrightarrow> length (outs f) = n"
  by (induction rule: full_reach.induct) (auto simp: full_new_def dest: full_step_frame)

lemma full_reach_workers: "full_reach K obs n allowed f \<Longrightarrow> length (workers (threads f)) = n"
  by (drule full_reach_pool, drule preach_inv, simp add: pool_inv_def)

subsection \<open>Refinement\<close>

text \<open>The task that the network thread still has to put into the queue.\<close>

fun handed :: "'a npc \<Rightarrow> 'a option" where
  "handed (NLock t) = Some t"
| "handed (NPush t) = Some t"
| "handed _ = None"

definition full_abs :: "'k full \<Rightarrow> 'k echo_sys" where
  "full_abs f = \<lparr>server = (base f)\<lparr>pool := abs_pool (threads f)\<rparr>, os = kst f, hand = handed (net (threads f)),
     written = outs f, broken = failed f\<rparr>"

text \<open>The step of Echo_System that an action amounts to, if it is one.\<close>

definition full_abs_act :: "full_act \<Rightarrow> 'k full \<Rightarrow> sys_act option" where
  "full_abs_act a f =
     (case a of
        Net_Accept \<Rightarrow> Some Accept
      | Net_Read fd \<Rightarrow> Some (Readable fd)
      | Net_Error fd \<Rightarrow> Some (Error_Event fd)
      | Pool_Act (Work i) \<Rightarrow>
          (case workers (threads f) ! i of WPop \<Rightarrow> Some (Take_Task i) | WRun t \<Rightarrow> Some (Run_Task i) | _ \<Rightarrow> None)
      | Pool_Act (Enqueue w) \<Rightarrow> (case net (threads f) of NPush t \<Rightarrow> Some Hand_Over | _ \<Rightarrow> None)
      | _ \<Rightarrow> None)"

lemma full_abs_select [simp]:
  "server (full_abs f) = (base f)\<lparr>pool := abs_pool (threads f)\<rparr>" "os (full_abs f) = kst f"
  "hand (full_abs f) = handed (net (threads f))" "written (full_abs f) = outs f" "broken (full_abs f) = failed f"
  by (simp_all add: full_abs_def)

lemma accept_one_pool [simp]: "accept_one K (srv\<lparr>pool := p\<rparr>) = accept_one K srv"
  by (auto simp: accept_one_def fun_eq_iff split: prod.splits sum.splits)

lemma read_client_pool [simp]: "read_client K (srv\<lparr>pool := p\<rparr>) = read_client K srv"
  by (auto simp: read_client_def fun_eq_iff split: prod.splits sum.splits)

lemma busy_running: "i < length (workers s) \<Longrightarrow> busy (abs_pool s) ! i = running_task (workers s ! i)"
  by (simp add: abs_pool_def)

lemma work_net: "pool_step (Work i) s = Some s' \<Longrightarrow> net s' = net s"
  by (auto split: if_splits dest: work_frame)

text \<open>A step of the pool as a step of the abstract pool inside the server.\<close>

lemma move_pool_sim:
  assumes "move_pool a f = Some f'" "abs_act a (threads f) = b"
  shows "apool_step b (pool (server (full_abs f))) = Some (pool (server (full_abs f')))"
  using pool_sim [OF move_pool_threads [OF assms(1)]] assms(2) by simp

lemma move_pool_work:
  assumes "move_pool (Work i) f = Some f'" "abs_act (Work i) (threads f) = b" "full_abs f = s"
  shows "with_pool b s = Some (full_abs f')"
proof -
  have "net (threads f') = net (threads f)" using move_pool_threads [OF assms(1)] by (rule work_net)
  with move_pool_sim [OF assms(1,2)] move_pool_frame [OF assms(1)] assms(3) show ?thesis
    by (auto simp: with_pool_def full_abs_def)
qed

lemma move_pool_silent:
  assumes "move_pool a f = Some f'" "abs_act a (threads f) = Nothing" "handed (net (threads f')) = handed (net (threads f))"
  shows "full_abs f' = full_abs f"
  using move_pool_sim [OF assms(1,2)] move_pool_frame [OF assms(1)] assms(3) by (simp add: full_abs_def)

lemma work_silent: "move_pool (Work i) f = Some f' \<Longrightarrow> abs_act (Work i) (threads f) = Nothing \<Longrightarrow> full_abs f' = full_abs f"
  by (rule move_pool_silent) (simp_all add: work_net [OF move_pool_threads])

lemma full_accept_sim: "full_abs (full_accept K f) = accept_step K (full_abs f)"
  by (simp add: full_accept_def accept_step_def full_abs_def split: sum.splits)

lemma full_read_sim:
  assumes "full_read K fd f = Some f'" "net_free f" "fd \<in> watched (obs (kst f))" "fd \<noteq> listen_fd (base f)"
  shows "sys_step K obs (Readable fd) (full_abs f) = Some (full_abs f')"
  using assms by (auto simp: full_read_def net_free_def move_pool_def full_abs_def abs_pool_def split: prod.splits option.splits)

lemma full_work_sim:
  assumes i: "i < length (workers (threads f))" and step: "full_work K i f = Some f'"
  shows "case full_abs_act (Pool_Act (Work i)) f of
      None \<Rightarrow> full_abs f' = full_abs f
    | Some b \<Rightarrow> i < length (outs f) \<longrightarrow> sys_step K obs b (full_abs f) = Some (full_abs f')"
proof (cases "workers (threads f) ! i")
  case (WRun t)
  then have act: "abs_act (Work i) (threads f) = Done i" by (simp add: abs_act_def)
  have busy: "busy (abs_pool (threads f)) ! i = Some t" using WRun i by (simp add: busy_running)
  have len: "i < length (busy (abs_pool (threads f)))" using i by (simp add: abs_pool_def)
  have "run_step K i (full_abs f) = Some (full_abs f')"
  proof (cases t)
    case (CloseTask fd)
    with step WRun have m: "move_pool (Work i) (f\<lparr>kst := sys_close K fd (kst f)\<rparr>) = Some f'"
      by (simp add: full_work_def)
    show ?thesis
      using move_pool_work [OF m _ refl] act busy CloseTask by (simp add: run_step_def full_abs_def)
  next
    case (EchoTask fd buf)
    with step WRun busy act show ?thesis
      by (auto simp: full_work_def run_step_def full_abs_def split: if_splits prod.splits option.splits
          dest!: move_pool_work [OF _ _ refl])
  qed
  with WRun len show ?thesis by (simp add: full_abs_act_def)
next
  case WPop
  then have act: "abs_act (Work i) (threads f) = Take i" by (simp add: abs_act_def)
  have m: "move_pool (Work i) (f\<lparr>outs := (outs f)[i := 0]\<rparr>) = Some f'"
    using step WPop by (simp add: full_work_def)
  show ?thesis
    using move_pool_work [OF m _ refl] act WPop by (simp add: full_abs_act_def full_abs_def)
qed (use step in \<open>auto simp: full_work_def full_abs_act_def abs_act_def dest!: work_silent\<close>)

lemma enqueue_sim:
  assumes "move_pool (Enqueue w) f = Some f'"
  shows "case full_abs_act (Pool_Act (Enqueue w)) f of
      None \<Rightarrow> full_abs f' = full_abs f
    | Some b \<Rightarrow> sys_step K obs b (full_abs f) = Some (full_abs f')"
proof (cases "net (threads f)")
  case (NPush t)
  with assms show ?thesis
    by (auto simp: move_pool_def enqueue_def full_abs_act_def full_abs_def with_pool_def abs_pool_def split: if_splits)
next
  case NIdle
  with assms show ?thesis by (auto simp: move_pool_def enqueue_def split: if_splits)
qed (use assms in \<open>auto simp: move_pool_def enqueue_def full_abs_act_def full_abs_def abs_pool_def
    map_update_same map_update split: if_splits\<close>)

lemma full_step_sim:
  assumes step: "full_step K obs a f = Some f'" and len: "length (outs f) = length (workers (threads f))"
  shows "case full_abs_act a f of
      None \<Rightarrow> full_abs f' = full_abs f
    | Some b \<Rightarrow> sys_step K obs b (full_abs f) = Some (full_abs f')"
proof (cases a)
  case Net_Accept
  with step show ?thesis
    by (auto simp: full_abs_act_def net_free_def full_accept_sim split: if_splits)
next
  case (Net_Read fd)
  with step show ?thesis
    by (auto simp: full_abs_act_def simp del: sys_step.simps intro: full_read_sim split: if_splits)
next
  case (Net_Error fd)
  with step show ?thesis
    by (auto simp: full_abs_act_def net_free_def full_abs_def split: if_splits)
next
  case (Pool_Act b)
  show ?thesis
  proof (cases b)
    case (Work i)
    with Pool_Act step have w: "i < length (workers (threads f))" "full_work K i f = Some f'" by (auto split: if_splits)
    with full_work_sim [OF w, of obs] Pool_Act Work len show ?thesis
      by (simp del: sys_step.simps split: option.splits)
  next
    case (Enqueue w)
    with Pool_Act step enqueue_sim [of w f f' K obs] show ?thesis by (simp del: sys_step.simps)
  qed (use Pool_Act step in \<open>auto simp: full_abs_act_def move_pool_def stop_def full_abs_def abs_pool_def
      map_update_same map_update split: if_splits hpc.splits\<close>)
qed

interpretation serversim: step_simulation "full_step K obs" "sys_step K obs"
  "\<lambda>f. pool_inv n (threads f) \<and> length (outs f) = n" full_abs_act full_abs for K obs n
proof (unfold_locales, goal_cases)
  case (1 f a f')
  then show ?case using full_step_pool [OF 1(2)] full_step_frame [OF 1(2)] by (auto dest: pool_step_inv)
next
  case (2 f a f')
  then show ?case by (intro full_step_sim) (simp_all add: pool_inv_def)
qed

text \<open>An error event of the abstraction is one of the threads.\<close>

lemma full_abs_act_error: "full_abs_act a f = Some b \<Longrightarrow> no_net_error a \<Longrightarrow> no_error_event b"
  by (auto simp: full_abs_act_def no_net_error_def no_error_event_def split: full_act.splits action.splits wpc.splits npc.splits)

lemma epoll_server_new_pool: "epoll_server_new K p n k = (Inr srv, k') \<Longrightarrow> pool srv = abs_pool (pool_new n)"
  by (auto simp: epoll_server_new_def split: prod.splits sum.splits)

lemma full_reach_ok: "full_reach K obs n allowed f \<Longrightarrow> pool_inv n (threads f) \<and> length (outs f) = n"
  using full_reach_pool preach_inv full_reach_outs by blast

lemma full_reach_sys:
  assumes "full_reach K obs n allowed (f :: 'k full)" "\<And>a (f :: 'k full) b. allowed a \<Longrightarrow> full_abs_act a f = Some b \<Longrightarrow> allowed' b"
  shows "sys_reach K obs n allowed' (full_abs f)"
  using assms(1)
proof (induction rule: full_reach.induct)
  case (start k p srv k')
  then have "full_abs (full_new n srv k') = sys_new n srv k'"
    by (simp add: full_abs_def full_new_def sys_new_def epoll_server_new_pool [OF start(2), symmetric], simp add: pool_new_def)
  with start show ?case by (metis sys_reach.start)
next
  case (step f a f')
  from serversim.sim [OF full_reach_ok [OF step.hyps(1)] step.hyps(3)] step.IH step.hyps(2) show ?case
    by (auto simp del: sys_step.simps split: option.splits intro: sys_reach.step assms(2))
qed

text \<open>
  C18. Every step of the server with its threads, mutex, condition variable and signal handler is a step of
  the server with a plain task queue, or changes nothing that the clients or the kernel can see.
\<close>

lemma server_threads_refine_queue:
  assumes "full_reach K obs n allowed f" "full_step K obs a f = Some f'"
  shows "case full_abs_act a f of
      None \<Rightarrow> full_abs f' = full_abs f
    | Some b \<Rightarrow> sys_step K obs b (full_abs f) = Some (full_abs f')"
  using serversim.sim [OF full_reach_ok [OF assms(1)] assms(2)] .

subsection \<open>What a client is still owed\<close>

text \<open>With one worker, a step of the worker keeps the account of every client.\<close>

definition owed :: "('k \<Rightarrow> netobs) \<Rightarrow> 'k echo_sys \<Rightarrow> fd \<Rightarrow> bool" where
  "owed obs s fd \<longleftrightarrow> rcvd (obs (os s)) fd = sent (obs (os s)) fd @ bytes_for fd (todo s)"

lemma take_owed:
  assumes "length (written s) = 1" "length (busy (pool (server s))) = 1" "owed obs s fd"
    "with_pool (Take i) (s\<lparr>written := (written s)[i := 0]\<rparr>) = Some s'"
  shows "owed obs s' fd"
proof -
  have "rest_task t 0 = t" for t by (cases t) auto
  with assms show ?thesis
    by (auto simp: owed_def with_pool_def todo_def option_list_def length_Suc_conv split: list.splits if_splits)
qed

lemma run_owed:
  assumes c: "kernel_contract K obs" and one: "busy (pool (server s)) = [Some t]" "written s = [w]"
    and step: "run_step K 0 s = Some s'" and keep: "\<And>d buf. t = EchoTask d buf \<Longrightarrow> w < length buf \<Longrightarrow> fst (echo_write K d buf w (os s)) \<noteq> None" and o: "owed obs s fd"
  shows "owed obs s' fd \<and> rcvd (obs (os s')) = rcvd (obs (os s))"
proof (cases t)
  case (CloseTask d)
  with one step o show ?thesis
    by (auto simp: run_step_def with_pool_def owed_def todo_one option_list_def contract_close [OF c])
next
  case (EchoTask d buf)
  show ?thesis
  proof (cases "w < length buf")
    case False
    with EchoTask one step o show ?thesis
      by (auto simp: run_step_def with_pool_def owed_def todo_one option_list_def)
  next
    case True
    obtain r k' where e: "echo_write K d buf w (os s) = (r, k')" by fastforce
    show ?thesis
    proof (cases r)
      case None
      with keep [OF EchoTask True] e show ?thesis by simp
    next
      case (Some n)
      note wr = echo_write_ok [OF c e [unfolded Some] less_imp_le [OF True]]
      then have "drop w buf = take (n - w) (drop w buf) @ drop n buf"
        using take_drop_glue [of w n "length buf" buf] by simp
      with wr Some True EchoTask one step e o show ?thesis
        by (auto simp: run_step_def owed_def todo_one option_list_def)
    qed
  qed
qed

subsection \<open>The workers finish\<close>

text \<open>
  Clients that read: no write fails for good, and each can send nothing only so often (\<open>patience\<close> bounds
  it); closing a descriptor does not make that worse.
\<close>

definition clients_read :: "'k kernel \<Rightarrow> ('k \<Rightarrow> bool) \<Rightarrow> ('k \<Rightarrow> nat) \<Rightarrow> bool" where
  "clients_read K good patience \<longleftrightarrow> writes_progress K good patience \<and>
     (\<forall>fd k. good k \<longrightarrow> good (sys_close K fd k) \<and> patience (sys_close K fd k) \<le> patience k)"

fun task_len :: "task \<Rightarrow> nat" where
  "task_len (EchoTask fd buf) = length buf"
| "task_len (CloseTask fd) = 0"

fun rest_len :: "task wpc \<times> nat \<Rightarrow> nat" where
  "rest_len (WRun t, w) = task_len t - w"
| "rest_len (_, w) = 0"

text \<open>What is left to do: steps of the pool, bytes to write, and writes that send nothing.\<close>

definition full_load :: "('k \<Rightarrow> nat) \<Rightarrow> 'k full \<Rightarrow> nat" where
  "full_load patience f = pool_work (threads f) + sum_list (map task_len (tasks (threads f))) +
     sum_list (map rest_len (zip (workers (threads f)) (outs f))) + patience (kst f)"

lemma sum_rest_update:
  assumes "i < length ws" "length ws = length ns"
  shows "sum_list (map rest_len (zip (ws[i := pc]) (ns[i := w]))) + rest_len (ws ! i, ns ! i) =
    sum_list (map rest_len (zip ws ns)) + rest_len (pc, w)"
proof -
  have "(zip ws ns)[i := (pc, w)] = zip (ws[i := pc]) (ns[i := w])" by (simp add: update_zip)
  moreover have "rest_len (ws ! i, ns ! i) \<le> sum_list (map rest_len (zip ws ns))"
    using assms by (intro elem_le_sum_list [of i "map rest_len (zip ws ns)", THEN order_trans [rotated]]) simp_all
  ultimately show ?thesis
    using sum_list_update [of i "map rest_len (zip ws ns)" "rest_len (pc, w)"] assms by (simp add: map_update [symmetric])
qed

text \<open>A step of a worker's loop changes its own place only, and makes no task longer.\<close>

lemma worker_loop_moves:
  assumes "worker_loop i s = Some s'" "i < length (workers s)" "workers s ! i = WPop \<Longrightarrow> w = 0"
  shows "\<exists>pc. workers s' = (workers s)[i := pc] \<and>
    sum_list (map task_len (tasks s')) + rest_len (pc, w) \<le> sum_list (map task_len (tasks s)) + rest_len (workers s ! i, w)"
  using assms by (cases "workers s ! i") (force simp: worker_loop_def split: if_splits list.splits)+

lemma worker_loop_load:
  assumes step: "worker_loop i s = Some s'" and i: "i < length (workers s)" and len: "length (workers s) = length ns"
    and w: "w = (if workers s ! i = WPop then 0 else ns ! i)"
  shows "pool_work s' + sum_list (map task_len (tasks s')) + sum_list (map rest_len (zip (workers s') (ns[i := w]))) <
    pool_work s + sum_list (map task_len (tasks s)) + sum_list (map rest_len (zip (workers s) ns))"
proof -
  obtain pc where pc: "workers s' = (workers s)[i := pc]"
    "sum_list (map task_len (tasks s')) + rest_len (pc, w) \<le> sum_list (map task_len (tasks s)) + rest_len (workers s ! i, w)"
    using worker_loop_moves [OF step i, of w] w by auto
  moreover have "rest_len (workers s ! i, w) = rest_len (workers s ! i, ns ! i)" using w by auto
  ultimately show ?thesis
    using sum_rest_update [OF i len, of pc w] work_lowers [OF i step] by simp
qed

lemma clients_read_write:
  assumes "clients_read K good patience" "good k" "off < length buf" "echo_write K fd buf off k = (r, k')"
  shows "\<exists>n. r = Some n \<and> off \<le> n \<and> good k' \<and> length buf - n + patience k' < length buf - off + patience k"
proof -
  obtain x where w: "sys_write K fd (drop off buf) k = (x, k')"
    using assms(4) by (auto simp: echo_write_def split: prod.splits sum.splits)
  with assms(1-3) have "good k' \<and> (case x of
      Inl e \<Rightarrow> would_block e \<and> patience k' < patience k
    | Inr n \<Rightarrow> patience k' \<le> patience k \<and> (n = 0 \<longrightarrow> patience k' < patience k))"
    unfolding clients_read_def writes_progress_def by (metis drop_eq_Nil2 not_less)
  with w assms(3,4) show ?thesis by (auto simp: echo_write_def split: sum.splits)
qed

lemma move_pool_load:
  assumes m: "move_pool (Work i) g = Some f'" and i: "i < length (workers (threads g))"
    and len: "length (workers (threads g)) = length (outs g)" and pop: "workers (threads g) ! i = WPop \<Longrightarrow> outs g ! i = 0"
  shows "full_load patience f' < full_load patience g"
proof -
  have s: "worker_loop i (threads g) = Some (threads f')" using move_pool_threads [OF m] by (auto split: if_splits)
  have "(outs g)[i := if workers (threads g) ! i = WPop then 0 else outs g ! i] = outs g"
    using pop by (metis list_update_id)
  with worker_loop_load [OF s i len refl] move_pool_frame [OF m] show ?thesis by (simp add: full_load_def)
qed

lemma full_work_lowers:
  assumes k: "clients_read K good patience" "good (kst f)" and i: "i < length (workers (threads f))"
    and len: "length (workers (threads f)) = length (outs f)" and step: "full_work K i f = Some f'"
  shows "good (kst f') \<and> failed f' = failed f \<and> full_load patience f' < full_load patience f"
proof (cases "workers (threads f) ! i")
  case (WRun t)
  show ?thesis
  proof (cases t)
    case (CloseTask fd)
    let ?g = "f\<lparr>kst := sys_close K fd (kst f)\<rparr>"
    have m: "move_pool (Work i) ?g = Some f'" using step WRun CloseTask by (simp add: full_work_def)
    have "full_load patience ?g \<le> full_load patience f" using k by (simp add: full_load_def clients_read_def)
    moreover have "full_load patience f' < full_load patience ?g"
      by (rule move_pool_load [OF m]) (use i len WRun in simp_all)
    ultimately have "full_load patience f' < full_load patience f" by simp
    with move_pool_frame [OF m] k show ?thesis by (simp add: clients_read_def)
  next
    case (EchoTask fd buf)
    show ?thesis
    proof (cases "outs f ! i < length buf")
      case True
      obtain r k' where e: "echo_write K fd buf (outs f ! i) (kst f) = (r, k')" by fastforce
      from clients_read_write [OF k True e] obtain n where n: "r = Some n" "good k'"
        "length buf - n + patience k' < length buf - outs f ! i + patience (kst f)" by blast
      with step WRun EchoTask True e have f': "f' = f\<lparr>kst := k', outs := (outs f)[i := n]\<rparr>" by (simp add: full_work_def)
      have "(workers (threads f))[i := WRun t] = workers (threads f)" using WRun by (metis list_update_id)
      with n sum_rest_update [OF i len, of "WRun t" n] WRun EchoTask show ?thesis
        by (simp add: f' full_load_def)
    next
      case False
      with step WRun EchoTask have m: "move_pool (Work i) f = Some f'" by (simp add: full_work_def)
      with move_pool_frame [OF m] move_pool_load [OF m i len] k WRun show ?thesis by simp
    qed
  qed
next
  case WPop
  let ?g = "f\<lparr>outs := (outs f)[i := 0]\<rparr>"
  have m: "move_pool (Work i) ?g = Some f'" using step WPop by (simp add: full_work_def)
  have "full_load patience f' < full_load patience ?g" by (rule move_pool_load [OF m]) (use i len in simp_all)
  moreover have "full_load patience ?g = full_load patience f"
  proof -
    have "(workers (threads f))[i := WPop] = workers (threads f)" using WPop by (metis list_update_id)
    with sum_rest_update [OF i len, of WPop 0] WPop show ?thesis by (simp add: full_load_def)
  qed
  ultimately show ?thesis using move_pool_frame [OF m] k by simp
qed (use step move_pool_frame [of "Work i" f f'] move_pool_load [of i f f', OF _ i len] k in \<open>simp_all add: full_work_def\<close>)

text \<open>
  The states from which only the workers have to move: the pool runs, the network thread is not inside
  \<open>enqueue\<close>, and the clients read.
\<close>

definition full_busy :: "'k kernel \<Rightarrow> nat \<Rightarrow> ('k \<Rightarrow> bool) \<Rightarrow> ('k \<Rightarrow> nat) \<Rightarrow> 'k full \<Rightarrow> bool" where
  "full_busy K n good patience f \<longleftrightarrow>
     clients_read K good patience \<and> good (kst f) \<and> pool_idle n (threads f) \<and> length (outs f) = n"

lemma pool_idle_workers: "pool_idle n s \<Longrightarrow> length (workers s) = n"
  unfolding pool_idle_def by (elim conjE, drule preach_inv, simp add: pool_inv_def)

lemma full_work_moves: "pool_step (Work i) (threads f) \<noteq> None \<Longrightarrow> full_work K i f \<noteq> None"
  by (auto simp: full_work_def move_pool_def split: wpc.splits task.splits prod.splits option.splits)

lemma full_busy_work:
  assumes "full_busy K n good patience f" "full_step K obs (Pool_Act (Work i)) f = Some f'"
  shows "full_busy K n good patience f' \<and> full_load patience f' < full_load patience f \<and> failed f' = failed f"
proof -
  have i: "i < length (workers (threads f))" "full_work K i f = Some f'" using assms(2) by (auto split: if_splits)
  have b: "clients_read K good patience" "good (kst f)" "pool_idle n (threads f)" "length (outs f) = n"
    using assms(1) by (simp_all add: full_busy_def)
  then have "length (workers (threads f)) = length (outs f)" using pool_idle_workers by simp
  note low = full_work_lowers [OF b(1,2) i(1) this i(2)]
  have "pool_idle n (threads f')" using full_work_pool [OF i] b(3) idle_step by auto
  with low b full_step_frame [OF assms(2)] show ?thesis by (simp add: full_busy_def)
qed

interpretation serverdrain: draining "full_step K obs" "\<lambda>a. \<exists>i<n. a = Pool_Act (Work i)"
  "full_busy K n good patience" "\<lambda>f. pool_drained (threads f)" "full_load patience" for K obs n good patience
proof (unfold_locales, goal_cases)
  case (1 f a f')
  then show ?case by (auto simp del: full_step.simps dest: full_busy_work)
next
  case (2 f a f')
  then show ?case by (auto simp del: full_step.simps dest: full_busy_work)
next
  case (3 f)
  then have idle: "pool_idle n (threads f)" by (simp add: full_busy_def)
  then obtain i p where i: "i < n" "pool_step (Work i) (threads f) = Some p" using idle_progress [OF idle 3(2)] by auto
  then have "full_work K i f \<noteq> None" by (intro full_work_moves) simp
  with i(1) pool_idle_workers [OF idle] show ?case by (intro exI [of _ "Pool_Act (Work i)"]) auto
qed

lemma with_pool_os: "with_pool b s = Some s' \<Longrightarrow> os s' = os s"
  by (auto simp: with_pool_def)

lemma full_busy_owed:
  assumes c: "kernel_contract K obs" and b: "full_busy K 1 good patience f"
    and step: "full_step K obs (Pool_Act (Work i)) f = Some f'" and o: "owed obs (full_abs f) fd"
  shows "owed obs (full_abs f') fd \<and> rcvd (obs (kst f')) = rcvd (obs (kst f))"
proof -
  have len: "length (workers (threads f)) = 1" "length (outs f) = 1" using b pool_idle_workers by (auto simp: full_busy_def)
  have i: "i = 0" "full_work K 0 f = Some f'" using step len by (auto split: if_splits)
  have one: "length (written (full_abs f)) = 1" "length (busy (pool (server (full_abs f)))) = 1"
    using len by (simp_all add: abs_pool_def)
  note sim = full_work_sim [of 0 f K f' obs]
  show ?thesis
  proof (cases "workers (threads f) ! 0")
    case WPop
    with sim i len have w: "with_pool (Take 0) ((full_abs f)\<lparr>written := (written (full_abs f))[0 := 0]\<rparr>) = Some (full_abs f')"
      by (simp add: full_abs_act_def)
    then have "os (full_abs f') = os (full_abs f)" using with_pool_os by fastforce
    with take_owed [OF one o w] show ?thesis by simp
  next
    case (WRun t)
    with sim i len have r: "run_step K 0 (full_abs f) = Some (full_abs f')"
      by (auto simp: full_abs_act_def split: if_splits)
    have "busy (pool (server (full_abs f))) = [Some t]" "written (full_abs f) = [outs f ! 0]"
      using WRun len by (auto simp: abs_pool_def length_Suc_conv)
    moreover have "fst (echo_write K d buf (outs f ! 0) (os (full_abs f))) \<noteq> None" if "outs f ! 0 < length buf" for d buf
    proof -
      obtain x k' where "echo_write K d buf (outs f ! 0) (kst f) = (x, k')" by fastforce
      with clients_read_write [OF _ _ that this, of good patience] b show ?thesis by (auto simp: full_busy_def)
    qed
    ultimately show ?thesis using run_owed [OF c _ _ r _ o, of t "outs f ! 0"] by simp
  qed (use sim i len o in \<open>auto simp: full_abs_act_def full_abs_def\<close>)
qed

text \<open>What one worker has done for a client when it is finished.\<close>

lemma one_worker_run:
  assumes c: "kernel_contract K obs" and b: "full_busy K 1 good patience f" and o: "owed obs (full_abs f) fd"
    and run: "full_run K obs as f = Some f'" "list_all (\<lambda>a. \<exists>i<1. a = Pool_Act (Work i)) as"
  shows "owed obs (full_abs f') fd \<and> rcvd (obs (kst f')) = rcvd (obs (kst f)) \<and> failed f' = failed f"
proof -
  let ?I = "\<lambda>g. full_busy K 1 good patience g \<and> owed obs (full_abs g) fd \<and> rcvd (obs (kst g)) = rcvd (obs (kst f)) \<and>
    failed g = failed f"
  have "?I f'"
  proof (rule prun_inv_all [OF run])
    fix a g g'
    assume "?I g" "\<exists>i<1. a = Pool_Act (Work i)" "full_step K obs a g = Some g'"
    then show "?I g'"
      using full_busy_work [of K 1 good patience g obs] full_busy_owed [OF c, of good patience g] by (metis (no_types, lifting))
  qed (use b o in simp)
  then show ?thesis by simp
qed

lemma drained_todo:
  assumes "pool_drained (threads f)" "net (threads f) = NIdle"
  shows "todo (full_abs f) = []"
proof -
  have none: "b = None" if "(b, w) \<in> set (zip (busy (abs_pool (threads f))) (outs f))" for b w
    using assms(1) set_zip_leftD [OF that] by (auto simp: pool_drained_def abs_pool_def list_all_iff)
  with assms show ?thesis
    by (auto simp: todo_def pool_drained_def option_list_def abs_pool_def split: option.splits dest!: none [unfolded abs_pool_def, simplified])
qed


subsection \<open>Executions\<close>

definition full_demo :: "sim kernel \<Rightarrow> nat \<Rightarrow> sim \<Rightarrow> full_act list \<Rightarrow> sim full option" where
  "full_demo K n k as =
     (case epoll_server_new K 8080 n k of
        (Inl _, _) \<Rightarrow> None
      | (Inr srv, k') \<Rightarrow> full_run K simnet as (full_new n srv k'))"

lemma full_demo_reach:
  assumes "watched (simnet k) = {}" "full_demo K n k as = Some f" "list_all allowed as"
  shows "full_reach K simnet n allowed f"
proof -
  obtain srv k' where new: "epoll_server_new K 8080 n k = (Inr srv, k')"
    and run: "full_run K simnet as (full_new n srv k') = Some f"
    using assms(2) by (auto simp: full_demo_def split: prod.splits sum.splits)
  show ?thesis
    by (rule prun_inv_all [OF run assms(3), where I = "full_reach K simnet n allowed"])
      (use assms(1) new in \<open>blast intro: full_reach.intros\<close>)+
qed

lemmas full_eval = full_demo_def full_new_def net_free_def move_pool_def full_accept_def full_read_def full_work_def
  sys_eval pool_eval eval_nat_numeral

lemma drained_stuck: "pool_drained (threads f) \<Longrightarrow> full_step K obs (Pool_Act (Work i)) f = None"
  by (auto simp: pool_drained_def full_work_def move_pool_def worker_loop_def list_all_length)

lemma sim_clients_read: "clients_read sim_kernel sim_reads (\<lambda>s. length (answers s))"
  by (simp add: clients_read_def sim_progress, simp add: sim_reads_def sim_kernel_def)

text \<open>One client has sent its first chunk, and the network thread has put the echo task into the queue.\<close>

definition one_chunk :: "full_act list" where
  "one_chunk = [Net_Accept, Net_Read 5, Pool_Act (Enqueue 0), Pool_Act (Enqueue 0), Pool_Act (Enqueue 0), Pool_Act (Enqueue 0)]"

lemma server_threads_refine_queue_witness:
  "\<exists>f f'. full_demo sim_kernel 1 one_client (take 3 one_chunk) = Some f \<and>
     full_step sim_kernel simnet (Pool_Act (Enqueue 0)) f = Some f' \<and>
     sys_step sim_kernel simnet Hand_Over (full_abs f) = Some (full_abs f')"
proof -
  obtain f where f: "full_demo sim_kernel 1 one_client (take 3 one_chunk) = Some f"
    by (simp add: one_client_def one_chunk_def full_eval)
  then obtain f' where f': "full_step sim_kernel simnet (Pool_Act (Enqueue 0)) f = Some f'"
    and act: "full_abs_act (Pool_Act (Enqueue 0)) f = Some Hand_Over"
    by (auto simp: one_client_def one_chunk_def full_eval full_abs_act_def)
  have "full_reach sim_kernel simnet 1 (\<lambda>_. True) f"
    by (rule full_demo_reach [OF _ f]) (simp_all add: one_client_def sim_new_def list_all_iff)
  from server_threads_refine_queue [OF this f'] f f' act show ?thesis by auto
qed


end
