(* ===== verification/Echo_Workers.thy ===== *)
theory Echo_Workers imports
  Server_Threads
begin

text \<open>
  Any number of workers. The order of the echo is lost (Echo_System shows how), but while the clients stay
  connected no byte is: what was read from a client is, as a multiset, what was written to it together with what the tasks
  still hold; and when the workers are done it has all been written.
\<close>

subsection \<open>Clients that stay connected\<close>

text \<open>A read has data, or would block: no end of stream and no error.\<close>

definition stay_connected :: "'k kernel \<Rightarrow> bool" where
  "stay_connected K \<longleftrightarrow> (\<forall>fd k. case fst (sys_read K fd BUF_SIZE k) of Inl e \<Rightarrow> would_block e | Inr d \<Rightarrow> d \<noteq> [])"

lemma connected_read:
  assumes "kernel_contract K obs" "stay_connected K" "read_client K srv fd k = (t, k')"
  shows "(t = None \<and> obs k' = obs k) \<or>
    (\<exists>d. t = Some (EchoTask fd d) \<and> obs k' = (obs k)\<lparr>rcvd := append_at fd d (rcvd (obs k))\<rparr>)"
proof (cases "sys_read K fd BUF_SIZE k")
  case (Pair r k1)
  have ok: "case r of Inl e \<Rightarrow> would_block e | Inr d \<Rightarrow> d \<noteq> []"
    using assms(2) Pair unfolding stay_connected_def by (metis fst_conv)
  show ?thesis
  proof (cases r)
    case (Inl e)
    with ok Pair assms(3) contract_read_err [OF assms(1)] show ?thesis by (auto simp: read_client_def)
  next
    case (Inr d)
    with ok Pair assms(3) contract_read_ok [OF assms(1)] show ?thesis by (auto simp: read_client_def)
  qed
qed

subsection \<open>The bytes that the workers hold\<close>

definition part :: "fd \<Rightarrow> task option \<times> nat \<Rightarrow> byte list" where
  "part fd = (\<lambda>(b, w). case b of None \<Rightarrow> [] | Some t \<Rightarrow> task_bytes fd (rest_task t w))"

lemma part_simps [simp]:
  "part fd (None, w) = []" "part fd (Some (CloseTask d), w) = []"
  "part fd (Some (EchoTask d buf), w) = (if d = fd then drop w buf else [])"
  by (simp_all add: part_def)

lemma bytes_todo:
  "bytes_for fd (todo s) = concat (map (part fd) (zip (busy (pool (server s))) (written s))) @
     bytes_for fd (queue (pool (server s))) @ bytes_for fd (option_list (hand s))"
proof -
  have "bytes_for fd (concat (map (\<lambda>(b, w). option_list (map_option (\<lambda>t. rest_task t w) b)) xs)) = concat (map (part fd) xs)" for xs
    by (induction xs) (auto simp: part_def option_list_def split: option.splits)
  then show ?thesis by (simp add: todo_def)
qed

lemma part_update:
  assumes "i < length bs" "length bs = length ws"
  shows "mset (concat (map (part fd) (zip (bs[i := b]) (ws[i := w])))) + mset (part fd (bs ! i, ws ! i)) =
    mset (concat (map (part fd) (zip bs ws))) + mset (part fd (b, w))"
  using concat_update [of i "zip bs ws" "part fd" "(b, w)"] assms by (simp add: update_zip)

subsection \<open>The invariant of any number of workers\<close>

definition all_tasks :: "'k echo_sys \<Rightarrow> task set" where
  "all_tasks s = {t. Some t \<in> set (busy (pool (server s)))} \<union> set (queue (pool (server s))) \<union> set (option_list (hand s))"

definition conserved :: "('k \<Rightarrow> netobs) \<Rightarrow> 'k echo_sys \<Rightarrow> fd \<Rightarrow> bool" where
  "conserved obs s fd \<longleftrightarrow> mset (rcvd (obs (os s)) fd) = mset (sent (obs (os s)) fd) + mset (bytes_for fd (todo s))"

definition workers_inv :: "('k \<Rightarrow> netobs) \<Rightarrow> nat \<Rightarrow> 'k echo_sys \<Rightarrow> bool" where
  "workers_inv obs n s \<longleftrightarrow> length (busy (pool (server s))) = n \<and> length (written s) = n \<and>
     watched (obs (os s)) \<subseteq> opened (obs (os s)) \<and> listen_fd (server s) \<in> opened (obs (os s)) \<and>
     (\<forall>t\<in>all_tasks s. \<exists>d buf. t = EchoTask d buf \<and> d \<in> watched (obs (os s)) \<and> d \<noteq> listen_fd (server s)) \<and>
     (\<forall>fd\<in>watched (obs (os s)). fd \<noteq> listen_fd (server s) \<and> fd \<notin> broken s \<longrightarrow> conserved obs s fd)"

lemma task_bytes_other: "\<forall>t\<in>all_tasks s. task_fd t \<noteq> fd \<Longrightarrow> bytes_for fd (todo s) = []"
proof -
  assume none: "\<forall>t\<in>all_tasks s. task_fd t \<noteq> fd"
  have part_none: "part fd (b, w) = []" if "(b, w) \<in> set (zip (busy (pool (server s))) (written s))" for b w
  proof (cases b)
    case (Some t)
    with set_zip_leftD [OF that] none have "task_fd t \<noteq> fd" by (simp add: all_tasks_def)
    with Some show ?thesis by (cases t) simp_all
  qed simp
  have "concat (map (part fd) (zip (busy (pool (server s))) (written s))) = []"
    by (auto dest: part_none)
  moreover have "bytes_for fd (queue (pool (server s))) = []" "bytes_for fd (option_list (hand s)) = []"
    using none by (auto intro!: bytes_for_none simp: all_tasks_def)
  ultimately show ?thesis by (simp add: bytes_todo)
qed

lemma workers_accept:
  assumes c: "kernel_contract K obs" and inv: "workers_inv obs n s"
  shows "workers_inv obs n (accept_step K s)"
proof (cases "sys_accept K True (listen_fd (server s)) (os s)")
  case (Pair r k1)
  let ?t = "accept_step K s"
  have same: "todo ?t = todo s" "all_tasks ?t = all_tasks s" "server ?t = server s" "written ?t = written s"
    by (simp_all add: accept_step_def todo_def all_tasks_def)
  show ?thesis
  proof (cases r)
    case (Inl e)
    with Pair contract_accept_err [OF c] have "obs (os ?t) = obs (os s)" "broken ?t = broken s"
      by (simp_all add: accept_step_def accept_one_def)
    with inv same show ?thesis by (simp add: workers_inv_def conserved_def)
  next
    case (Inr f)
    note acc = contract_accept_ok [OF c Pair [unfolded Inr]]
    obtain r2 k2 where add: "sys_poll_add K (poll_fd (server s)) f k1 = (r2, k2)" by fastforce
    have br: "broken ?t = broken s - {f}" using Pair Inr by (simp add: accept_step_def)
    have "task_fd t \<noteq> f" if "t \<in> all_tasks s" for t
      using inv acc that by (fastforce simp: workers_inv_def)
    then have nf: "bytes_for f (todo s) = []" by (intro task_bytes_other) blast
    have "f \<noteq> listen_fd (server s)" using acc inv by (auto simp: workers_inv_def)
    with inv acc nf same br Pair Inr add contract_add_err [OF c] contract_add_ok [OF c] show ?thesis
      by (cases r2) (auto simp: accept_step_def accept_one_def workers_inv_def conserved_def contract_close [OF c])
  qed
qed

lemma workers_read:
  assumes c: "kernel_contract K obs" "stay_connected K" and inv: "workers_inv obs n s"
    and fd: "fd \<in> watched (obs (os s))" "fd \<noteq> listen_fd (server s)" "hand s = None"
    and r: "read_client K (server s) fd (os s) = (t, k')"
  shows "workers_inv obs n (s\<lparr>os := k', hand := t\<rparr>)"
  using connected_read [OF c r] inv fd
  by (auto simp: workers_inv_def all_tasks_def conserved_def bytes_todo option_list_def)

lemma workers_hand_over:
  assumes "workers_inv obs n s" "hand s = Some t" "with_pool (Put t) (s\<lparr>hand := None\<rparr>) = Some s'"
  shows "workers_inv obs n s'"
  using assms by (auto simp: with_pool_def workers_inv_def all_tasks_def conserved_def bytes_todo option_list_def)

text \<open>A step of worker \<open>i\<close> changes the bytes that are held by what it changes at place \<open>i\<close>.\<close>

lemma todo_update:
  assumes "i < length (busy (pool (server s)))" "length (written s) = length (busy (pool (server s)))"
    and "busy (pool (server s')) = (busy (pool (server s)))[i := b]" "written s' = (written s)[i := w]" "hand s' = hand s"
  shows "mset (bytes_for fd (todo s')) + mset (part fd (busy (pool (server s)) ! i, written s ! i)) +
      mset (bytes_for fd (queue (pool (server s)))) =
    mset (bytes_for fd (todo s)) + mset (part fd (b, w)) + mset (bytes_for fd (queue (pool (server s'))))"
  using part_update [OF assms(1) assms(2) [symmetric], of fd b w] assms(3-5) by (simp add: bytes_todo)

lemma all_tasks_update:
  "busy (pool (server s')) = (busy (pool (server s)))[i := b] \<Longrightarrow> hand s' = hand s \<Longrightarrow>
     all_tasks s' \<subseteq> all_tasks s \<union> set (option_list b) \<union> set (queue (pool (server s')))"
  using set_update_subset_insert [of "busy (pool (server s))" i b] by (auto simp: all_tasks_def option_list_def)

lemma workers_take:
  assumes inv: "workers_inv obs n s" and step: "with_pool (Take i) (s\<lparr>written := (written s)[i := 0]\<rparr>) = Some s'"
  shows "workers_inv obs n s'"
proof -
  obtain t ts where q: "queue (pool (server s)) = t # ts" and i: "i < length (busy (pool (server s)))"
    and none: "busy (pool (server s)) ! i = None"
    and s': "s' = s\<lparr>written := (written s)[i := 0], server := (server s)\<lparr>pool := (pool (server s))\<lparr>queue := ts,
      busy := (busy (pool (server s)))[i := Some t]\<rparr>\<rparr>\<rparr>"
    using step by (auto simp: with_pool_def split: list.splits if_splits)
  have b: "busy (pool (server s')) = (busy (pool (server s)))[i := Some t]" "written s' = (written s)[i := 0]" "hand s' = hand s"
    using s' by simp_all
  have "rest_task t 0 = t" by (cases t) simp_all
  then have "mset (bytes_for fd (todo s')) = mset (bytes_for fd (todo s))" for fd
    using todo_update [OF i _ b, of fd] inv none q s' by (simp add: workers_inv_def part_def)
  moreover have "all_tasks s' \<subseteq> all_tasks s"
    using all_tasks_update [OF b(1,3)] q s' by (auto simp: all_tasks_def option_list_def)
  ultimately show ?thesis using inv s' by (simp add: workers_inv_def conserved_def subset_iff)
qed

lemma workers_run:
  assumes c: "kernel_contract K obs" and inv: "workers_inv obs n s" and i: "i < length (busy (pool (server s)))"
    and step: "run_step K i s = Some s'"
  shows "workers_inv obs n s'"
proof -
  have len: "length (written s) = length (busy (pool (server s)))" using inv by (simp add: workers_inv_def)
  obtain t where t: "busy (pool (server s)) ! i = Some t" using step by (auto simp: run_step_def split: option.splits)
  then have mem: "t \<in> all_tasks s" using i by (force simp: all_tasks_def in_set_conv_nth)
  with inv obtain d buf where echo: "t = EchoTask d buf" by (auto simp: workers_inv_def)
  have drop: "all_tasks u \<subseteq> all_tasks s" if "busy (pool (server u)) = (busy (pool (server s)))[i := None]"
      "hand u = hand s" "queue (pool (server u)) = queue (pool (server s))" for u
    using all_tasks_update [OF that(1,2)] that(3) by (auto simp: all_tasks_def option_list_def)
  show ?thesis
  proof (cases "written s ! i < length buf")
    case False
    with step t echo i have s': "s' = s\<lparr>server := (server s)\<lparr>pool := (pool (server s))\<lparr>busy := (busy (pool (server s)))[i := None]\<rparr>\<rparr>\<rparr>"
      by (auto simp: run_step_def with_pool_def)
    then have "mset (bytes_for fd (todo s')) = mset (bytes_for fd (todo s))" for fd
      using todo_update [OF i len, of s' None "written s ! i" fd] False t echo by (simp split: if_splits)
    with drop [of s'] inv s' show ?thesis by (simp add: workers_inv_def conserved_def subset_iff)
  next
    case True
    obtain r k' where e: "echo_write K d buf (written s ! i) (os s) = (r, k')" by fastforce
    show ?thesis
    proof (cases r)
      case None
      with step t echo i True e have s': "s' = s\<lparr>os := k', broken := insert d (broken s),
          server := (server s)\<lparr>pool := (pool (server s))\<lparr>busy := (busy (pool (server s)))[i := None]\<rparr>\<rparr>\<rparr>"
        by (auto simp: run_step_def with_pool_def)
      then have "mset (bytes_for fd (todo s')) = mset (bytes_for fd (todo s))" if "fd \<noteq> d" for fd
        using todo_update [OF i len, of s' None "written s ! i" fd] that t echo by simp
      moreover have "obs k' = obs (os s)" using e None echo_write_err [OF c] by blast
      ultimately show ?thesis using drop [of s'] inv s' by (simp add: workers_inv_def conserved_def subset_iff)
    next
      case (Some m)
      with step t echo i True e have s': "s' = s\<lparr>os := k', written := (written s)[i := m]\<rparr>" by (simp add: run_step_def)
      let ?new = "take (m - written s ! i) (drop (written s ! i) buf)"
      note wr = echo_write_ok [OF c e [unfolded Some] less_imp_le [OF True]]
      have "drop (written s ! i) buf = ?new @ drop m buf"
        using take_drop_glue [of "written s ! i" m "length buf" buf] wr by simp
      then have glue: "mset (drop (written s ! i) buf) = mset ?new + mset (drop m buf)" by (metis mset_append)
      have same: "(busy (pool (server s)))[i := Some t] = busy (pool (server s))" using t by (metis list_update_id)
      have "mset (bytes_for fd (todo s)) = mset (if fd = d then ?new else []) + mset (bytes_for fd (todo s'))" for fd
        using todo_update [OF i len, of s' "Some t" m fd] s' t echo same glue by (cases "fd = d") (simp_all, metis add.commute)
      moreover have "all_tasks s' = all_tasks s" using s' by (simp add: all_tasks_def)
      ultimately show ?thesis using inv s' wr by (auto simp: workers_inv_def conserved_def ac_simps)
    qed
  qed
qed

lemma workers_step:
  assumes c: "kernel_contract K obs" "stay_connected K" and inv: "workers_inv obs n s"
    and a: "no_error_event a" "sys_step K obs a s = Some s'"
  shows "workers_inv obs n s'"
  using a inv by (cases a) (auto simp: no_error_event_def split: if_splits option.splits prod.splits
      intro: workers_accept [OF c(1)] workers_read [OF c] workers_hand_over workers_take workers_run [OF c(1)])

lemma workers_reach:
  assumes c: "kernel_contract K obs" "stay_connected K" and "sys_reach K obs n no_error_event s"
  shows "workers_inv obs n s"
  using assms(3)
proof (induction rule: sys_reach.induct)
  case (start k p srv k')
  have "concat (map (part fd) (zip (replicate n None) (replicate n 0))) = []" for fd by auto
  with epoll_server_new_state [OF c(1) start(2)] start(1) show ?case
    by (auto simp: workers_inv_def all_tasks_def conserved_def sys_new_def option_list_def bytes_todo)
next
  case (step s a s')
  then show ?case by (blast intro: workers_step [OF c])
qed

subsection \<open>The threads\<close>

lemma no_net_error_pool: "no_net_error (Pool_Act a)"
  by (simp add: no_net_error_def)


subsection \<open>An execution\<close>

text \<open>The scripted kernel with clients that stay connected: at the end of its script a read would block.\<close>

definition gentle_kernel :: "sim kernel" where
  "gentle_kernel = sim_kernel\<lparr>sys_read := (\<lambda>fd n s. case sim_read fd n s of
     (Inr d, s') \<Rightarrow> if d = [] then (Inl EAGAIN, s) else (Inr d, s') | _ \<Rightarrow> (Inl EAGAIN, s))\<rparr>"

lemma gentle_contract: "kernel_contract gentle_kernel simnet"
  using sim_contract by (simp add: kernel_contract_def read_law_def write_law_def close_law_def accept_law_def poll_law_def
      wait_law_def create_law_def option_law_def gentle_kernel_def sim_read_def split: list.splits)

lemma gentle_connected: "stay_connected gentle_kernel"
  by (auto simp: stay_connected_def gentle_kernel_def sim_read_def would_block_def split: list.splits)

lemma gentle_reads: "clients_read gentle_kernel sim_reads (\<lambda>s. length (answers s))"
proof -
  have "sys_write gentle_kernel = sys_write sim_kernel" "sys_close gentle_kernel = sys_close sim_kernel"
    by (simp_all add: gentle_kernel_def)
  then show ?thesis using sim_clients_read by (simp only: clients_read_def writes_progress_def)
qed

definition two_chunks :: "full_act list" where
  "two_chunks = one_chunk @ tl one_chunk"


end
