(* ===== verification/Uring_Server.thy ===== *)
theory Uring_Server imports
  Draining
  "HOL-Library.Multiset"
begin

text \<open>
  \<open>IoUringEchoServer\<close> of \<open>src/echo_server/flavors/iouring/server.cpp\<close>: one thread, requests allocated on
  the heap and handed to the kernel as the user data of submission entries, and given back by completions. liburing
  and the kernel are modelled by what they are documented to do: the submission queue has a fixed number of
  entries, \<open>io_uring_submit\<close> hands some or all of them over, and every entry handed over completes once, with a
  result and the bytes that were received.
\<close>

subsection \<open>State\<close>

datatype uop = ACCEPT | RECV | SEND

record request =
  op :: uop
  client_fd :: fd
  rbuf :: "byte list"
  rlen :: nat

text \<open>
  A submission entry and the address of its request. \<open>Send_Sqe\<close> has a flag for the zero-copy operation,
  which only the other flavour uses.
\<close>

datatype sqe = Accept_Sqe nat fd | Recv_Sqe nat fd nat | Send_Sqe bool nat fd nat

fun sqe_ptr :: "sqe \<Rightarrow> nat" where
  "sqe_ptr (Accept_Sqe p l) = p"
| "sqe_ptr (Recv_Sqe p c n) = p"
| "sqe_ptr (Send_Sqe z p c n) = p"

text \<open>
  \<open>heap\<close>, \<open>next_req\<close>: the allocated requests and the next free address. \<open>sq\<close>: entries prepared but not
  submitted, \<open>inflight\<close>: entries that the kernel works on. The last fields record what happens: the open client
  descriptors, the bytes received from and sent to each since it was accepted, the clients on which a send
  was not complete, and whether a freed request was used.
\<close>

record uring =
  heap :: "nat \<Rightarrow> request option"
  next_req :: nat
  sq :: "sqe list"
  inflight :: "sqe list"
  depth :: nat
  accept_pending :: bool
  lfd :: fd
  conns :: "fd set"
  got :: "fd \<Rightarrow> byte list"
  put :: "fd \<Rightarrow> byte list"
  short :: "fd set"
  ub :: bool

definition QUEUE_DEPTH :: nat where "QUEUE_DEPTH = 256"

definition eagain :: int where "eagain = 11"

definition uring_new :: "nat \<Rightarrow> fd \<Rightarrow> uring" where
  "uring_new entries l =
     \<lparr>heap = (\<lambda>_. None), next_req = 0, sq = [], inflight = [], depth = entries, accept_pending = False, lfd = l,
      conns = {}, got = (\<lambda>_. []), put = (\<lambda>_. []), short = {}, ub = False\<rparr>"

definition new_request :: "request \<Rightarrow> uring \<Rightarrow> nat \<times> uring" where
  "new_request r s = (next_req s, s\<lparr>heap := (heap s)(next_req s \<mapsto> r), next_req := Suc (next_req s)\<rparr>)"

definition delete_request :: "nat \<Rightarrow> uring \<Rightarrow> uring" where
  "delete_request p s = s\<lparr>heap := (heap s)(p := None)\<rparr>"

definition close_conn :: "fd \<Rightarrow> uring \<Rightarrow> uring" where
  "close_conn c s = s\<lparr>conns := conns s - {c}\<rparr>"

text \<open>\<open>io_uring_get_sqe\<close> has an entry to give unless the queue is full.\<close>

definition sq_room :: "uring \<Rightarrow> bool" where
  "sq_room s \<longleftrightarrow> length (sq s) < depth s"

definition prep :: "sqe \<Rightarrow> uring \<Rightarrow> uring" where
  "prep e s = s\<lparr>sq := sq s @ [e]\<rparr>"

subsection \<open>The operations\<close>

definition submit_accept :: "uring \<Rightarrow> uring" where
  "submit_accept s =
     (let (p, s1) = new_request \<lparr>op = ACCEPT, client_fd = - 1, rbuf = [], rlen = 0\<rparr> s
      in if \<not> sq_room s1 then delete_request p s1
         else (prep (Accept_Sqe p (lfd s1)) s1)\<lparr>accept_pending := True\<rparr>)"

definition submit_recv :: "nat \<Rightarrow> uring \<Rightarrow> uring" where
  "submit_recv p s =
     (case heap s p of
        None \<Rightarrow> s\<lparr>ub := True\<rparr>
      | Some req \<Rightarrow> if \<not> sq_room s then delete_request p s else prep (Recv_Sqe p (client_fd req) 4096) s)"

definition submit_send :: "nat \<Rightarrow> uring \<Rightarrow> uring" where
  "submit_send p s =
     (case heap s p of
        None \<Rightarrow> s\<lparr>ub := True\<rparr>
      | Some req \<Rightarrow> if \<not> sq_room s then delete_request p s else prep (Send_Sqe False p (client_fd req) (rlen req)) s)"

definition handle_accept :: "int \<Rightarrow> uring \<Rightarrow> uring" where
  "handle_accept cfd s =
     (let s = s\<lparr>accept_pending := False\<rparr>
      in if cfd < 0 then s
         else (let (p, s1) = new_request \<lparr>op = RECV, client_fd = cfd, rbuf = [], rlen = 0\<rparr> s in submit_recv p s1))"

definition handle_recv :: "nat \<Rightarrow> int \<Rightarrow> uring \<Rightarrow> uring" where
  "handle_recv p nread s =
     (case heap s p of
        None \<Rightarrow> s\<lparr>ub := True\<rparr>
      | Some req \<Rightarrow>
          if nread \<le> 0 then
            (let s1 = (if nread = 0 then close_conn (client_fd req) s
                       else if nread \<noteq> - eagain then close_conn (client_fd req) s
                       else s)
             in delete_request p s1)
          else submit_send p (s\<lparr>heap := (heap s)(p \<mapsto> req\<lparr>op := SEND, rlen := nat nread\<rparr>)\<rparr>))"

definition handle_send :: "nat \<Rightarrow> uring \<Rightarrow> uring" where
  "handle_send p s =
     (case heap s p of
        None \<Rightarrow> s\<lparr>ub := True\<rparr>
      | Some req \<Rightarrow> submit_recv p (s\<lparr>heap := (heap s)(p \<mapsto> req\<lparr>op := RECV, rlen := 0\<rparr>)\<rparr>))"

subsection \<open>Completions\<close>

record cqe =
  cq_data :: nat
  cq_res :: int
  cq_bytes :: "byte list"

text \<open>The entry that a completion answers, and the results that the kernel may give for it.\<close>

definition answered :: "cqe \<Rightarrow> uring \<Rightarrow> sqe option" where
  "answered c s = find (\<lambda>e. sqe_ptr e = cq_data c) (inflight s)"

fun valid_result :: "cqe \<Rightarrow> uring \<Rightarrow> sqe \<Rightarrow> bool" where
  "valid_result c s (Accept_Sqe p l) \<longleftrightarrow> cq_res c \<ge> 0 \<longrightarrow> cq_res c \<notin> conns s"
| "valid_result c s (Recv_Sqe p d n) \<longleftrightarrow> length (cq_bytes c) = nat (cq_res c) \<and> nat (cq_res c) \<le> n"
| "valid_result c s (Send_Sqe z p d n) \<longleftrightarrow> nat (cq_res c) \<le> n"

text \<open>What the kernel has done when the completion appears.\<close>

fun kernel_effect :: "cqe \<Rightarrow> sqe \<Rightarrow> uring \<Rightarrow> uring" where
  "kernel_effect c (Accept_Sqe p l) s =
     (if cq_res c \<ge> 0 then
        s\<lparr>conns := insert (cq_res c) (conns s), got := (got s)(cq_res c := []), put := (put s)(cq_res c := []),
          short := short s - {cq_res c}\<rparr>
      else s)"
| "kernel_effect c (Recv_Sqe p d n) s =
     s\<lparr>heap := (heap s)(p := map_option (\<lambda>r. r\<lparr>rbuf := cq_bytes c\<rparr>) (heap s p)),
       got := (got s)(d := got s d @ cq_bytes c)\<rparr>"
| "kernel_effect c (Send_Sqe z p d n) s =
     (let m = nat (cq_res c); bytes = (case heap s p of None \<Rightarrow> [] | Some r \<Rightarrow> take n (rbuf r))
      in s\<lparr>put := (put s)(d := put s d @ take m bytes), short := (if m < n then insert d (short s) else short s)\<rparr>)"

text \<open>One turn of \<open>io_uring_for_each_cqe\<close>: the switch on the operation of the request.\<close>

definition process_cqe :: "cqe \<Rightarrow> uring \<Rightarrow> uring" where
  "process_cqe c s =
     (case heap s (cq_data c) of
        None \<Rightarrow> s\<lparr>ub := True\<rparr>
      | Some req \<Rightarrow>
          (case op req of
             ACCEPT \<Rightarrow> delete_request (cq_data c) (handle_accept (cq_res c) s)
           | RECV \<Rightarrow> handle_recv (cq_data c) (cq_res c) s
           | SEND \<Rightarrow> handle_send (cq_data c) s))"

definition complete :: "cqe \<Rightarrow> uring \<Rightarrow> uring option" where
  "complete c s =
     (case answered c s of
        None \<Rightarrow> None
      | Some e \<Rightarrow>
          if valid_result c s e
          then Some (process_cqe c ((kernel_effect c e s)\<lparr>inflight := remove1 e (inflight s)\<rparr>))
          else None)"

subsection \<open>The event loop\<close>

text \<open>\<open>io_uring_submit\<close> hands over the first \<open>taken\<close> entries.\<close>

definition io_submit :: "nat \<Rightarrow> uring \<Rightarrow> uring" where
  "io_submit taken s = s\<lparr>sq := drop taken (sq s), inflight := inflight s @ take taken (sq s)\<rparr>"

text \<open>
  One turn of the loop: \<open>wait_ret\<close> is what \<open>io_uring_wait_cqe_timeout\<close> returns, \<open>cqes\<close> the completions there
  are. \<open>None\<close> is the \<open>break\<close>, and a list of completions that the kernel cannot give. A timeout (\<open>-ETIME\<close>) or an interruption goes on to the second phase.
\<close>

datatype wait_ret = Completions "cqe list" | Timeout | Interrupted | Wait_Error int

definition phase_two :: "nat \<Rightarrow> uring \<Rightarrow> uring" where
  "phase_two taken s = io_submit taken (if \<not> accept_pending s then submit_accept s else s)"

fun loop_turn :: "wait_ret \<times> nat \<Rightarrow> uring \<Rightarrow> uring option" where
  "loop_turn (Completions cqes, taken) s = map_option (phase_two taken) (prun complete cqes s)"
| "loop_turn (Timeout, taken) s = Some (phase_two taken s)"
| "loop_turn (Interrupted, taken) s = Some (phase_two taken s)"
| "loop_turn (Wait_Error e, taken) s = None"

definition uring_event_loop :: "(wait_ret \<times> nat) list \<Rightarrow> nat \<Rightarrow> fd \<Rightarrow> uring option" where
  "uring_event_loop turns entries l = prun loop_turn turns (submit_accept (uring_new entries l))"

subsection \<open>Invariant\<close>

fun sqe_conn :: "sqe \<Rightarrow> fd list" where
  "sqe_conn (Accept_Sqe p l) = []"
| "sqe_conn (Recv_Sqe p c n) = [c]"
| "sqe_conn (Send_Sqe z p c n) = [c]"

definition conns_of :: "sqe list \<Rightarrow> fd list" where
  "conns_of xs = concat (map sqe_conn xs)"

fun is_accept :: "sqe \<Rightarrow> bool" where
  "is_accept (Accept_Sqe p l) = True"
| "is_accept _ = False"

text \<open>
  An entry agrees with its request, and with the bytes echoed so far: an armed receive means that all bytes
  received were sent, an armed send that the bytes not sent are those of its buffer.
\<close>

fun sqe_ok :: "uring \<Rightarrow> sqe \<Rightarrow> bool" where
  "sqe_ok s (Accept_Sqe p l) \<longleftrightarrow> (\<exists>r. heap s p = Some r \<and> op r = ACCEPT)"
| "sqe_ok s (Recv_Sqe p c n) \<longleftrightarrow> (\<exists>r. heap s p = Some r \<and> op r = RECV \<and> client_fd r = c) \<and> n = 4096 \<and>
     c \<in> conns s \<and> (c \<in> short s \<or> got s c = put s c)"
| "sqe_ok s (Send_Sqe z p c n) \<longleftrightarrow> (\<exists>r. heap s p = Some r \<and> op r = SEND \<and> client_fd r = c \<and> rlen r = n \<and>
     n = length (rbuf r) \<and> (c \<in> short s \<or> got s c = put s c @ rbuf r)) \<and> c \<in> conns s"

text \<open>\<open>ps\<close> are the requests in the hands of the handler that is running: one, or none.\<close>

definition owned :: "nat list \<Rightarrow> uring \<Rightarrow> bool" where
  "owned ps s \<longleftrightarrow> \<not> ub s \<and> distinct (ps @ map sqe_ptr (sq s @ inflight s)) \<and>
     dom (heap s) = set ps \<union> sqe_ptr ` set (sq s @ inflight s) \<and> (\<forall>p\<in>dom (heap s). p < next_req s) \<and>
     (\<forall>e\<in>set (sq s @ inflight s). sqe_ok s e) \<and> distinct (conns_of (sq s @ inflight s))"

definition accepts :: "uring \<Rightarrow> nat" where
  "accepts s = length (filter is_accept (sq s @ inflight s))"

definition uring_inv :: "uring \<Rightarrow> bool" where
  "uring_inv s \<longleftrightarrow> owned [] s \<and> accepts s = of_bool (accept_pending s)"

lemma conns_of_simps [simp]:
  "conns_of [] = []" "conns_of (x # xs) = sqe_conn x @ conns_of xs" "conns_of (xs @ ys) = conns_of xs @ conns_of ys"
  by (simp_all add: conns_of_def)

lemma conns_of_set: "set (conns_of xs) = (\<Union>e\<in>set xs. set (sqe_conn e))"
  by (induction xs) auto

lemma sqe_ok_heap: "sqe_ok s e \<Longrightarrow> p \<noteq> sqe_ptr e \<Longrightarrow> sqe_ok (s\<lparr>heap := (heap s)(p := v)\<rparr>) e"
  by (cases e) auto

lemma sqe_ok_close: "sqe_ok s e \<Longrightarrow> d \<notin> set (sqe_conn e) \<Longrightarrow> sqe_ok (s\<lparr>conns := conns s - {d}\<rparr>) e"
  by (cases e) auto

lemma sqe_ok_fields [simp]:
  "sqe_ok (s\<lparr>sq := a\<rparr>) e = sqe_ok s e" "sqe_ok (s\<lparr>inflight := a\<rparr>) e = sqe_ok s e"
  "sqe_ok (s\<lparr>accept_pending := b\<rparr>) e = sqe_ok s e" "sqe_ok (s\<lparr>next_req := m\<rparr>) e = sqe_ok s e"
  by (cases e; simp)+

subsection \<open>The operations keep ownership\<close>

lemma owned_delete: "owned (p # ps) s \<Longrightarrow> owned ps (delete_request p s)"
  by (auto simp: owned_def delete_request_def intro!: sqe_ok_heap)

lemma owned_new:
  assumes "owned ps s" "new_request r s = (p, s')"
  shows "owned (p # ps) s' \<and> heap s' p = Some r"
proof -
  have fresh: "next_req s \<notin> set ps \<union> sqe_ptr ` set (sq s @ inflight s)"
    using assms(1) unfolding owned_def by (metis less_irrefl)
  have "\<forall>e\<in>set (sq s @ inflight s). sqe_ok (s\<lparr>heap := (heap s)(next_req s \<mapsto> r)\<rparr>) e"
    using assms(1) fresh by (intro ballI sqe_ok_heap) (auto simp: owned_def)
  moreover have "\<forall>q\<in>dom (heap s). q < Suc (next_req s)"
    using assms(1) unfolding owned_def by (metis less_SucI)
  moreover have "p = next_req s" "s' = s\<lparr>heap := (heap s)(next_req s \<mapsto> r), next_req := Suc (next_req s)\<rparr>"
    using assms(2) by (auto simp: new_request_def)
  ultimately show ?thesis
    using assms(1) fresh by (simp add: owned_def image_Un)
qed

lemma owned_prep:
  assumes "owned (p # ps) s" "sqe_ptr e = p" "sqe_ok s e" "set (sqe_conn e) \<inter> set (conns_of (sq s @ inflight s)) = {}"
  shows "owned ps (prep e s)"
proof -
  have "distinct (sqe_conn e)" by (cases e) auto
  then show ?thesis using assms by (auto simp: owned_def prep_def)
qed

lemma submit_recv_owned:
  assumes "owned (p # ps) s" "heap s p = Some r" "op r = RECV" "client_fd r \<in> conns s"
    "client_fd r \<notin> set (conns_of (sq s @ inflight s))" "client_fd r \<in> short s \<or> got s (client_fd r) = put s (client_fd r)"
  shows "owned ps (submit_recv p s)"
  using assms owned_delete [OF assms(1)] owned_prep [OF assms(1), of "Recv_Sqe p (client_fd r) 4096"]
  by (simp add: submit_recv_def)

lemma submit_send_owned:
  assumes "owned (p # ps) s" "heap s p = Some r" "op r = SEND" "client_fd r \<in> conns s"
    "client_fd r \<notin> set (conns_of (sq s @ inflight s))" "rlen r = length (rbuf r)"
    "client_fd r \<in> short s \<or> got s (client_fd r) = put s (client_fd r) @ rbuf r"
  shows "owned ps (submit_send p s)"
  using assms owned_delete [OF assms(1)] owned_prep [OF assms(1), of "Send_Sqe False p (client_fd r) (rlen r)"]
  by (simp add: submit_send_def)

lemma owned_set_op:
  "owned (p # ps) s \<Longrightarrow> heap s p = Some r \<Longrightarrow> owned (p # ps) (s\<lparr>heap := (heap s)(p \<mapsto> r')\<rparr>)"
  by (auto simp: owned_def intro!: sqe_ok_heap)

lemma owned_pending [simp]: "owned ps (s\<lparr>accept_pending := b\<rparr>) = owned ps s"
  by (simp add: owned_def)

lemma owned_close:
  "owned ps s \<Longrightarrow> d \<notin> set (conns_of (sq s @ inflight s)) \<Longrightarrow> owned ps (close_conn d s)"
  by (auto simp: owned_def close_conn_def conns_of_set intro!: sqe_ok_close)

text \<open>The request that the handler owns, when a receive or a send of client \<open>d\<close> has completed.\<close>

definition handling :: "nat \<Rightarrow> fd \<Rightarrow> uring \<Rightarrow> bool" where
  "handling p d s \<longleftrightarrow> owned [p] s \<and> d \<in> conns s \<and> d \<notin> set (conns_of (sq s @ inflight s)) \<and>
     (\<exists>r. heap s p = Some r \<and> client_fd r = d)"

lemma handle_recv_owned:
  assumes "handling p d s" "heap s p = Some r" "length (rbuf r) = nat n" "d \<in> short s \<or> got s d = put s d @ rbuf r"
  shows "owned [] (handle_recv p n s)"
proof (cases "n \<le> 0")
  case True
  have "owned [] (delete_request p s)" "owned [] (delete_request p (close_conn d s))"
    using assms(1) owned_delete owned_close by (auto simp: handling_def)
  then show ?thesis using assms True by (auto simp: handle_recv_def handling_def Let_def)
next
  case False
  let ?s = "s\<lparr>heap := (heap s)(p \<mapsto> r\<lparr>op := SEND, rlen := nat n\<rparr>)\<rparr>"
  have "owned [p] ?s" using assms owned_set_op by (auto simp: handling_def)
  then have "owned [] (submit_send p ?s)"
    using assms by (intro submit_send_owned [where r = "r\<lparr>op := SEND, rlen := nat n\<rparr>"]) (auto simp: handling_def)
  then show ?thesis using assms False by (simp add: handle_recv_def)
qed

lemma handle_send_owned:
  assumes "handling p d s" "d \<in> short s \<or> got s d = put s d"
  shows "owned [] (handle_send p s)"
proof -
  obtain r where r: "heap s p = Some r" "client_fd r = d" using assms by (auto simp: handling_def)
  let ?s = "s\<lparr>heap := (heap s)(p \<mapsto> r\<lparr>op := RECV, rlen := 0\<rparr>)\<rparr>"
  have "owned [p] ?s" using assms owned_set_op r by (auto simp: handling_def)
  then have "owned [] (submit_recv p ?s)"
    using assms r by (intro submit_recv_owned [where r = "r\<lparr>op := RECV, rlen := 0\<rparr>"]) (auto simp: handling_def)
  then show ?thesis using r by (simp add: handle_send_def)
qed

subsection \<open>Completions keep the invariant\<close>

lemma conns_of_perm: "mset xs = mset ys \<Longrightarrow> mset (conns_of xs) = mset (conns_of ys)"
proof -
  have "mset (conns_of zs) = (\<Sum>e\<in>#mset zs. mset (sqe_conn e))" for zs by (induction zs) auto
  then show "mset xs = mset ys \<Longrightarrow> mset (conns_of xs) = mset (conns_of ys)" by simp
qed

lemma owned_take:
  assumes "owned [] s" "e \<in> set (inflight s)"
  shows "owned [sqe_ptr e] (s\<lparr>inflight := remove1 e (inflight s)\<rparr>) \<and> sqe_ok s e \<and>
    set (sqe_conn e) \<inter> set (conns_of (sq s @ remove1 e (inflight s))) = {}"
proof -
  let ?xs = "sq s @ inflight s" and ?ys = "sq s @ remove1 e (inflight s)"
  have m: "mset ?xs = mset (e # ?ys)" using assms(2) by simp
  have "mset (map sqe_ptr ?xs) = mset (map sqe_ptr (e # ?ys))" by (metis m mset_map)
  then have "distinct (map sqe_ptr (e # ?ys))" "distinct (conns_of (e # ?ys))" "set ?xs = set (e # ?ys)"
    using assms(1) mset_eq_imp_distinct_iff [OF conns_of_perm [OF m]] mset_eq_setD [OF m]
      mset_eq_imp_distinct_iff [of "map sqe_ptr ?xs" "map sqe_ptr (e # ?ys)"] by (simp_all only: owned_def) simp_all
  with assms(1) show ?thesis by (auto simp: owned_def)
qed

lemma owned_logs:
  assumes "owned ps s" "d \<notin> set (conns_of (sq s @ inflight s))"
    "\<And>c. c \<noteq> d \<Longrightarrow> g c = got s c \<and> f c = put s c \<and> (c \<in> S \<longleftrightarrow> c \<in> short s)" "conns s \<subseteq> C"
  shows "owned ps (s\<lparr>conns := C, got := g, put := f, short := S\<rparr>)"
proof -
  have "sqe_ok (s\<lparr>conns := C, got := g, put := f, short := S\<rparr>) e" if "sqe_ok s e" "d \<notin> set (sqe_conn e)" for e
    using that assms(3) [of "hd (sqe_conn e)"] assms(4) by (cases e) auto
  with assms(1,2) show ?thesis by (auto simp: owned_def conns_of_set)
qed

lemma answered_some: "answered c s = Some e \<Longrightarrow> e \<in> set (inflight s) \<and> sqe_ptr e = cq_data c"
  by (auto simp: answered_def find_Some_iff)

lemma recv_complete_owned:
  assumes "owned [] s" "e \<in> set (inflight s)" "e = Recv_Sqe p d n" "valid_result c s e" "cq_data c = p"
  shows "owned [] (process_cqe c ((kernel_effect c e s)\<lparr>inflight := remove1 e (inflight s)\<rparr>))"
proof -
  let ?t = "s\<lparr>inflight := remove1 e (inflight s)\<rparr>"
  obtain r where t: "owned [p] ?t" "d \<notin> set (conns_of (sq ?t @ inflight ?t))" "d \<in> conns s"
    and r: "heap s p = Some r" "op r = RECV" "client_fd r = d" "d \<in> short s \<or> got s d = put s d"
    using owned_take [OF assms(1,2)] assms(3) by auto
  let ?u = "(kernel_effect c e s)\<lparr>inflight := remove1 e (inflight s)\<rparr>"
  have u: "?u = (?t\<lparr>conns := conns s, got := (got s)(d := got s d @ cq_bytes c), put := put s, short := short s\<rparr>)
      \<lparr>heap := (heap s)(p \<mapsto> r\<lparr>rbuf := cq_bytes c\<rparr>)\<rparr>"
    using assms(3) r by simp
  have "owned [p] (?t\<lparr>conns := conns s, got := (got s)(d := got s d @ cq_bytes c), put := put s, short := short s\<rparr>)"
    using t by (intro owned_logs [where d = d]) auto
  from owned_set_op [OF this, of r "r\<lparr>rbuf := cq_bytes c\<rparr>"] have "owned [p] ?u" unfolding u using r(1) by simp
  then have "handling p d ?u" using t r assms(3) by (simp add: handling_def)
  then have "owned [] (handle_recv p (cq_res c) ?u)"
    using r t assms(3,4) by (intro handle_recv_owned [of p d ?u "r\<lparr>rbuf := cq_bytes c\<rparr>"]) auto
  then show ?thesis using r assms(3,5) by (simp add: process_cqe_def)
qed

lemma send_complete_owned:
  assumes "owned [] s" "e \<in> set (inflight s)" "e = Send_Sqe z p d n" "valid_result c s e" "cq_data c = p"
  shows "owned [] (process_cqe c ((kernel_effect c e s)\<lparr>inflight := remove1 e (inflight s)\<rparr>))"
proof -
  let ?t = "s\<lparr>inflight := remove1 e (inflight s)\<rparr>"
  obtain r where t: "owned [p] ?t" "d \<notin> set (conns_of (sq ?t @ inflight ?t))" "d \<in> conns s"
    and r: "heap s p = Some r" "op r = SEND" "client_fd r = d" "n = length (rbuf r)"
      "d \<in> short s \<or> got s d = put s d @ rbuf r"
    using owned_take [OF assms(1,2)] assms(3) by auto
  let ?m = "nat (cq_res c)"
  let ?u = "(kernel_effect c e s)\<lparr>inflight := remove1 e (inflight s)\<rparr>"
  let ?S = "if ?m < n then insert d (short s) else short s"
  have u: "?u = ?t\<lparr>conns := conns s, got := got s, put := (put s)(d := put s d @ take ?m (rbuf r)), short := ?S\<rparr>"
    using assms(3) r by (simp add: Let_def)
  have "owned [p] ?u" unfolding u using t by (intro owned_logs [where d = d]) auto
  then have "handling p d ?u" using t r assms(3) by (simp add: handling_def Let_def)
  moreover have "d \<in> short ?u \<or> got ?u d = put ?u d" using r assms(3,4) by (auto simp: Let_def)
  ultimately have "owned [] (handle_send p ?u)" by (rule handle_send_owned)
  then show ?thesis using r assms(3,5) by (simp add: process_cqe_def Let_def)
qed

lemma delete_other_request:
  "p \<noteq> q \<Longrightarrow> delete_request p (submit_recv q s) = submit_recv q (delete_request p s)"
  by (auto simp: delete_request_def submit_recv_def prep_def sq_room_def fun_upd_twist split: option.splits)

lemma delete_before_new:
  "new_request r (delete_request p s) = (fst (new_request r s), delete_request p (snd (new_request r s)))"
  if "p \<noteq> next_req s"
  using that by (simp add: new_request_def delete_request_def fun_upd_twist)

lemma accept_complete_owned:
  assumes "owned [] s" "e \<in> set (inflight s)" "e = Accept_Sqe p l" "valid_result c s e" "cq_data c = p"
  shows "owned [] (process_cqe c ((kernel_effect c e s)\<lparr>inflight := remove1 e (inflight s)\<rparr>))"
proof -
  let ?t = "s\<lparr>inflight := remove1 e (inflight s)\<rparr>"
  obtain r where t: "owned [p] ?t" and r: "heap s p = Some r" "op r = ACCEPT"
    using owned_take [OF assms(1,2)] assms(3) by auto
  show ?thesis
  proof (cases "cq_res c < 0")
    case True
    then show ?thesis
      using t r assms(3,5) owned_delete [of p "[]" "?t\<lparr>accept_pending := False\<rparr>"]
      by (simp add: process_cqe_def handle_accept_def)
  next
    case False
    let ?d = "cq_res c"
    let ?u = "?t\<lparr>conns := insert ?d (conns s), got := (got s)(?d := []), put := (put s)(?d := []),
        short := short s - {?d}\<rparr>"
    have d: "?d \<notin> conns s" using assms(3,4) False by simp
    have "?d \<notin> set (conns_of (sq ?t @ inflight ?t))"
    proof
      assume "?d \<in> set (conns_of (sq ?t @ inflight ?t))"
      then obtain e' where "sqe_ok ?t e'" "?d \<in> set (sqe_conn e')"
        using t unfolding conns_of_set owned_def by blast
      with d show False by (cases e') auto
    qed
    then have u: "owned [p] ?u" "?d \<notin> set (conns_of (sq ?u @ inflight ?u))"
      using t by (auto intro!: owned_logs [where d = ?d])
    let ?a = "?u\<lparr>accept_pending := False\<rparr>"
    let ?v = "delete_request p ?a"
    have v: "owned [] ?v" using u(1) owned_delete by (metis owned_pending)
    let ?r = "\<lparr>op = RECV, client_fd = ?d, rbuf = [], rlen = 0\<rparr>"
    obtain q w where w: "new_request ?r ?v = (q, w)" by fastforce
    have "owned [q] w" "heap w q = Some ?r" using owned_new [OF v w] by simp_all
    moreover have "conns w = insert ?d (conns s)" "sq w = sq s" "inflight w = remove1 e (inflight s)"
      "got w ?d = []" "put w ?d = []"
      using w by (auto simp: new_request_def delete_request_def)
    ultimately have "owned [] (submit_recv q w)"
      using u(2) by (intro submit_recv_owned [where r = ?r]) auto
    moreover have "process_cqe c ((kernel_effect c e s)\<lparr>inflight := remove1 e (inflight s)\<rparr>) = submit_recv q w"
    proof -
      have p: "p \<noteq> next_req ?a" using u(1) by (auto simp: owned_def)
      obtain q' w' where w': "new_request ?r ?a = (q', w')" by fastforce
      then have "q' = q" "w = delete_request p w'" "p \<noteq> q'"
        using w delete_before_new [OF p, of ?r] p by (auto simp: new_request_def)
      moreover have "((kernel_effect c e s)\<lparr>inflight := remove1 e (inflight s)\<rparr>)\<lparr>accept_pending := False\<rparr> = ?a"
        using False assms(3) by simp
      then have "handle_accept (cq_res c) ((kernel_effect c e s)\<lparr>inflight := remove1 e (inflight s)\<rparr>) = submit_recv q' w'"
        using False w' unfolding handle_accept_def Let_def by simp
      ultimately show ?thesis
        using False r assms(3,5) by (simp add: process_cqe_def delete_other_request)
    qed
    ultimately show ?thesis by simp
  qed
qed

lemma complete_owned:
  assumes "owned [] s" "complete c s = Some s'"
  shows "owned [] s'"
proof -
  obtain e where e: "answered c s = Some e" "valid_result c s e"
    and s': "s' = process_cqe c ((kernel_effect c e s)\<lparr>inflight := remove1 e (inflight s)\<rparr>)"
    using assms(2) by (auto simp: complete_def split: option.splits if_splits)
  note a = answered_some [OF e(1)]
  show ?thesis
  proof (cases e)
    case (Accept_Sqe p l)
    then show ?thesis unfolding s' using a by (intro accept_complete_owned [OF assms(1) _ _ e(2)]) auto
  next
    case (Recv_Sqe p d n)
    then show ?thesis unfolding s' using a by (intro recv_complete_owned [OF assms(1) _ _ e(2)]) auto
  next
    case (Send_Sqe z p d n)
    then show ?thesis unfolding s' using a by (intro send_complete_owned [OF assms(1) _ _ e(2)]) auto
  qed
qed

subsection \<open>At most one accept\<close>

lemma frame_accepts [simp]:
  "accepts (delete_request p s) = accepts s" "accept_pending (delete_request p s) = accept_pending s"
  "accepts (close_conn d s) = accepts s" "accept_pending (close_conn d s) = accept_pending s"
  "accepts (submit_recv p s) = accepts s" "accept_pending (submit_recv p s) = accept_pending s"
  "accepts (submit_send p s) = accepts s" "accept_pending (submit_send p s) = accept_pending s"
  "accepts (s\<lparr>heap := h\<rparr>) = accepts s" "accepts (s\<lparr>ub := True\<rparr>) = accepts s"
  "accepts (s\<lparr>accept_pending := b\<rparr>) = accepts s" "accepts (snd (new_request r s)) = accepts s"
  by (auto simp: accepts_def delete_request_def close_conn_def submit_recv_def submit_send_def prep_def
      new_request_def split: option.splits)

lemma frame_handlers [simp]:
  "accepts (handle_recv p n s) = accepts s" "accept_pending (handle_recv p n s) = accept_pending s"
  "accepts (handle_send p s) = accepts s" "accept_pending (handle_send p s) = accept_pending s"
  "accepts (handle_accept n s) = accepts s" "\<not> accept_pending (handle_accept n s)"
  using frame_accepts(12) [of "\<lparr>op = RECV, client_fd = n, rbuf = [], rlen = 0\<rparr>" "s\<lparr>accept_pending := False\<rparr>"]
  by (auto simp: handle_recv_def handle_send_def handle_accept_def Let_def new_request_def split: option.splits)

lemma kernel_effect_frame [simp]:
  "sq (kernel_effect c e s) = sq s" "inflight (kernel_effect c e s) = inflight s"
  "accept_pending (kernel_effect c e s) = accept_pending s"
  by (cases e; simp add: Let_def)+

lemma filter_remove1_length:
  "e \<in> set xs \<Longrightarrow> length (filter P (remove1 e xs)) + of_bool (P e) = length (filter P xs)"
  by (induction xs) auto

lemma accepts_take:
  "e \<in> set (inflight s) \<Longrightarrow>
     accepts ((kernel_effect c e s)\<lparr>inflight := remove1 e (inflight s)\<rparr>) + of_bool (is_accept e) = accepts s"
  using filter_remove1_length [of e "inflight s" is_accept] by (simp add: accepts_def)

lemma complete_inv:
  assumes "uring_inv s" "complete c s = Some s'"
  shows "uring_inv s'"
proof -
  obtain e where e: "answered c s = Some e"
    and s': "s' = process_cqe c ((kernel_effect c e s)\<lparr>inflight := remove1 e (inflight s)\<rparr>)"
    using assms(2) by (auto simp: complete_def split: option.splits if_splits)
  let ?u = "(kernel_effect c e s)\<lparr>inflight := remove1 e (inflight s)\<rparr>"
  note a = answered_some [OF e]
  have "accepts ?u + of_bool (is_accept e) = of_bool (accept_pending s)"
    using accepts_take [of e s c] a assms(1) by (simp add: uring_inv_def)
  moreover have "sqe_ok s e" using assms(1) a by (auto simp: uring_inv_def owned_def)
  ultimately have "accepts s' = of_bool (accept_pending s')"
    unfolding s' using a by (cases e) (auto simp: process_cqe_def Let_def of_bool_def split: if_splits)
  moreover have "owned [] s'" using complete_owned assms by (auto simp: uring_inv_def)
  ultimately show ?thesis by (simp add: uring_inv_def)
qed

lemma submit_accept_inv:
  assumes "uring_inv s" "\<not> accept_pending s"
  shows "uring_inv (submit_accept s)"
proof -
  let ?r = "\<lparr>op = ACCEPT, client_fd = - 1, rbuf = [], rlen = 0\<rparr>"
  obtain p s1 where n: "new_request ?r s = (p, s1)" by fastforce
  have o1: "owned [p] s1" "heap s1 p = Some ?r" using owned_new [of "[]" s ?r p s1] assms n by (auto simp: uring_inv_def)
  have a: "accepts s1 = 0" "\<not> accept_pending s1"
    using n assms frame_accepts(12) [of ?r s] by (auto simp: uring_inv_def new_request_def)
  have "owned [] (prep (Accept_Sqe p (lfd s1)) s1)" using o1 by (intro owned_prep) auto
  moreover have "accepts (prep (Accept_Sqe p (lfd s1)) s1) = 1" using a by (simp add: accepts_def prep_def)
  ultimately show ?thesis
    using n a owned_delete [OF o1(1)] by (auto simp: submit_accept_def uring_inv_def Let_def)
qed

lemma owned_perm:
  assumes "owned ps s" "mset (a @ b) = mset (sq s @ inflight s)"
  shows "owned ps (s\<lparr>sq := a, inflight := b\<rparr>)"
proof -
  have "distinct (conns_of (a @ b))"
    using assms(1) mset_eq_imp_distinct_iff [OF conns_of_perm [OF assms(2)]] by (simp only: owned_def)
  moreover have "mset (ps @ map sqe_ptr (a @ b)) = mset (ps @ map sqe_ptr (sq s @ inflight s))"
    by (metis assms(2) mset_append mset_map)
  then have "distinct (ps @ map sqe_ptr (a @ b))"
    using assms(1) mset_eq_imp_distinct_iff by (metis owned_def)
  moreover have "set (a @ b) = set (sq s @ inflight s)" using assms(2) by (rule mset_eq_setD)
  ultimately show ?thesis using assms(1) unfolding owned_def by simp
qed

lemma submit_perm: "mset (drop n xs @ ys @ take n xs) = mset (xs @ ys)"
  by (metis add.assoc add.commute append_take_drop_id mset_append)

lemma io_submit_inv: "uring_inv s \<Longrightarrow> uring_inv (io_submit n s)"
proof -
  assume inv: "uring_inv s"
  note m = submit_perm [of n "sq s" "inflight s"]
  then have "accepts (io_submit n s) = accepts s"
    unfolding accepts_def io_submit_def by (metis (no_types, lifting) mset_filter size_mset uring.select_convs(3,4)
        uring.surjective uring.update_convs(3,4))
  with inv owned_perm [OF _ m, of "[]"] show ?thesis by (simp add: uring_inv_def io_submit_def)
qed

lemma phase_two_inv: "uring_inv s \<Longrightarrow> uring_inv (phase_two n s)"
  by (simp add: phase_two_def io_submit_inv submit_accept_inv)

lemma loop_turn_inv: "loop_turn t s = Some s' \<Longrightarrow> uring_inv s \<Longrightarrow> uring_inv s'"
  by (cases "(t, s)" rule: loop_turn.cases)
    (auto intro: phase_two_inv prun_inv [where I = uring_inv] complete_inv)

lemma uring_new_inv: "uring_inv (uring_new entries l)"
  by (simp add: uring_inv_def uring_new_def owned_def accepts_def)

lemma uring_event_loop_inv: "uring_event_loop turns entries l = Some s \<Longrightarrow> uring_inv s"
  unfolding uring_event_loop_def
proof (erule prun_inv [where I = uring_inv])
  show "uring_inv (submit_accept (uring_new entries l))"
    by (intro submit_accept_inv uring_new_inv) (simp add: uring_new_def)
qed (rule loop_turn_inv)

lemma owned_conns:
  assumes "owned ps s"
  shows "set (conns_of (sq s @ inflight s)) \<subseteq> conns s"
proof -
  have "set (sqe_conn e) \<subseteq> conns s" if "sqe_ok s e" for e using that by (cases e) auto
  with assms show ?thesis unfolding owned_def conns_of_set by blast
qed

subsection \<open>Properties of every execution\<close>

text \<open>
  C9. Every allocated request is in the hands of the kernel exactly once: after any number of turns of the
  event loop no freed request has been used, the live requests are those that the queued and submitted
  entries point to, and no two entries share one. So no request leaks and none is freed twice.
\<close>

lemma uring_requests_owned:
  assumes "uring_event_loop turns entries l = Some s"
  shows "\<not> ub s \<and> dom (heap s) = sqe_ptr ` set (sq s @ inflight s) \<and> distinct (map sqe_ptr (sq s @ inflight s))"
  using uring_event_loop_inv [OF assms] by (simp add: uring_inv_def owned_def)

text \<open>
  C36. \<open>accept_pending_\<close> is true exactly when one accept is queued or submitted, there is never a second one,
  and no client has two operations at the same time.
\<close>

lemma uring_one_operation_each:
  assumes "uring_event_loop turns entries l = Some s"
  shows "length (filter is_accept (sq s @ inflight s)) = of_bool (accept_pending s) \<and>
    distinct (conns_of (sq s @ inflight s)) \<and> set (conns_of (sq s @ inflight s)) \<subseteq> conns s"
proof -
  have inv: "owned [] s" "accepts s = of_bool (accept_pending s)"
    using uring_event_loop_inv [OF assms] by (simp_all add: uring_inv_def)
  with owned_conns [OF inv(1)] show ?thesis by (simp add: owned_def accepts_def)
qed

text \<open>The bytes of a client that an armed send still has to send.\<close>

fun unsent :: "uring \<Rightarrow> sqe \<Rightarrow> byte list" where
  "unsent s (Send_Sqe z p c n) = (case heap s p of None \<Rightarrow> [] | Some r \<Rightarrow> take n (rbuf r))"
| "unsent s _ = []"

text \<open>
  C14. Echo in order: for a client with an operation under way, of which every send so far was complete, the bytes
  received are the bytes sent followed by the bytes of its armed send, if there is one.
\<close>

lemma uring_echoes_in_order:
  assumes "uring_event_loop turns entries l = Some s" "e \<in> set (sq s @ inflight s)" "sqe_conn e = [c]" "c \<notin> short s"
  shows "got s c = put s c @ unsent s e"
proof -
  have "sqe_ok s e" using uring_event_loop_inv [OF assms(1)] assms(2) by (auto simp: uring_inv_def owned_def)
  with assms(3,4) show ?thesis by (cases e) auto
qed

subsection \<open>Abandoned connections\<close>

text \<open>An open client descriptor that no request mentions.\<close>

definition abandoned :: "fd \<Rightarrow> uring \<Rightarrow> bool" where
  "abandoned c s \<longleftrightarrow> c \<in> conns s \<and> c \<notin> set (conns_of (sq s @ inflight s))"

lemma abandoned_fields [simp]:
  "abandoned c (s\<lparr>heap := h\<rparr>) = abandoned c s" "abandoned c (s\<lparr>accept_pending := b\<rparr>) = abandoned c s"
  "abandoned c (s\<lparr>next_req := m\<rparr>) = abandoned c s" "abandoned c (s\<lparr>ub := b\<rparr>) = abandoned c s"
  "abandoned c (delete_request p s) = abandoned c s" "abandoned c (snd (new_request r s)) = abandoned c s"
  by (simp_all add: abandoned_def delete_request_def new_request_def)

lemma abandoned_submit:
  "abandoned c s \<Longrightarrow> heap s p = Some r \<Longrightarrow> client_fd r \<noteq> c \<Longrightarrow> abandoned c (submit_recv p s) \<and> abandoned c (submit_send p s)"
  by (auto simp: submit_recv_def submit_send_def) (auto simp: abandoned_def prep_def)

lemma abandoned_handlers:
  assumes "abandoned c s"
  shows "heap s p = Some r \<Longrightarrow> client_fd r \<noteq> c \<Longrightarrow> abandoned c (handle_recv p n s)"
    and "heap s p = Some r \<Longrightarrow> client_fd r \<noteq> c \<Longrightarrow> abandoned c (handle_send p s)"
    and "n \<noteq> c \<Longrightarrow> abandoned c (handle_accept n s)"
proof -
  show "heap s p = Some r \<Longrightarrow> client_fd r \<noteq> c \<Longrightarrow> abandoned c (handle_send p s)"
    using assms abandoned_submit by (simp add: handle_send_def)
  show "heap s p = Some r \<Longrightarrow> client_fd r \<noteq> c \<Longrightarrow> abandoned c (handle_recv p n s)"
    using assms abandoned_submit by (simp add: handle_recv_def Let_def) (auto simp: abandoned_def close_conn_def)
  obtain q s1 where n: "new_request \<lparr>op = RECV, client_fd = n, rbuf = [], rlen = 0\<rparr> (s\<lparr>accept_pending := False\<rparr>) = (q, s1)"
    by fastforce
  then have "abandoned c s1" "heap s1 q = Some \<lparr>op = RECV, client_fd = n, rbuf = [], rlen = 0\<rparr>"
    using assms by (auto simp: new_request_def)
  then show "n \<noteq> c \<Longrightarrow> abandoned c (handle_accept n s)"
    using assms n abandoned_submit by (simp add: handle_accept_def Let_def)
qed

lemma abandoned_complete:
  assumes inv: "uring_inv s" and ab: "abandoned c s" and step: "complete q s = Some s'"
  shows "abandoned c s'"
proof -
  obtain e where e: "answered q s = Some e" "valid_result q s e"
    and s': "s' = process_cqe q ((kernel_effect q e s)\<lparr>inflight := remove1 e (inflight s)\<rparr>)"
    using step by (auto simp: complete_def split: option.splits if_splits)
  let ?u = "(kernel_effect q e s)\<lparr>inflight := remove1 e (inflight s)\<rparr>"
  note a = answered_some [OF e(1)]
  have sub: "set (conns_of (remove1 e (inflight s))) \<subseteq> set (conns_of (inflight s))"
    unfolding conns_of_set using set_remove1_subset by fastforce
  have "conns s \<subseteq> conns (kernel_effect q e s)" by (cases e) (auto simp: Let_def)
  with ab sub have u: "abandoned c ?u" by (auto simp: abandoned_def)
  have ne: "c \<notin> set (sqe_conn e)" using ab a by (auto simp: abandoned_def conns_of_set)
  have ok: "sqe_ok s e" using inv a by (auto simp: uring_inv_def owned_def)
  show ?thesis
  proof (cases e)
    case (Accept_Sqe p l)
    have "abandoned c (handle_accept (cq_res q) ?u)"
    proof (cases "cq_res q < 0")
      case True
      with u show ?thesis by (simp add: handle_accept_def Let_def)
    next
      case False
      then have "cq_res q \<noteq> c" using e(2) Accept_Sqe ab by (auto simp: abandoned_def)
      then show ?thesis by (rule abandoned_handlers(3) [OF u])
    qed
    with Accept_Sqe ok a show ?thesis unfolding s' by (auto simp: process_cqe_def)
  next
    case (Recv_Sqe p d n)
    with ok ne a show ?thesis unfolding s' using abandoned_handlers(1) [OF u] by (auto simp: process_cqe_def)
  next
    case (Send_Sqe z p d n)
    with ok ne a show ?thesis unfolding s' using abandoned_handlers(2) [OF u] by (auto simp: process_cqe_def Let_def)
  qed
qed

lemma abandoned_phase_two: "abandoned c s \<Longrightarrow> abandoned c (phase_two n s)"
proof -
  assume ab: "abandoned c s"
  have "abandoned c (submit_accept s)"
    using ab by (auto simp: submit_accept_def Let_def new_request_def delete_request_def prep_def abandoned_def)
  moreover have "abandoned c (io_submit n t) = abandoned c t" for t
    using mset_eq_setD [OF conns_of_perm [OF submit_perm [of n "sq t" "inflight t"]]]
    by (simp add: abandoned_def io_submit_def)
  ultimately show ?thesis using ab by (simp add: phase_two_def)
qed

lemma abandoned_turn:
  assumes "uring_inv s" "abandoned c s" "loop_turn t s = Some s'"
  shows "abandoned c s'"
proof -
  have "uring_inv u \<and> abandoned c u" if "prun complete cs s = Some u" for cs u
    using that
  proof (rule prun_inv)
    show "uring_inv s \<and> abandoned c s" using assms by simp
  qed (blast intro: complete_inv abandoned_complete)
  with assms show ?thesis
    by (cases "(t, s)" rule: loop_turn.cases) (auto intro: abandoned_phase_two)
qed

text \<open>
  An abandoned connection stays abandoned: once a request has been dropped without closing its client, that
  client is never read, written or closed again, whatever happens later.
\<close>

lemma uring_abandoned_forever:
  assumes "uring_event_loop turns entries l = Some s" "abandoned c s" "prun loop_turn later s = Some s'"
  shows "c \<in> conns s' \<and> c \<notin> set (conns_of (sq s' @ inflight s'))"
proof -
  have "uring_inv s' \<and> abandoned c s'"
    using assms(3)
  proof (rule prun_inv)
    show "uring_inv s \<and> abandoned c s" using assms(2) uring_event_loop_inv [OF assms(1)] by simp
  qed (blast intro: loop_turn_inv abandoned_turn)
  then show ?thesis by (simp add: abandoned_def)
qed

subsection \<open>Executions\<close>

abbreviation cq :: "nat \<Rightarrow> int \<Rightarrow> byte list \<Rightarrow> cqe" where
  "cq p res bs \<equiv> \<lparr>cq_data = p, cq_res = res, cq_bytes = bs\<rparr>"

text \<open>Client 5 is accepted, and its receive is armed.\<close>

definition accept_five :: "(wait_ret \<times> nat) list" where
  "accept_five = [(Timeout, 1), (Completions [cq 0 5 []], 2)]"

lemmas uring_eval = uring_event_loop_def accept_five_def uring_new_def submit_accept_def new_request_def delete_request_def
  close_conn_def sq_room_def prep_def submit_recv_def submit_send_def handle_accept_def handle_recv_def handle_send_def
  process_cqe_def complete_def answered_def io_submit_def phase_two_def eagain_def QUEUE_DEPTH_def

text \<open>
  Two ways in which a connection goes wrong. A receive that completes with \<open>-EAGAIN\<close> (no data yet, on a
  non-blocking socket) leaves the client open with no operation armed. A send that is not complete is taken
  for complete: the rest of the message is never sent, and the next receive is armed.
\<close>

lemma uring_drops_data_and_clients:
  "(\<exists>s. uring_event_loop (accept_five @ [(Completions [cq 1 (- eagain) []], 1)]) QUEUE_DEPTH 3 = Some s \<and>
      5 \<in> conns s \<and> 5 \<notin> set (conns_of (sq s @ inflight s)) \<and> heap s 1 = None) \<and>
   (\<exists>s. uring_event_loop (accept_five @ [(Completions [cq 1 3 [1, 2, 3]], 1), (Completions [cq 1 1 []], 1)]) QUEUE_DEPTH 3 = Some s \<and>
      got s 5 = [1, 2, 3] \<and> put s 5 = [1] \<and> Recv_Sqe 1 5 4096 \<in> set (inflight s))"
  by (simp add: uring_eval)

lemma uring_requests_owned_witness:
  "\<exists>s. uring_event_loop accept_five QUEUE_DEPTH 3 = Some s \<and> heap s 0 = None \<and>
     dom (heap s) = sqe_ptr ` set (sq s @ inflight s)"
proof -
  obtain s where s: "uring_event_loop accept_five QUEUE_DEPTH 3 = Some s" by (simp add: uring_eval)
  then have "heap s 0 = None" by (auto simp: uring_eval)
  with uring_requests_owned [OF s] s show ?thesis by blast
qed

lemma uring_one_operation_each_witness:
  "\<exists>s. uring_event_loop accept_five QUEUE_DEPTH 3 = Some s \<and> length (filter is_accept (sq s @ inflight s)) = 1"
proof -
  obtain s where s: "uring_event_loop accept_five QUEUE_DEPTH 3 = Some s" by (simp add: uring_eval)
  then have "accept_pending s" by (auto simp: uring_eval)
  with uring_one_operation_each [OF s] s show ?thesis by auto
qed

lemma uring_echoes_in_order_witness:
  "\<exists>s. uring_event_loop (accept_five @ [(Completions [cq 1 3 [1, 2, 3]], 1)]) QUEUE_DEPTH 3 = Some s \<and>
     [1, 2, 3] = put s 5 @ unsent s (Send_Sqe False 1 5 3)"
proof -
  let ?ts = "accept_five @ [(Completions [cq 1 3 [1, 2, 3]], 1)]"
  obtain s where s: "uring_event_loop ?ts QUEUE_DEPTH 3 = Some s" by (simp add: uring_eval)
  then have "Send_Sqe False 1 5 3 \<in> set (sq s @ inflight s)" "5 \<notin> short s" "got s 5 = [1, 2, 3]"
    by (auto simp: uring_eval)
  with uring_echoes_in_order [OF s, of "Send_Sqe False 1 5 3" 5] s show ?thesis by auto
qed

lemma uring_abandoned_forever_witness:
  "\<exists>s s'. uring_event_loop (accept_five @ [(Completions [cq 1 (- eagain) []], 1)]) QUEUE_DEPTH 3 = Some s \<and>
     prun loop_turn [(Timeout, 9), (Interrupted, 9)] s = Some s' \<and> 5 \<in> conns s'"
proof -
  let ?ts = "accept_five @ [(Completions [cq 1 (- eagain) []], 1)]"
  obtain s where s: "uring_event_loop ?ts QUEUE_DEPTH 3 = Some s" by (simp add: uring_eval)
  then have "abandoned 5 s" by (auto simp: uring_eval abandoned_def)
  from uring_abandoned_forever [OF s this, of "[(Timeout, 9), (Interrupted, 9)]"] s show ?thesis by auto
qed

end

