(* ===== verification/Uring_Service.thy ===== *)
theory Uring_Service imports
  Uring_Server
begin

text \<open>
  What the io_uring server guarantees when nothing goes wrong around it: its buffers are never overrun and it
  never sends bytes that it has not received; as long as the submission queue is handed over completely and
  is not overrun by one batch of completions, no open client is forgotten; and one receive and one send bring every byte back.
\<close>

subsection \<open>Bounds\<close>

definition request_ok :: "request \<Rightarrow> bool" where
  "request_ok r \<longleftrightarrow> rlen r \<le> length (rbuf r) \<and> length (rbuf r) \<le> 4096 \<and> (op r \<noteq> SEND \<longrightarrow> rlen r = 0)"

text \<open>The queue has room for what is in it, and no request holds, or announces, more bytes than its buffer has.\<close>

definition in_bounds :: "nat \<Rightarrow> uring \<Rightarrow> bool" where
  "in_bounds n s \<longleftrightarrow> depth s = n \<and> length (sq s) \<le> n \<and>
     (\<forall>p r. heap s p = Some r \<longrightarrow> request_ok r)"

lemma bounds_new: "in_bounds n (uring_new n l)"
  by (simp add: in_bounds_def uring_new_def)

lemma bounds_simps [simp]:
  "in_bounds n (s\<lparr>accept_pending := b\<rparr>) = in_bounds n s" "in_bounds n (s\<lparr>ub := b\<rparr>) = in_bounds n s"
  "in_bounds n (s\<lparr>inflight := xs\<rparr>) = in_bounds n s" "in_bounds n (close_conn c s) = in_bounds n s"
  by (simp_all add: in_bounds_def close_conn_def)

lemma bounds_delete: "in_bounds n s \<Longrightarrow> in_bounds n (delete_request p s)"
  by (simp add: in_bounds_def delete_request_def)

lemma bounds_heap:
  "in_bounds n s \<Longrightarrow> request_ok r \<Longrightarrow> in_bounds n (s\<lparr>heap := (heap s)(p \<mapsto> r)\<rparr>)"
  by (simp add: in_bounds_def)

lemma bounds_new_request:
  "in_bounds n s \<Longrightarrow> request_ok r \<Longrightarrow> in_bounds n (snd (new_request r s))"
  by (simp add: in_bounds_def new_request_def)

lemma bounds_prep: "in_bounds n s \<Longrightarrow> sq_room s \<Longrightarrow> in_bounds n (prep e s)"
  by (simp add: in_bounds_def prep_def sq_room_def)

lemma bounds_submit:
  "in_bounds n s \<Longrightarrow> in_bounds n (submit_recv p s)" "in_bounds n s \<Longrightarrow> in_bounds n (submit_send p s)"
  by (auto simp: submit_recv_def submit_send_def bounds_delete bounds_prep split: option.splits)

lemma bounds_submit_accept: "in_bounds n s \<Longrightarrow> in_bounds n (submit_accept s)"
  using bounds_new_request [of n s "\<lparr>op = ACCEPT, client_fd = - 1, rbuf = [], rlen = 0\<rparr>"]
  by (auto simp: submit_accept_def Let_def bounds_delete bounds_prep request_ok_def split: prod.splits)

lemma bounds_handle_accept: "in_bounds n s \<Longrightarrow> in_bounds n (handle_accept c s)"
  using bounds_new_request [of n "s\<lparr>accept_pending := False\<rparr>" "\<lparr>op = RECV, client_fd = c, rbuf = [], rlen = 0\<rparr>"]
  by (auto simp: handle_accept_def Let_def bounds_submit request_ok_def split: prod.splits)

lemma bounds_handle_recv:
  assumes "in_bounds n s" "\<And>r. heap s p = Some r \<Longrightarrow> nat k \<le> length (rbuf r)"
  shows "in_bounds n (handle_recv p k s)"
proof (cases "heap s p")
  case (Some r)
  have "in_bounds n (s\<lparr>heap := (heap s)(p \<mapsto> r\<lparr>op := SEND, rlen := nat k\<rparr>)\<rparr>)"
    using assms Some by (intro bounds_heap) (auto simp: in_bounds_def request_ok_def)
  with Some assms(1) show ?thesis by (auto simp: handle_recv_def Let_def bounds_delete bounds_submit)
qed (use assms in \<open>simp add: handle_recv_def\<close>)

lemma bounds_handle_send: "in_bounds n s \<Longrightarrow> in_bounds n (handle_send p s)"
proof (cases "heap s p")
  case (Some r)
  assume b: "in_bounds n s"
  then have "in_bounds n (s\<lparr>heap := (heap s)(p \<mapsto> r\<lparr>op := RECV, rlen := 0\<rparr>)\<rparr>)"
    using Some by (intro bounds_heap) (auto simp: in_bounds_def request_ok_def)
  with Some show ?thesis by (simp add: handle_send_def bounds_submit)
qed (simp add: handle_send_def)

lemma bounds_complete:
  assumes inv: "uring_inv s" and b: "in_bounds n s" and step: "complete c s = Some s'"
  shows "in_bounds n s'"
proof -
  obtain e where e: "answered c s = Some e" "valid_result c s e"
    and s': "s' = process_cqe c ((kernel_effect c e s)\<lparr>inflight := remove1 e (inflight s)\<rparr>)"
    using step by (auto simp: complete_def split: option.splits if_splits)
  let ?u = "(kernel_effect c e s)\<lparr>inflight := remove1 e (inflight s)\<rparr>"
  note a = answered_some [OF e(1)]
  have ok: "sqe_ok s e" using inv a by (auto simp: uring_inv_def owned_def)
  show ?thesis
  proof (cases e)
    case (Accept_Sqe p l)
    then have "in_bounds n ?u" using b by (simp add: in_bounds_def)
    with Accept_Sqe ok a show ?thesis
      unfolding s' by (auto simp: process_cqe_def intro!: bounds_delete bounds_handle_accept)
  next
    case (Recv_Sqe p d m)
    then obtain r where r: "heap s p = Some r" "op r = RECV" and len: "length (cq_bytes c) = nat (cq_res c)" "nat (cq_res c) \<le> 4096"
      using ok e(2) by auto
    then have "in_bounds n ?u" using b Recv_Sqe by (auto simp: in_bounds_def request_ok_def)
    with Recv_Sqe r a len show ?thesis
      unfolding s' by (auto simp: process_cqe_def intro!: bounds_handle_recv)
  next
    case (Send_Sqe z p d m)
    then have "in_bounds n ?u" using b by (simp add: in_bounds_def Let_def)
    with Send_Sqe ok a show ?thesis
      unfolding s' by (auto simp: process_cqe_def Let_def intro!: bounds_handle_send)
  qed
qed

lemma bounds_io_submit: "in_bounds n s \<Longrightarrow> in_bounds n (io_submit k s)"
  unfolding in_bounds_def io_submit_def by simp linarith

lemma bounds_phase_two: "in_bounds n s \<Longrightarrow> in_bounds n (phase_two k s)"
  by (simp add: phase_two_def bounds_io_submit bounds_submit_accept)

lemma bounds_turn:
  assumes "uring_inv s" "in_bounds n s" "loop_turn t s = Some s'"
  shows "in_bounds n s'"
proof -
  have "uring_inv u \<and> in_bounds n u" if "prun complete cs s = Some u" for cs u
    using that
  proof (rule prun_inv)
    show "uring_inv s \<and> in_bounds n s" using assms by simp
  qed (blast intro: complete_inv bounds_complete)
  with assms show ?thesis
    by (cases "(t, s)" rule: loop_turn.cases) (auto intro: bounds_phase_two)
qed

lemma uring_event_loop_bounds:
  assumes "uring_event_loop turns entries l = Some s"
  shows "uring_inv s \<and> in_bounds entries s"
  using assms unfolding uring_event_loop_def
proof (rule prun_inv)
  show "uring_inv (submit_accept (uring_new entries l)) \<and> in_bounds entries (submit_accept (uring_new entries l))"
    by (intro conjI submit_accept_inv bounds_submit_accept uring_new_inv bounds_new) (simp add: uring_new_def)
qed (blast intro: loop_turn_inv bounds_turn)

text \<open>
  C17. After any number of turns the submission queue holds at most \<open>QUEUE_DEPTH\<close> entries, no request holds more
  than the 4096 bytes of its buffer, every receive asks for exactly that buffer, and every send is for bytes
  that were received: it never reads past them.
\<close>

lemma uring_buffers_in_bounds:
  assumes "uring_event_loop turns entries l = Some s"
  shows "length (sq s) \<le> entries \<and> (\<forall>p r. heap s p = Some r \<longrightarrow> length (rbuf r) \<le> 4096) \<and>
    (\<forall>e\<in>set (sq s @ inflight s). case e of
       Accept_Sqe p d \<Rightarrow> True
     | Recv_Sqe p c n \<Rightarrow> n = 4096
     | Send_Sqe z p c n \<Rightarrow> (\<exists>r. heap s p = Some r \<and> n = length (rbuf r) \<and> n \<le> 4096))"
proof -
  have inv: "owned [] s" and b: "in_bounds entries s" using uring_event_loop_bounds [OF assms] by (auto simp: uring_inv_def)
  have small: "length (rbuf r) \<le> 4096" if "heap s p = Some r" for p r
    using b that by (simp add: in_bounds_def request_ok_def)
  have "case e of Accept_Sqe p d \<Rightarrow> True | Recv_Sqe p c n \<Rightarrow> n = 4096
     | Send_Sqe z p c n \<Rightarrow> (\<exists>r. heap s p = Some r \<and> n = length (rbuf r) \<and> n \<le> 4096)" if "sqe_ok s e" for e
    using that small by (cases e) auto
  with inv b small show ?thesis by (auto simp: owned_def in_bounds_def)
qed

lemma uring_buffers_in_bounds_witness:
  "\<exists>s. uring_event_loop (accept_five @ [(Completions [cq 1 3 [1, 2, 3]], 1)]) QUEUE_DEPTH 3 = Some s \<and>
     length (sq s) \<le> 256 \<and> (\<exists>r. heap s 1 = Some r \<and> 3 = length (rbuf r))"
proof -
  obtain s where s: "uring_event_loop (accept_five @ [(Completions [cq 1 3 [1, 2, 3]], 1)]) QUEUE_DEPTH 3 = Some s"
    by (simp add: uring_eval)
  then have "Send_Sqe False 1 5 3 \<in> set (sq s @ inflight s)" by (auto simp: uring_eval)
  with uring_buffers_in_bounds [OF s] s show ?thesis by (fastforce simp: QUEUE_DEPTH_def)
qed

subsection \<open>No client is forgotten\<close>

text \<open>Every open client has an operation queued or submitted.\<close>

definition covered :: "uring \<Rightarrow> bool" where
  "covered s \<longleftrightarrow> conns s \<subseteq> set (conns_of (sq s @ inflight s))"

lemma conns_of_remove1:
  assumes "c \<in> set (conns_of xs)" "c \<notin> set (sqe_conn e)"
  shows "c \<in> set (conns_of (remove1 e xs))"
proof -
  obtain x where x: "x \<in> set xs" "c \<in> set (sqe_conn x)" using assms(1) by (auto simp: conns_of_set)
  with assms(2) have "x \<in> set (remove1 e xs)" by (metis in_set_remove1)
  with x show ?thesis by (auto simp: conns_of_set)
qed

lemma complete_covered:
  assumes inv: "uring_inv s" and cov: "covered s" and room: "sq_room s" and step: "complete c s = Some s'"
    and res: "cq_res c \<noteq> - eagain"
  shows "covered s' \<and> length (sq s') \<le> Suc (length (sq s)) \<and> depth s' = depth s"
proof -
  obtain e where e: "answered c s = Some e" "valid_result c s e"
    and s': "s' = process_cqe c ((kernel_effect c e s)\<lparr>inflight := remove1 e (inflight s)\<rparr>)"
    using step by (auto simp: complete_def split: option.splits if_splits)
  note a = answered_some [OF e(1)]
  have ok: "sqe_ok s e" using inv a by (auto simp: uring_inv_def owned_def)
  have rest: "conns s - set (sqe_conn e) \<subseteq> set (conns_of (sq s)) \<union> set (conns_of (remove1 e (inflight s)))"
    using cov conns_of_remove1 [of _ "inflight s" e] by (auto simp: covered_def)
  have room': "length (sq s) < depth s" using room by (simp add: sq_room_def)
  show ?thesis
  proof (cases e)
    case (Accept_Sqe p l)
    with ok a room' rest show ?thesis
      unfolding s' by (auto simp: process_cqe_def handle_accept_def new_request_def submit_recv_def sq_room_def prep_def
          delete_request_def covered_def Let_def) (blast+)?
  next
    case (Recv_Sqe p d n)
    with ok a room' rest res show ?thesis
      unfolding s' by (auto simp: process_cqe_def handle_recv_def submit_send_def sq_room_def prep_def
          delete_request_def close_conn_def covered_def Let_def) (blast+)
  next
    case (Send_Sqe z p d n)
    with ok a room' rest show ?thesis
      unfolding s' by (auto simp: process_cqe_def handle_send_def submit_recv_def sq_room_def prep_def
          delete_request_def covered_def Let_def) (blast+)?
  qed
qed

lemma completions_covered:
  "prun complete cs s = Some s' \<Longrightarrow> uring_inv s \<Longrightarrow> covered s \<Longrightarrow> length (sq s) + length cs \<le> depth s \<Longrightarrow>
     list_all (\<lambda>c. cq_res c \<noteq> - eagain) cs \<Longrightarrow> covered s'"
proof (induction cs arbitrary: s)
  case (Cons c cs)
  then obtain t where t: "complete c s = Some t" "prun complete cs t = Some s'" by (auto simp: bind_eq_Some_conv)
  have "sq_room s" using Cons.prems(4) by (simp add: sq_room_def)
  with complete_covered [OF Cons.prems(2,3) _ t(1)] Cons.prems(4,5) have "covered t" "length (sq t) + length cs \<le> depth t"
    by auto
  with Cons.IH [OF t(2) complete_inv [OF Cons.prems(2) t(1)]] Cons.prems(5) show ?case by simp
qed simp

text \<open>Between two turns nothing is left unsubmitted, except before the first.\<close>

definition handed_over :: "uring \<Rightarrow> bool" where
  "handed_over s \<longleftrightarrow> sq s = [] \<or> inflight s = []"

text \<open>
  A calm turn: the submission takes everything there is, a batch has at most as many completions as the queue
  has entries, and no completion is \<open>-EAGAIN\<close>.
\<close>

fun calm :: "nat \<Rightarrow> wait_ret \<times> nat \<Rightarrow> bool" where
  "calm n (Completions cs, taken) \<longleftrightarrow> n \<le> taken \<and> length cs \<le> n \<and> list_all (\<lambda>c. cq_res c \<noteq> - eagain) cs"
| "calm n (_, taken) \<longleftrightarrow> n \<le> taken"

lemma no_completions: "prun complete cs s = Some s' \<Longrightarrow> inflight s = [] \<Longrightarrow> s' = s \<and> cs = []"
  by (cases cs) (auto simp: complete_def answered_def)

lemma phase_two_covered:
  assumes "covered s" "in_bounds n s" "n \<le> taken"
  shows "covered (phase_two taken s) \<and> handed_over (phase_two taken s)"
proof -
  let ?t = "if \<not> accept_pending s then submit_accept s else s"
  have "covered (submit_accept s)"
    using assms(1) by (auto simp: submit_accept_def Let_def new_request_def delete_request_def prep_def covered_def)
  then have t: "covered ?t" "in_bounds n ?t" using assms bounds_submit_accept by auto
  then have "length (sq ?t) \<le> taken" using assms(3) by (simp add: in_bounds_def)
  with t show ?thesis by (auto simp: phase_two_def io_submit_def covered_def handed_over_def)
qed

lemma turn_covered:
  assumes "uring_inv s" "in_bounds n s" "covered s" "handed_over s" "calm n t" "loop_turn t s = Some s'"
  shows "covered s' \<and> handed_over s'"
proof -
  have *: "covered u \<and> in_bounds n u" if "prun complete cs s = Some u" "length cs \<le> n" "list_all (\<lambda>c. cq_res c \<noteq> - eagain) cs" for cs u
  proof
    show "covered u"
    proof (cases "inflight s = []")
      case True
      with no_completions that assms(3) show ?thesis by blast
    next
      case False
      then have "sq s = []" using assms(4) by (simp add: handed_over_def)
      with completions_covered [OF that(1) assms(1,3) _ that(3)] that(2) assms(2) show ?thesis by (simp add: in_bounds_def)
    qed
    show "in_bounds n u"
      using prun_inv [OF that(1), of "\<lambda>s. uring_inv s \<and> in_bounds n s"] assms(1,2) complete_inv bounds_complete by blast
  qed
  show ?thesis
    using assms phase_two_covered by (cases "(t, s)" rule: loop_turn.cases) (auto dest!: *)
qed

text \<open>What holds between two turns when all is calm.\<close>

definition calm_inv :: "nat \<Rightarrow> uring \<Rightarrow> bool" where
  "calm_inv n s \<longleftrightarrow> uring_inv s \<and> in_bounds n s \<and> covered s \<and> handed_over s"

lemma calm_turn:
  assumes "calm_inv n s" "calm n t" "loop_turn t s = Some s'"
  shows "calm_inv n s'"
  using assms turn_covered loop_turn_inv bounds_turn unfolding calm_inv_def by blast

lemma calm_run:
  assumes "prun loop_turn ts s = Some s'" "list_all (calm n) ts" "calm_inv n s"
  shows "calm_inv n s'"
  by (rule prun_inv_all [OF assms(1,2)]) (use assms(3) calm_turn in blast)+

lemma calm_start: "calm_inv n (submit_accept (uring_new n l))"
proof -
  have "uring_inv (submit_accept (uring_new n l))" by (intro submit_accept_inv uring_new_inv) (simp add: uring_new_def)
  moreover have "in_bounds n (submit_accept (uring_new n l))" by (intro bounds_submit_accept bounds_new)
  ultimately show ?thesis
    by (auto simp: calm_inv_def covered_def handed_over_def submit_accept_def uring_new_def new_request_def
        delete_request_def prep_def Let_def)
qed

text \<open>
  C12. As long as every submission hands over the whole queue, no batch has more completions than the queue has
  entries, and no receive completes with \<open>-EAGAIN\<close>, every open client always has exactly one operation
  queued or submitted: none is forgotten, and none is served twice at a time.
\<close>

lemma uring_keeps_every_client:
  assumes "uring_event_loop turns entries l = Some s" "list_all (calm entries) turns"
  shows "set (conns_of (sq s @ inflight s)) = conns s \<and> distinct (conns_of (sq s @ inflight s))"
proof -
  have I: "calm_inv entries s"
    by (rule calm_run [OF assms(1) [unfolded uring_event_loop_def] assms(2) calm_start])
  then have o: "owned [] s" by (simp add: calm_inv_def uring_inv_def)
  with I owned_conns [OF o] show ?thesis by (auto simp: calm_inv_def covered_def owned_def)
qed

subsection \<open>The round trip of a message\<close>

lemma answered_unique:
  assumes "uring_inv s" "e \<in> set (inflight s)" "sqe_ptr e = cq_data c"
  shows "answered c s = Some e"
proof -
  have "inj_on sqe_ptr (set (inflight s))" using assms(1) by (simp add: uring_inv_def owned_def distinct_map)
  moreover obtain e' where e': "answered c s = Some e'"
    using assms(2,3) by (cases "answered c s") (auto simp: answered_def find_None_iff)
  ultimately show ?thesis using answered_some [OF e'] assms(2,3) by (metis inj_onD)
qed

lemma uring_inv_entry: "uring_inv s \<Longrightarrow> e \<in> set (inflight s) \<Longrightarrow> sqe_ok s e"
  by (simp add: uring_inv_def owned_def)

lemma phase_two_keeps:
  assumes "uring_inv s" "in_bounds n s" "n \<le> taken" "heap s p = Some r"
  shows "sq (phase_two taken s) = [] \<and> set (sq s @ inflight s) \<subseteq> set (inflight (phase_two taken s)) \<and>
    heap (phase_two taken s) p = Some r \<and> got (phase_two taken s) = got s \<and> put (phase_two taken s) = put s"
proof -
  let ?t = "if \<not> accept_pending s then submit_accept s else s"
  have "p < next_req s" using assms(1,4) by (auto simp: uring_inv_def owned_def)
  with assms(4) have "set (sq s @ inflight s) \<subseteq> set (sq ?t @ inflight ?t) \<and> heap ?t p = Some r \<and> got ?t = got s \<and> put ?t = put s"
    by (auto simp: submit_accept_def Let_def new_request_def delete_request_def prep_def)
  moreover have "in_bounds n ?t" using bounds_submit_accept assms(2) by simp
  then have "length (sq ?t) \<le> taken" using assms(3) by (simp add: in_bounds_def)
  ultimately show ?thesis by (auto simp: phase_two_def io_submit_def)
qed

text \<open>A receive with data: the send is submitted in the same turn.\<close>

lemma recv_turn:
  assumes inv: "uring_inv s" "in_bounds n s" "sq s = []" "0 < n" and e: "Recv_Sqe p c 4096 \<in> set (inflight s)"
    and bs: "bs \<noteq> []" "length bs \<le> 4096"
  shows "\<exists>s' r. loop_turn (Completions [cq p (int (length bs)) bs], n) s = Some s' \<and> sq s' = [] \<and>
    Send_Sqe False p c (length bs) \<in> set (inflight s') \<and> heap s' p = Some r \<and> rbuf r = bs \<and>
    got s' = (got s)(c := got s c @ bs) \<and> put s' = put s"
proof -
  let ?c = "cq p (int (length bs)) bs"
  obtain r where r: "heap s p = Some r" "op r = RECV" "client_fd r = c"
    using uring_inv_entry [OF inv(1) e] by auto
  have "answered ?c s = Some (Recv_Sqe p c 4096)" by (rule answered_unique [OF inv(1) e]) simp
  moreover have "depth s = n" using inv(2) by (simp add: in_bounds_def)
  ultimately obtain u where u: "complete ?c s = Some u" "Send_Sqe False p c (length bs) \<in> set (sq u @ inflight u)"
    "heap u p = Some (r\<lparr>rbuf := bs, op := SEND, rlen := length bs\<rparr>)" "got u = (got s)(c := got s c @ bs)" "put u = put s"
    using r bs inv(3,4) by (simp add: complete_def process_cqe_def handle_recv_def submit_send_def sq_room_def prep_def)
  note k = phase_two_keeps [OF complete_inv [OF inv(1) u(1)] bounds_complete [OF inv(1,2) u(1)] order_refl u(3)]
  from k u show ?thesis
    by (intro exI [of _ "phase_two n u"] exI [of _ "r\<lparr>rbuf := bs, op := SEND, rlen := length bs\<rparr>"]) auto
qed

text \<open>A complete send: the next receive is submitted in the same turn.\<close>

lemma send_turn:
  assumes inv: "uring_inv s" "in_bounds n s" "sq s = []" "0 < n" and e: "Send_Sqe False p c (length bs) \<in> set (inflight s)"
    and r: "heap s p = Some r" "rbuf r = bs"
  shows "\<exists>s'. loop_turn (Completions [cq p (int (length bs)) []], n) s = Some s' \<and> sq s' = [] \<and>
    Recv_Sqe p c 4096 \<in> set (inflight s') \<and> got s' = got s \<and> put s' = (put s)(c := put s c @ bs)"
proof -
  let ?c = "cq p (int (length bs)) []"
  have op: "op r = SEND" "client_fd r = c" using uring_inv_entry [OF inv(1) e] r by auto
  have "answered ?c s = Some (Send_Sqe False p c (length bs))" by (rule answered_unique [OF inv(1) e]) simp
  moreover have "depth s = n" using inv(2) by (simp add: in_bounds_def)
  ultimately obtain u where u: "complete ?c s = Some u" "Recv_Sqe p c 4096 \<in> set (sq u @ inflight u)"
    "heap u p = Some (r\<lparr>op := RECV, rlen := 0\<rparr>)" "got u = got s" "put u = (put s)(c := put s c @ bs)"
    using r op inv(3,4) by (simp add: complete_def process_cqe_def handle_send_def submit_recv_def sq_room_def prep_def Let_def)
  note k = phase_two_keeps [OF complete_inv [OF inv(1) u(1)] bounds_complete [OF inv(1,2) u(1)] order_refl u(3)]
  from k u show ?thesis by (intro exI [of _ "phase_two n u"]) auto
qed

text \<open>
  A message makes the round trip in two turns: when the receive of a client completes with data and then
  the send completes, the client has been sent exactly these bytes, nobody else has been sent anything, and the
  client's next receive is in the hands of the kernel.
\<close>

lemma uring_round_trip:
  assumes "uring_event_loop turns entries l = Some s" "sq s = []" "0 < entries" "Recv_Sqe p c 4096 \<in> set (inflight s)"
    "bs \<noteq> []" "length bs \<le> 4096"
  shows "\<exists>s'. prun loop_turn [(Completions [cq p (int (length bs)) bs], entries),
        (Completions [cq p (int (length bs)) []], entries)] s = Some s' \<and>
    got s' = (got s)(c := got s c @ bs) \<and> put s' = (put s)(c := put s c @ bs) \<and>
    sq s' = [] \<and> Recv_Sqe p c 4096 \<in> set (inflight s')"
proof -
  have ok: "uring_inv s" "in_bounds entries s" using uring_event_loop_bounds [OF assms(1)] by simp_all
  obtain t r where t: "loop_turn (Completions [cq p (int (length bs)) bs], entries) s = Some t" "sq t = []"
    "Send_Sqe False p c (length bs) \<in> set (inflight t)" "heap t p = Some r" "rbuf r = bs"
    "got t = (got s)(c := got s c @ bs)" "put t = put s"
    using recv_turn [OF ok assms(2,3,4,5,6)] by blast
  obtain s' where "loop_turn (Completions [cq p (int (length bs)) []], entries) t = Some s'" "sq s' = []"
    "Recv_Sqe p c 4096 \<in> set (inflight s')" "got s' = got t" "put s' = (put t)(c := put t c @ bs)"
    using send_turn [OF loop_turn_inv [OF t(1) ok(1)] bounds_turn [OF ok t(1)] t(2) assms(3) t(3-5)] by blast
  with t show ?thesis by (intro exI [of _ s']) (simp del: loop_turn.simps)
qed

subsection \<open>Leaving the loop\<close>

text \<open>
  The whole of \<open>event_loop\<close>: every entry of the list is what the loop test reads from \<open>running_\<close>, and one turn. The
  result is the state in which the loop is left, by the test or by the \<open>break\<close>; \<open>None\<close> is a loop that still runs.
\<close>

fun uring_loop :: "(bool \<times> wait_ret \<times> nat) list \<Rightarrow> uring \<Rightarrow> uring option" where
  "uring_loop [] s = None"
| "uring_loop ((running_seen, w, taken) # ts) s =
     (if \<not> running_seen then Some s
      else (case w of
              Wait_Error e \<Rightarrow> Some s
            | _ \<Rightarrow> Option.bind (loop_turn (w, taken) s) (uring_loop ts)))"

definition uring_run :: "(bool \<times> wait_ret \<times> nat) list \<Rightarrow> nat \<Rightarrow> fd \<Rightarrow> uring option" where
  "uring_run ts entries l = uring_loop ts (submit_accept (uring_new entries l))"

text \<open>The state in which the loop is left is one after some turns, so what holds after any number of turns holds of it.\<close>

lemma uring_loop_turns: "uring_loop ts s = Some s' \<Longrightarrow> \<exists>turns. prun loop_turn turns s = Some s' \<and> length turns \<le> length ts"
proof (induction ts arbitrary: s)
  case (Cons t ts)
  obtain b w taken where t: "t = (b, w, taken)" by (cases t)
  show ?case
  proof (cases "b \<and> (\<forall>e. w \<noteq> Wait_Error e)")
    case True
    then have "Option.bind (loop_turn (w, taken) s) (uring_loop ts) = Some s'"
      using Cons.prems t by (cases w) simp_all
    then obtain u where u: "loop_turn (w, taken) s = Some u" "uring_loop ts u = Some s'" by (auto simp: bind_eq_Some_conv)
    from Cons.IH [OF u(2)] obtain turns where "prun loop_turn turns u = Some s'" "length turns \<le> length ts" by blast
    with u(1) show ?thesis by (intro exI [of _ "(w, taken) # turns"]) (simp del: loop_turn.simps)
  next
    case False
    with Cons.prems t have "s' = s" by (cases w) (auto split: if_splits)
    then show ?thesis by (intro exI [of _ "[]"]) simp
  qed
qed simp

lemma uring_run_turns: "uring_run ts entries l = Some s \<Longrightarrow> \<exists>turns. uring_event_loop turns entries l = Some s"
  unfolding uring_run_def uring_event_loop_def by (blast dest: uring_loop_turns)

text \<open>
  What the server leaves behind: nothing deletes the requests that are still queued or submitted, and nothing
  closes the clients, when the loop is left. Both end with the process.
\<close>

lemma uring_run_leaves_requests:
  assumes "uring_run ts entries l = Some s"
  shows "dom (heap s) = sqe_ptr ` set (sq s @ inflight s) \<and> set (conns_of (sq s @ inflight s)) \<subseteq> conns s"
proof -
  obtain turns where "uring_event_loop turns entries l = Some s" using uring_run_turns [OF assms] by blast
  then have o: "owned [] s" using uring_event_loop_inv by (simp add: uring_inv_def)
  with owned_conns [OF o] show ?thesis by (simp add: owned_def)
qed

subsection \<open>Executions\<close>

lemma uring_keeps_every_client_witness:
  "\<exists>s. uring_event_loop [(Timeout, 256), (Completions [cq 0 5 []], 256)] QUEUE_DEPTH 3 = Some s \<and> 5 \<in> conns s \<and>
     5 \<in> set (conns_of (sq s @ inflight s))"
proof -
  let ?ts = "[(Timeout, 256), (Completions [cq 0 5 []], 256)]"
  obtain s where s: "uring_event_loop ?ts QUEUE_DEPTH 3 = Some s" by (simp add: uring_eval)
  then have "5 \<in> conns s" by (auto simp: uring_eval)
  with uring_keeps_every_client [OF s] s show ?thesis by (auto simp: QUEUE_DEPTH_def eagain_def)
qed

lemma uring_round_trip_witness:
  "\<exists>s s'. uring_event_loop accept_five QUEUE_DEPTH 3 = Some s \<and>
     prun loop_turn [(Completions [cq 1 3 [7, 8, 9]], QUEUE_DEPTH), (Completions [cq 1 3 []], QUEUE_DEPTH)] s = Some s' \<and>
     put s' 5 = [7, 8, 9]"
proof -
  obtain s where s: "uring_event_loop accept_five QUEUE_DEPTH 3 = Some s" by (simp add: uring_eval)
  then have d: "sq s = []" "Recv_Sqe 1 5 4096 \<in> set (inflight s)" "put s 5 = []" by (auto simp: uring_eval)
  have "(0 :: nat) < QUEUE_DEPTH" by (simp add: QUEUE_DEPTH_def)
  from uring_round_trip [OF s d(1) this d(2), of "[7, 8, 9]"] obtain s' where
    "prun loop_turn [(Completions [cq 1 3 [7, 8, 9]], QUEUE_DEPTH), (Completions [cq 1 3 []], QUEUE_DEPTH)] s = Some s'"
    "put s' = (put s)(5 := put s 5 @ [7, 8, 9])" by (auto simp del: loop_turn.simps prun.simps)
  with s d(3) show ?thesis by (intro exI [of _ s] exI [of _ s'] conjI) simp_all
qed

end
