(* ===== verification/Uring_Clients.thy ===== *)
theory Uring_Clients imports
  Uring_Service
begin

text \<open>
  One client of the io_uring server among all the others: whatever else completes, in whatever order and in
  however many batches, the completions of its own operations alone decide what it receives.
\<close>

subsection \<open>A client and its request\<close>

text \<open>
  Client \<open>c\<close> has the request \<open>p\<close>: with a receive under way (\<open>None\<close>), or with a send of these bytes. An operation is under way
  when it is queued or submitted.
\<close>

definition armed :: "fd \<Rightarrow> nat \<Rightarrow> byte list option \<Rightarrow> uring \<Rightarrow> bool" where
  "armed c p a s \<longleftrightarrow>
     (case a of
        None \<Rightarrow> Recv_Sqe p c 4096 \<in> set (sq s @ inflight s)
      | Some bs \<Rightarrow> Send_Sqe False p c (length bs) \<in> set (sq s @ inflight s) \<and> map_option rbuf (heap s p) = Some bs)"

lemma armed_entry:
  assumes "armed c p a s"
  obtains e where "e \<in> set (sq s @ inflight s)" "sqe_ptr e = p" "sqe_conn e = [c]"
    "e = (case a of None \<Rightarrow> Recv_Sqe p c 4096 | Some bs \<Rightarrow> Send_Sqe False p c (length bs))"
  using assms by (cases a) (auto simp: armed_def)

lemma armed_mono:
  "armed c p a s \<Longrightarrow> set (sq s @ inflight s) \<subseteq> set (sq s' @ inflight s') \<Longrightarrow> heap s' p = heap s p \<Longrightarrow> armed c p a s'"
  by (auto simp: armed_def split: option.splits)

lemma owned_entry: "owned ps s \<Longrightarrow> e \<in> set (sq s @ inflight s) \<Longrightarrow> sqe_ok s e"
  by (simp add: owned_def)

lemma entry_unique:
  assumes "owned [] s" "e \<in> set (sq s @ inflight s)" "f \<in> set (sq s @ inflight s)" "sqe_ptr e = sqe_ptr f"
  shows "e = f"
proof -
  have "inj_on sqe_ptr (set (sq s @ inflight s))"
    using assms(1) unfolding owned_def distinct_map by (metis append_Nil distinct_map)
  with assms(2-4) show ?thesis by (meson inj_onD)
qed

subsection \<open>Completions\<close>

text \<open>A completion for another request leaves the client alone.\<close>

lemma complete_other:
  assumes inv: "uring_inv s" and arm: "armed c p a s" and step: "complete x s = Some s'" and other: "cq_data x \<noteq> p"
  shows "armed c p a s' \<and> got s' c = got s c \<and> put s' c = put s c"
proof -
  obtain e where e: "answered x s = Some e" "valid_result x s e"
    and s': "s' = process_cqe x ((kernel_effect x e s)\<lparr>inflight := remove1 e (inflight s)\<rparr>)"
    using step by (auto simp: complete_def split: option.splits if_splits)
  note ans = answered_some [OF e(1)]
  obtain f where f: "f \<in> set (sq s @ inflight s)" "sqe_ptr f = p" "sqe_conn f = [c]"
    "f = (case a of None \<Rightarrow> Recv_Sqe p c 4096 | Some bs \<Rightarrow> Send_Sqe False p c (length bs))"
    using armed_entry [OF arm] by blast
  have o: "owned [] s" using inv by (simp add: uring_inv_def)
  have ok: "sqe_ok s e" "sqe_ok s f" using o ans f by (auto simp: owned_def)
  have "f \<noteq> e" using f(2) ans other by auto
  with f(1) have mem: "f \<in> set (sq s @ remove1 e (inflight s))" by auto
  with owned_take [OF o, of e] ans f(3) have disj: "c \<notin> set (sqe_conn e)" by (fastforce simp: conns_of_set)
  have p: "p < next_req s" using o f(1,2) by (auto simp: owned_def)
  have "c \<in> conns s" using ok(2) f(3) by (cases f) auto
  note p = p this
  have sub: "set (sq s @ remove1 e (inflight s)) \<subseteq> set (sq s' @ inflight s') \<and> heap s' p = heap s p \<and> got s' c = got s c \<and> put s' c = put s c"
  proof (cases e)
    case (Accept_Sqe q l)
    with ok ans e(2) p other show ?thesis
      unfolding s' by (auto simp: process_cqe_def handle_accept_def new_request_def submit_recv_def prep_def delete_request_def Let_def split: if_splits)
  next
    case (Recv_Sqe q d n)
    with ok ans other disj show ?thesis
      unfolding s' by (auto simp: process_cqe_def handle_recv_def submit_send_def prep_def delete_request_def close_conn_def Let_def split: if_splits)
  next
    case (Send_Sqe z q d n)
    with ok ans other disj show ?thesis
      unfolding s' by (auto simp: process_cqe_def handle_send_def submit_recv_def prep_def delete_request_def Let_def split: if_splits)
  qed
  with arm mem f(4) show ?thesis by (cases a) (auto simp: armed_def)
qed

text \<open>A completion of its own: a receive with data arms the send, a complete send arms the receive.\<close>

lemma complete_recv:
  assumes inv: "uring_inv s" and arm: "armed c p None s" and step: "complete x s = Some s'" and x: "cq_data x = p" "0 < cq_res x"
    and room: "sq_room s"
  shows "armed c p (Some (cq_bytes x)) s' \<and> got s' c = got s c @ cq_bytes x \<and> put s' c = put s c"
proof -
  obtain e where e: "answered x s = Some e" "valid_result x s e"
    and s': "s' = process_cqe x ((kernel_effect x e s)\<lparr>inflight := remove1 e (inflight s)\<rparr>)"
    using step by (auto simp: complete_def split: option.splits if_splits)
  note ans = answered_some [OF e(1)]
  have o: "owned [] s" using inv by (simp add: uring_inv_def)
  have "e = Recv_Sqe p c 4096"
    using ans x(1) arm by (intro entry_unique [OF o]) (auto simp: armed_def)
  moreover have "sqe_ok s (Recv_Sqe p c 4096)" by (rule owned_entry [OF o]) (use arm in \<open>simp add: armed_def\<close>)
  then obtain r where "heap s p = Some r" "op r = RECV" "client_fd r = c" by auto
  ultimately show ?thesis
    using e(2) x room unfolding s'
    by (simp add: process_cqe_def handle_recv_def submit_send_def sq_room_def prep_def armed_def)
qed

lemma complete_send:
  assumes inv: "uring_inv s" and arm: "armed c p (Some bs) s" and step: "complete x s = Some s'"
    and x: "cq_data x = p" "cq_res x = int (length bs)" and room: "sq_room s"
  shows "armed c p None s' \<and> got s' c = got s c \<and> put s' c = put s c @ bs"
proof -
  obtain e where e: "answered x s = Some e" "valid_result x s e"
    and s': "s' = process_cqe x ((kernel_effect x e s)\<lparr>inflight := remove1 e (inflight s)\<rparr>)"
    using step by (auto simp: complete_def split: option.splits if_splits)
  note ans = answered_some [OF e(1)]
  have o: "owned [] s" using inv by (simp add: uring_inv_def)
  have "e = Send_Sqe False p c (length bs)"
    using ans x(1) arm by (intro entry_unique [OF o]) (auto simp: armed_def)
  moreover have "sqe_ok s (Send_Sqe False p c (length bs))" by (rule owned_entry [OF o]) (use arm in \<open>simp add: armed_def\<close>)
  then obtain r where "heap s p = Some r" "op r = SEND" "client_fd r = c" "rbuf r = bs"
    using arm by (auto simp: armed_def)
  ultimately show ?thesis
    using e(2) x room unfolding s'
    by (simp add: process_cqe_def handle_send_def submit_recv_def sq_room_def prep_def armed_def Let_def)
qed

subsection \<open>The conversation with a client\<close>

text \<open>
  From the completions of a client's request alone: whether they are as they should be (data for a receive, all bytes
  for a send), what is under way after them, and what has been received and sent.
\<close>

fun proper :: "byte list option \<Rightarrow> cqe list \<Rightarrow> bool" where
  "proper a [] = True"
| "proper None (x # xs) = (0 < cq_res x \<and> proper (Some (cq_bytes x)) xs)"
| "proper (Some bs) (x # xs) = (cq_res x = int (length bs) \<and> proper None xs)"

fun under_way :: "byte list option \<Rightarrow> cqe list \<Rightarrow> byte list option" where
  "under_way a [] = a"
| "under_way None (x # xs) = under_way (Some (cq_bytes x)) xs"
| "under_way (Some bs) (x # xs) = under_way None xs"

fun heard :: "byte list option \<Rightarrow> cqe list \<Rightarrow> byte list" where
  "heard a [] = []"
| "heard None (x # xs) = cq_bytes x @ heard (Some (cq_bytes x)) xs"
| "heard (Some bs) (x # xs) = heard None xs"

fun told :: "byte list option \<Rightarrow> cqe list \<Rightarrow> byte list" where
  "told a [] = []"
| "told None (x # xs) = told (Some (cq_bytes x)) xs"
| "told (Some bs) (x # xs) = bs @ told None xs"

lemma conversation_append:
  "proper a (xs @ ys) \<longleftrightarrow> proper a xs \<and> proper (under_way a xs) ys"
  "under_way a (xs @ ys) = under_way (under_way a xs) ys"
  "heard a (xs @ ys) = heard a xs @ heard (under_way a xs) ys"
  "told a (xs @ ys) = told a xs @ told (under_way a xs) ys"
  by (induction a xs rule: proper.induct) auto

definition follows :: "fd \<Rightarrow> nat \<Rightarrow> byte list option \<Rightarrow> cqe list \<Rightarrow> uring \<Rightarrow> uring \<Rightarrow> bool" where
  "follows c p a xs s s' \<longleftrightarrow> armed c p (under_way a xs) s' \<and> got s' c = got s c @ heard a xs \<and> put s' c = put s c @ told a xs"

lemma follows_trans:
  "follows c p a xs s t \<Longrightarrow> follows c p (under_way a xs) ys t u \<Longrightarrow> follows c p a (xs @ ys) s u"
  by (simp add: follows_def conversation_append)

lemma complete_follows:
  assumes "uring_inv s" "armed c p a s" "sq_room s" "complete x s = Some s'" "proper a (filter (\<lambda>x. cq_data x = p) [x])"
  shows "follows c p a (filter (\<lambda>x. cq_data x = p) [x]) s s'"
proof (cases "cq_data x = p")
  case True
  show ?thesis
  proof (cases a)
    case None
    with True complete_recv [OF assms(1) _ assms(4) True _ assms(3)] assms(2,5) show ?thesis by (auto simp: follows_def)
  next
    case (Some bs)
    with True complete_send [OF assms(1) _ assms(4) True _ assms(3)] assms(2,5) show ?thesis by (auto simp: follows_def)
  qed
next
  case False
  with complete_other [OF assms(1,2,4)] show ?thesis by (simp add: follows_def)
qed

lemma batch_follows:
  "prun complete cs s = Some s' \<Longrightarrow> uring_inv s \<Longrightarrow> covered s \<Longrightarrow> armed c p a s \<Longrightarrow> length (sq s) + length cs \<le> depth s \<Longrightarrow>
     list_all (\<lambda>x. cq_res x \<noteq> - eagain) cs \<Longrightarrow> proper a (filter (\<lambda>x. cq_data x = p) cs) \<Longrightarrow>
     follows c p a (filter (\<lambda>x. cq_data x = p) cs) s s'"
proof (induction cs arbitrary: s a)
  case Nil
  then show ?case by (simp add: follows_def)
next
  case (Cons x cs)
  let ?f = "filter (\<lambda>x. cq_data x = p)"
  obtain t where t: "complete x s = Some t" "prun complete cs t = Some s'"
    using Cons.prems(1) by (auto simp: bind_eq_Some_conv)
  have room: "sq_room s" using Cons.prems(5) by (simp add: sq_room_def)
  have split: "?f (x # cs) = ?f [x] @ ?f cs" by simp
  have pr: "proper a (?f [x])" "proper (under_way a (?f [x])) (?f cs)"
    using Cons.prems(7) unfolding split conversation_append by simp_all
  from complete_follows [OF Cons.prems(2,4) room t(1) pr(1)] have one: "follows c p a (?f [x]) s t" .
  from complete_covered [OF Cons.prems(2,3) room t(1)] Cons.prems(5,6)
  have "covered t" "length (sq t) + length cs \<le> depth t" by auto
  with Cons.IH [OF t(2) complete_inv [OF Cons.prems(2) t(1)] _ _ _ _ pr(2)] one Cons.prems(6)
  have "follows c p (under_way a (?f [x])) (?f cs) t s'" by (simp add: follows_def)
  with one show ?case unfolding split by (rule follows_trans)
qed

subsection \<open>Turns\<close>

text \<open>The completions of request \<open>p\<close> in a list of turns.\<close>

fun turn_cqes :: "wait_ret \<times> nat \<Rightarrow> cqe list" where
  "turn_cqes (Completions cs, taken) = cs"
| "turn_cqes (_, taken) = []"

definition cqes_of :: "nat \<Rightarrow> (wait_ret \<times> nat) list \<Rightarrow> cqe list" where
  "cqes_of p ts = filter (\<lambda>x. cq_data x = p) (concat (map turn_cqes ts))"

lemma phase_two_follows:
  assumes "armed c p a s" "uring_inv s" "in_bounds n s" "n \<le> taken"
  shows "follows c p a [] s (phase_two taken s)"
proof -
  obtain e where e: "e \<in> set (sq s @ inflight s)" "sqe_ptr e = p" using armed_entry [OF assms(1)] by blast
  have "sqe_ok s e" by (rule owned_entry [of "[]", OF _ e(1)]) (use assms(2) in \<open>simp add: uring_inv_def\<close>)
  then obtain r where r: "heap s p = Some r" using e(2) by (cases e) auto
  note k = phase_two_keeps [OF assms(2-4) r]
  then have "armed c p a (phase_two taken s)" using r by (intro armed_mono [OF assms(1)]) auto
  with k show ?thesis by (simp add: follows_def)
qed

lemma turn_follows:
  assumes I: "calm_inv n s" and t: "calm n t" "loop_turn t s = Some s'" and arm: "armed c p a s" and pr: "proper a (cqes_of p [t])"
  shows "follows c p a (cqes_of p [t]) s s'"
proof -
  note I = I [unfolded calm_inv_def]
  obtain w taken where w: "t = (w, taken)" by fastforce
  show ?thesis
  proof (cases "\<exists>cs. w = Completions cs")
    case True
    then obtain cs where cs: "w = Completions cs" by blast
    with t w obtain u where u: "prun complete cs s = Some u" "s' = phase_two taken u"
      and calm: "n \<le> taken" "length cs \<le> n" "list_all (\<lambda>c. cq_res c \<noteq> - eagain) cs" by auto
    have "length (sq s) + length cs \<le> depth s"
    proof (cases "inflight s = []")
      case True
      with no_completions [OF u(1)] I show ?thesis by (simp add: in_bounds_def)
    next
      case False
      with I calm show ?thesis by (simp add: handed_over_def in_bounds_def)
    qed
    from batch_follows [OF u(1) _ _ arm this calm(3)] I pr w cs
    have f: "follows c p a (cqes_of p [t]) s u" by (simp add: cqes_of_def)
    have "uring_inv u \<and> in_bounds n u"
      by (rule prun_inv [OF u(1)]) (use I complete_inv bounds_complete in blast)+
    with f have "follows c p (under_way a (cqes_of p [t])) [] u s'"
      unfolding u(2) by (intro phase_two_follows) (auto simp: follows_def calm)
    from follows_trans [OF f this] show ?thesis by simp
  next
    case False
    with t w have "s' = phase_two taken s" "n \<le> taken" by (cases w; auto)+
    moreover have "cqes_of p [t] = []" using False w by (cases w) (auto simp: cqes_of_def)
    ultimately show ?thesis using phase_two_follows [OF arm, of n taken] I by simp
  qed
qed

lemma run_follows:
  "prun loop_turn ts s = Some s' \<Longrightarrow> calm_inv n s \<Longrightarrow> list_all (calm n) ts \<Longrightarrow> armed c p a s \<Longrightarrow> proper a (cqes_of p ts) \<Longrightarrow>
     follows c p a (cqes_of p ts) s s'"
proof (induction ts arbitrary: s a)
  case Nil
  then show ?case by (simp add: cqes_of_def follows_def)
next
  case (Cons t ts)
  obtain u where u: "loop_turn t s = Some u" "prun loop_turn ts u = Some s'"
    using Cons.prems(1) by (auto simp: bind_eq_Some_conv)
  have split: "cqes_of p (t # ts) = cqes_of p [t] @ cqes_of p ts" by (simp add: cqes_of_def)
  have pr: "proper a (cqes_of p [t])" "proper (under_way a (cqes_of p [t])) (cqes_of p ts)"
    using Cons.prems(5) unfolding split conversation_append by simp_all
  have calm: "calm n t" "list_all (calm n) ts" using Cons.prems(3) by simp_all
  note one = turn_follows [OF Cons.prems(2) calm(1) u(1) Cons.prems(4) pr(1)]
  then have "armed c p (under_way a (cqes_of p [t])) u" by (simp add: follows_def)
  from Cons.IH [OF u(2) calm_turn [OF Cons.prems(2) calm(1) u(1)] calm(2) this pr(2)] one show ?case
    unfolding split by (rule follows_trans [rotated])
qed

subsection \<open>Every message comes back\<close>

text \<open>The completions that bring the messages \<open>ms\<close>, each followed by that of its complete send.\<close>

fun exchanges :: "byte list list \<Rightarrow> cqe list \<Rightarrow> bool" where
  "exchanges [] [] = True"
| "exchanges (m # ms) (x # y # xs) =
     (m \<noteq> [] \<and> cq_res x = int (length m) \<and> cq_bytes x = m \<and> cq_res y = int (length m) \<and> exchanges ms xs)"
| "exchanges _ _ = False"

lemma exchanges_conversation:
  "exchanges ms xs \<Longrightarrow> proper None xs \<and> under_way None xs = None \<and> heard None xs = concat ms \<and> told None xs = concat ms"
  by (induction ms xs rule: exchanges.induct) auto

text \<open>
  C26. However many clients there are and in whatever order and batches the operations complete: if all is calm and the
  completions for a client's request are those of the messages \<open>ms\<close> and of their sends, then exactly these messages
  have been received from it and sent back to it, in order, and its next receive is armed.
\<close>

lemma uring_serves_every_client:
  assumes "uring_event_loop turns entries l = Some s" "list_all (calm entries) turns" "Recv_Sqe p c 4096 \<in> set (sq s @ inflight s)"
    and "prun loop_turn ts s = Some s'" "list_all (calm entries) ts" "exchanges ms (cqes_of p ts)"
  shows "got s' c = got s c @ concat ms \<and> put s' c = put s c @ concat ms \<and> Recv_Sqe p c 4096 \<in> set (sq s' @ inflight s')"
proof -
  have "calm_inv entries s" by (rule calm_run [OF assms(1) [unfolded uring_event_loop_def] assms(2) calm_start])
  moreover have "armed c p None s" using assms(3) by (simp add: armed_def)
  ultimately have "follows c p None (cqes_of p ts) s s'"
    using run_follows [OF assms(4) _ assms(5)] exchanges_conversation [OF assms(6)] by blast
  with exchanges_conversation [OF assms(6)] show ?thesis by (simp add: follows_def armed_def)
qed

text \<open>Two clients whose completions are mixed, in one batch each time.\<close>

definition two_conns :: "(wait_ret \<times> nat) list" where
  "two_conns = [(Timeout, 256), (Completions [cq 0 5 []], 256), (Completions [cq 2 6 []], 256)]"

definition mixed :: "(wait_ret \<times> nat) list" where
  "mixed = [(Completions [cq 3 1 [9], cq 1 2 [1, 2]], 256), (Interrupted, 256), (Completions [cq 1 2 []], 256),
     (Completions [cq 3 1 [], cq 1 1 [3]], 256), (Completions [cq 1 1 []], 256)]"

lemma uring_serves_every_client_witness:
  "\<exists>s s'. uring_event_loop two_conns QUEUE_DEPTH 3 = Some s \<and> prun loop_turn mixed s = Some s' \<and> put s' 5 = [1, 2, 3]"
proof -
  obtain s where s: "uring_event_loop two_conns QUEUE_DEPTH 3 = Some s" by (simp add: two_conns_def uring_eval)
  then have d: "Recv_Sqe 1 5 4096 \<in> set (sq s @ inflight s)" "put s 5 = []" by (auto simp: two_conns_def uring_eval)
  obtain s' where s': "prun loop_turn mixed s = Some s'"
    using s by (auto simp: two_conns_def mixed_def uring_eval)
  have "list_all (calm QUEUE_DEPTH) two_conns" "list_all (calm QUEUE_DEPTH) mixed" "exchanges [[1, 2], [3]] (cqes_of 1 mixed)"
    by (simp_all add: two_conns_def mixed_def QUEUE_DEPTH_def eagain_def cqes_of_def)
  from uring_serves_every_client [OF s this(1) d(1) s' this(2,3)] s s' d(2) show ?thesis by simp
qed

end
