(* ===== verification/Program_Args.thy ===== *)
theory Program_Args imports
  Prelude
begin

text \<open>
  The command lines of the five programs: \<open>std::stoi\<close> and \<open>std::stoul\<close> with their exceptions, the argument
  loops of the servers and of both benchmarks, and what \<open>main\<close> returns. Ports are cut to 16 bits and counts are 64
  bits wide, as the casts and types of the sources have it.
\<close>

subsection \<open>stoi and stoul\<close>

datatype num_exn = Invalid_Argument | Out_Of_Range

definition is_space :: "char \<Rightarrow> bool" where
  "is_space c \<longleftrightarrow> (let n = of_char c :: nat in n = 32 \<or> (9 \<le> n \<and> n \<le> 13))"

definition is_digit :: "char \<Rightarrow> bool" where
  "is_digit c \<longleftrightarrow> (let n = of_char c :: nat in 48 \<le> n \<and> n \<le> 57)"

definition digit_val :: "char \<Rightarrow> nat" where
  "digit_val c = of_char c - 48"

definition digits_val :: "string \<Rightarrow> nat" where
  "digits_val ds = foldl (\<lambda>n c. 10 * n + digit_val c) 0 ds"

text \<open>Leading spaces, an optional sign, and the longest run of digits; what follows is ignored.\<close>

definition scan_number :: "string \<Rightarrow> num_exn + bool \<times> nat" where
  "scan_number s =
     (let t = dropWhile is_space s;
          (neg, u) = (case t of c # cs \<Rightarrow> if c = CHR ''-'' then (True, cs) else if c = CHR ''+'' then (False, cs) else (False, t)
                      | [] \<Rightarrow> (False, t));
          ds = takeWhile is_digit u
      in if ds = [] then Inl Invalid_Argument else Inr (neg, digits_val ds))"

definition stoi :: "string \<Rightarrow> num_exn + int" where
  "stoi s = (case scan_number s of
      Inl e \<Rightarrow> Inl e
    | Inr (neg, n) \<Rightarrow>
        (let v = (if neg then - int n else int n)
         in if - (2 ^ 31) \<le> v \<and> v < 2 ^ 31 then Inr v else Inl Out_Of_Range))"

text \<open>\<open>stoul\<close> accepts a minus sign and negates in 64 bits.\<close>

definition stoul :: "string \<Rightarrow> num_exn + u64" where
  "stoul s = (case scan_number s of
      Inl e \<Rightarrow> Inl e
    | Inr (neg, n) \<Rightarrow>
        if n < 2 ^ 64 then Inr (if neg then - of_nat n else of_nat n) else Inl Out_Of_Range)"

subsection \<open>The servers\<close>

datatype 'o outcome = Parsed 'o | Help | Uncaught num_exn

record server_opts =
  opt_port :: u16
  opt_workers :: u64

fun server_args :: "server_opts \<Rightarrow> string list \<Rightarrow> server_opts outcome" where
  "server_args opts [] = Parsed opts"
| "server_args opts (arg # rest) =
     (if arg = ''--port'' \<and> rest \<noteq> [] then
        (case stoi (hd rest) of
           Inl e \<Rightarrow> Uncaught e
         | Inr n \<Rightarrow> server_args (opts\<lparr>opt_port := word_of_int n\<rparr>) (tl rest))
      else if arg = ''--workers'' \<and> rest \<noteq> [] then
        (case stoul (hd rest) of
           Inl e \<Rightarrow> Uncaught e
         | Inr n \<Rightarrow> server_args (opts\<lparr>opt_workers := n\<rparr>) (tl rest))
      else if arg = ''--help'' then Help
      else server_args opts rest)"

text \<open>
  What \<open>main\<close> does: a number that cannot be parsed ends the program before the \<open>try\<close> block, an exception of the
  constructor or of \<open>run\<close> is reported and makes the exit code 1. \<open>serve\<close> says whether the server ran to its end.
\<close>

datatype exit_status = Exit int | Terminated num_exn

definition server_main :: "server_opts \<Rightarrow> (u16 \<Rightarrow> u64 \<Rightarrow> bool) \<Rightarrow> string list \<Rightarrow> exit_status" where
  "server_main opts serve args =
     (case server_args opts args of
        Parsed opts \<Rightarrow> Exit (if serve (opt_port opts) (opt_workers opts) then 0 else 1)
      | Help \<Rightarrow> Exit 0
      | Uncaught e \<Rightarrow> Terminated e)"

definition epoll_main :: "(u16 \<Rightarrow> u64 \<Rightarrow> bool) \<Rightarrow> string list \<Rightarrow> exit_status" where
  "epoll_main = server_main \<lparr>opt_port = 8080, opt_workers = 1\<rparr>"

definition kqueue_main :: "(u16 \<Rightarrow> u64 \<Rightarrow> bool) \<Rightarrow> string list \<Rightarrow> exit_status" where
  "kqueue_main = server_main \<lparr>opt_port = 8080, opt_workers = 1\<rparr>"

text \<open>The kqueue program on any other platform.\<close>

definition kqueue_stub_main :: "string list \<Rightarrow> exit_status" where
  "kqueue_stub_main args = Exit 1"

definition iouring_main :: "(u16 \<Rightarrow> u64 \<Rightarrow> bool) \<Rightarrow> string list \<Rightarrow> exit_status" where
  "iouring_main = server_main \<lparr>opt_port = 8082, opt_workers = 0\<rparr>"

definition iouring_zc_main :: "(u16 \<Rightarrow> u64 \<Rightarrow> bool) \<Rightarrow> string list \<Rightarrow> exit_status" where
  "iouring_zc_main = server_main \<lparr>opt_port = 8083, opt_workers = 0\<rparr>"

subsection \<open>The benchmarks\<close>

record client_opts =
  opt_host :: string
  opt_cport :: u16
  opt_connections :: u64
  opt_requests :: u64
  opt_size :: u64
  opt_threads :: u64

definition client_defaults :: client_opts where
  "client_defaults = \<lparr>opt_host = ''127.0.0.1'', opt_cport = 8080, opt_connections = 10, opt_requests = 1000,
     opt_size = 64, opt_threads = 2\<rparr>"

fun client_args :: "client_opts \<Rightarrow> string list \<Rightarrow> client_opts outcome" where
  "client_args opts [] = Parsed opts"
| "client_args opts (arg # rest) =
     (if arg = ''--host'' \<and> rest \<noteq> [] then client_args (opts\<lparr>opt_host := hd rest\<rparr>) (tl rest)
      else if arg = ''--port'' \<and> rest \<noteq> [] then
        (case stoi (hd rest) of
           Inl e \<Rightarrow> Uncaught e
         | Inr n \<Rightarrow> client_args (opts\<lparr>opt_cport := word_of_int n\<rparr>) (tl rest))
      else if arg = ''--connections'' \<and> rest \<noteq> [] then
        (case stoul (hd rest) of Inl e \<Rightarrow> Uncaught e | Inr n \<Rightarrow> client_args (opts\<lparr>opt_connections := n\<rparr>) (tl rest))
      else if arg = ''--requests'' \<and> rest \<noteq> [] then
        (case stoul (hd rest) of Inl e \<Rightarrow> Uncaught e | Inr n \<Rightarrow> client_args (opts\<lparr>opt_requests := n\<rparr>) (tl rest))
      else if arg = ''--size'' \<and> rest \<noteq> [] then
        (case stoul (hd rest) of Inl e \<Rightarrow> Uncaught e | Inr n \<Rightarrow> client_args (opts\<lparr>opt_size := n\<rparr>) (tl rest))
      else if arg = ''--threads'' \<and> rest \<noteq> [] then
        (case stoul (hd rest) of Inl e \<Rightarrow> Uncaught e | Inr n \<Rightarrow> client_args (opts\<lparr>opt_threads := n\<rparr>) (tl rest))
      else if arg = ''--help'' then Help
      else client_args opts rest)"

fun messages_args :: "u64 \<Rightarrow> string list \<Rightarrow> u64 outcome" where
  "messages_args num_messages [] = Parsed num_messages"
| "messages_args num_messages (arg # rest) =
     (if arg = ''--messages'' \<and> rest \<noteq> [] then
        (case stoul (hd rest) of Inl e \<Rightarrow> Uncaught e | Inr n \<Rightarrow> messages_args n (tl rest))
      else if arg = ''--help'' then Help
      else messages_args num_messages rest)"

subsection \<open>Decimal numbers\<close>

fun decimal :: "nat \<Rightarrow> string" where
  "decimal n = (if n < 10 then [char_of (48 + n)] else decimal (n div 10) @ [char_of (48 + n mod 10)])"

declare decimal.simps [simp del]

lemma digit_char: "d < 10 \<Longrightarrow> is_digit (char_of (48 + d)) \<and> digit_val (char_of (48 + d)) = d \<and> \<not> is_space (char_of (48 + d)) \<and>
    char_of (48 + d) \<noteq> CHR ''-'' \<and> char_of (48 + d) \<noteq> CHR ''+''"
proof -
  assume "d < 10"
  moreover have "CHR ''-'' = char_of (45 :: nat)" "CHR ''+'' = char_of (43 :: nat)" by (simp_all add: char_of_def bit_0)
  ultimately show ?thesis
    by (auto simp: is_digit_def digit_val_def is_space_def of_char_of char_of_eq_iff take_bit_eq_mod Let_def)
qed

lemma decimal_digits:
  "list_all is_digit (decimal n) \<and> digits_val (decimal n) = n \<and> decimal n \<noteq> [] \<and>
     \<not> is_space (hd (decimal n)) \<and> hd (decimal n) \<noteq> CHR ''-'' \<and> hd (decimal n) \<noteq> CHR ''+''"
proof (induction n rule: decimal.induct)
  case (1 n)
  show ?case
  proof (cases "n < 10")
    case True
    then show ?thesis using digit_char [of n] by (subst (1 2 3 4 5 6) decimal.simps) (simp add: digits_val_def)
  next
    case False
    with 1 digit_char [of "n mod 10"] show ?thesis
      by (subst (1 2 3 4 5 6) decimal.simps) (simp add: digits_val_def)
  qed
qed

lemma scan_decimal: "scan_number (decimal n) = Inr (False, n)"
proof -
  note d = decimal_digits [of n]
  obtain c cs where c: "decimal n = c # cs" using d by (cases "decimal n") auto
  with d have all: "takeWhile is_digit cs = cs" by (simp add: list_all_iff)
  show ?thesis using d by (simp add: scan_number_def c all)
qed

lemma stoi_decimal: "n < 2 ^ 31 \<Longrightarrow> stoi (decimal n) = Inr (int n)"
  by (simp add: stoi_def scan_decimal)

lemma stoul_decimal: "stoul (decimal n) = (if n < 2 ^ 64 then Inr (of_nat n) else Inl Out_Of_Range)"
  by (simp add: stoul_def scan_decimal)



end
