(* ===== verification/Server_Shutdown.thy ===== *)
theory Server_Shutdown imports
  Server_Threads
begin

text \<open>
  Shutting the epoll server down while its workers are echoing. The signal handler runs \<open>ThreadPool::stop\<close> on the
  network thread and waits for every worker, and a worker leaves only when the task it runs has ended: so \<open>stop\<close>
  returns when the clients read, and never returns when one of them does not.
\<close>

subsection \<open>Clients that read\<close>

definition full_stopping :: "'k kernel \<Rightarrow> nat \<Rightarrow> ('k \<Rightarrow> bool) \<Rightarrow> ('k \<Rightarrow> nat) \<Rightarrow> 'k full \<Rightarrow> bool" where
  "full_stopping K n good patience f \<longleftrightarrow>
     clients_read K good patience \<and> good (kst f) \<and> stopping n (threads f) \<and> length (outs f) = n"

definition joins_left :: "nat \<Rightarrow> 'k full \<Rightarrow> nat" where
  "joins_left n f = (case hnd (threads f) of HJoin k \<Rightarrow> Suc n - k | _ \<Rightarrow> 0)"

definition stop_load :: "nat \<Rightarrow> ('k \<Rightarrow> nat) \<Rightarrow> 'k full \<Rightarrow> nat" where
  "stop_load n patience f = full_load patience f + joins_left n f"

lemma stopping_workers: "stopping n s \<Longrightarrow> length (workers s) = n"
  unfolding stopping_def by (elim conjE, drule preach_inv, simp add: pool_inv_def)

lemma full_stopping_work:
  assumes "full_stopping K n good patience f" "full_step K obs (Pool_Act (Work i)) f = Some f'"
  shows "full_stopping K n good patience f' \<and> stop_load n patience f' < stop_load n patience f"
proof -
  have i: "i < length (workers (threads f))" "full_work K i f = Some f'" using assms(2) by (auto split: if_splits)
  have b: "clients_read K good patience" "good (kst f)" "stopping n (threads f)" "length (outs f) = n"
    using assms(1) by (simp_all add: full_stopping_def)
  then have "length (workers (threads f)) = length (outs f)" using stopping_workers by simp
  note low = full_work_lowers [OF b(1,2) i(1) this i(2)]
  have "stopping n (threads f') \<and> hnd (threads f') = hnd (threads f)"
    using full_work_pool [OF i] b(3) stopping_work [of n "threads f" i "threads f'"]
    by (auto split: if_splits dest: work_frame)
  with low b full_step_frame [OF assms(2)] show ?thesis by (simp add: full_stopping_def stop_load_def joins_left_def)
qed

lemma stop_join_frame:
  "stop s = Some s' \<Longrightarrow> hnd s = HJoin k \<Longrightarrow> workers s' = workers s \<and> tasks s' = tasks s"
  by (auto simp: stop_def split: if_splits)

lemma full_stopping_stop:
  assumes "full_stopping K n good patience f" "full_step K obs (Pool_Act Stopping) f = Some f'"
  shows "full_stopping K n good patience f' \<and> stop_load n patience f' < stop_load n patience f"
proof -
  have m: "move_pool Stopping f = Some f'" using assms(2) by simp
  note fr = move_pool_frame [OF m] and p = move_pool_threads [OF m]
  have s: "stopping n (threads f)" using assms(1) by (simp add: full_stopping_def)
  note st = stopping_stop [OF s p]
  obtain k where k: "hnd (threads f) = HJoin k" using s p by (auto simp: stopping_def stop_def split: hpc.splits)
  then have same: "workers (threads f') = workers (threads f)" "tasks (threads f') = tasks (threads f)"
    using p stop_join_frame by auto
  have "joins_left n f' < joins_left n f"
    using st same by (simp add: joins_left_def stop_work_def pool_work_def)
  with st fr same assms(1) show ?thesis by (simp add: full_stopping_def stop_load_def full_load_def pool_work_def)
qed

interpretation serverstop: draining "full_step K obs" "\<lambda>a. (\<exists>i<n. a = Pool_Act (Work i)) \<or> a = Pool_Act Stopping"
  "full_stopping K n good patience" "\<lambda>f. hnd (threads f) = HNone" "stop_load n patience" for K obs n good patience
proof (unfold_locales, goal_cases)
  case (1 f a f')
  then show ?case by (auto simp del: full_step.simps dest: full_stopping_work full_stopping_stop)
next
  case (2 f a f')
  then show ?case by (auto simp del: full_step.simps dest: full_stopping_work full_stopping_stop)
next
  case (3 f)
  then have s: "stopping n (threads f)" by (simp add: full_stopping_def)
  from stopping_progress [OF s 3(2)] consider i p where "i < n" "pool_step (Work i) (threads f) = Some p"
    | p where "pool_step Stopping (threads f) = Some p" by auto
  then show ?case
  proof cases
    case 1
    then have "full_work K i f \<noteq> None" by (intro full_work_moves) simp
    with 1 stopping_workers [OF s] show ?thesis by (intro exI [of _ "Pool_Act (Work i)"]) auto
  next
    case 2
    then show ?thesis by (intro exI [of _ "Pool_Act Stopping"]) (simp add: move_pool_def)
  qed
qed

text \<open>
  C11. If the clients read, no worker is about to fall asleep when \<open>stop\<close> notifies and the interrupted
  \<open>enqueue\<close> does not hold the mutex, then \<open>stop\<close> returns within \<open>stop_load\<close> steps under every schedule, whatever
  echo tasks the workers are in the middle of.
\<close>

lemma server_stop_returns:
  assumes "clients_read K good patience" "good (kst f)" "full_reach K obs n allowed f" "hnd (threads f) = HNotify"
    "WBlock \<notin> set (workers (threads f))" "\<not> net_holds (net (threads f))" "full_step K obs (Pool_Act Stopping) f = Some g"
  shows "(\<exists>as h. full_run K obs as g = Some h \<and> list_all (\<lambda>a. (\<exists>i<n. a = Pool_Act (Work i)) \<or> a = Pool_Act Stopping) as \<and>
      hnd (threads h) = HNone \<and> list_all (\<lambda>pc. pc = WExit) (workers (threads h))) \<and>
    (\<forall>as h. full_run K obs as g = Some h \<and> list_all (\<lambda>a. (\<exists>i<n. a = Pool_Act (Work i)) \<or> a = Pool_Act Stopping) as \<longrightarrow>
      length as \<le> stop_load n patience g \<and>
      (hnd (threads h) = HNone \<or> (\<exists>a. full_step K obs a h \<noteq> None \<and> ((\<exists>i<n. a = Pool_Act (Work i)) \<or> a = Pool_Act Stopping))))"
proof -
  have m: "move_pool Stopping f = Some g" using assms(7) by simp
  have "stopping n (threads g)"
    using notified_stopping [OF full_reach_pool [OF assms(3)] assms(4,5,6) move_pool_threads [OF m]] .
  then have ok: "full_stopping K n good patience g"
    using move_pool_frame [OF m] full_reach_outs [OF assms(3)] assms(1,2) by (simp add: full_stopping_def)
  show ?thesis
  proof (intro conjI allI impI)
    show "\<exists>as h. full_run K obs as g = Some h \<and> list_all (\<lambda>a. (\<exists>i<n. a = Pool_Act (Work i)) \<or> a = Pool_Act Stopping) as \<and>
        hnd (threads h) = HNone \<and> list_all (\<lambda>pc. pc = WExit) (workers (threads h))"
    proof -
      obtain as h where h: "list_all (\<lambda>a. (\<exists>i<n. a = Pool_Act (Work i)) \<or> a = Pool_Act Stopping) as"
        "full_run K obs as g = Some h" "full_stopping K n good patience h" "hnd (threads h) = HNone"
        using serverstop.finishes [OF ok, of obs] by blast
      then have "list_all (\<lambda>pc. pc = WExit) (workers (threads h))" by (simp add: full_stopping_def stopping_def)
      with h show ?thesis by blast
    qed
    fix as h
    assume run: "full_run K obs as g = Some h \<and> list_all (\<lambda>a. (\<exists>i<n. a = Pool_Act (Work i)) \<or> a = Pool_Act Stopping) as"
    then have b: "full_stopping K n good patience h \<and> length as + stop_load n patience h \<le> stop_load n patience g"
      by (intro serverstop.run_bounded [where obs = obs]) (simp_all add: ok)
    then show "length as \<le> stop_load n patience g" by simp
    from b show "hnd (threads h) = HNone \<or>
        (\<exists>a. full_step K obs a h \<noteq> None \<and> ((\<exists>i<n. a = Pool_Act (Work i)) \<or> a = Pool_Act Stopping))"
      using serverstop.progress [of K n good patience h obs] by (metis option.distinct(1))
  qed
qed

subsection \<open>A client that does not read\<close>

text \<open>\<open>fd\<close> takes no more bytes: every write to it would block.\<close>

definition blocked :: "'k kernel \<Rightarrow> fd \<Rightarrow> bool" where
  "blocked K fd \<longleftrightarrow> (\<forall>bs k. bs \<noteq> [] \<longrightarrow> (case fst (sys_write K fd bs k) of Inl e \<Rightarrow> would_block e | Inr n \<Rightarrow> False))"

lemma blocked_write:
  assumes "blocked K fd" "off < length buf"
  shows "\<exists>k'. echo_write K fd buf off k = (Some off, k')"
proof -
  obtain r k' where w: "sys_write K fd (drop off buf) k = (r, k')" by fastforce
  from assms(1) have "drop off buf \<noteq> [] \<longrightarrow> (case fst (sys_write K fd (drop off buf) k) of Inl e \<Rightarrow> would_block e | Inr n \<Rightarrow> False)"
    unfolding blocked_def by blast
  with w assms(2) show ?thesis by (auto simp: echo_write_def split: sum.splits)
qed

text \<open>Worker \<open>i\<close> is writing to the client, and \<open>stop\<close> has been called and has not joined this worker.\<close>

definition hung :: "nat \<Rightarrow> nat \<Rightarrow> fd \<Rightarrow> byte list \<Rightarrow> 'k full \<Rightarrow> bool" where
  "hung n i fd buf f \<longleftrightarrow> pool_inv n (threads f) \<and> length (outs f) = n \<and> i < n \<and>
     workers (threads f) ! i = WRun (EchoTask fd buf) \<and> outs f ! i < length buf \<and>
     (case hnd (threads f) of HNone \<Rightarrow> False | HJoin k \<Rightarrow> k \<le> i | _ \<Rightarrow> True)"

lemma worker_loop_other:
  "worker_loop j s = Some s' \<Longrightarrow> i \<noteq> j \<Longrightarrow> workers s' ! i = workers s ! i \<and> hnd s' = hnd s"
  by (cases "workers s ! j") (auto simp: worker_loop_def split: if_splits list.splits)

lemma hung_work:
  assumes "blocked K fd" "hung n i fd buf f" "j < length (workers (threads f))" "full_work K j f = Some f'"
  shows "workers (threads f') ! i = workers (threads f) ! i \<and> hnd (threads f') = hnd (threads f) \<and> outs f' ! i = outs f ! i"
proof (cases "j = i")
  case True
  obtain k' where "echo_write K fd buf (outs f ! i) (kst f) = (Some (outs f ! i), k')"
    using blocked_write [OF assms(1), of "outs f ! i" buf "kst f"] assms(2) by (auto simp: hung_def)
  with True assms(2,4) show ?thesis by (auto simp: full_work_def hung_def)
next
  case False
  then have "outs f' ! i = outs f ! i"
    using assms(4) by (auto simp: full_work_def split: wpc.splits task.splits if_splits prod.splits option.splits
        dest!: move_pool_frame)
  moreover have "threads f' = threads f \<or> worker_loop j (threads f) = Some (threads f')"
    using full_work_pool [OF assms(3,4)] by (auto split: if_splits)
  ultimately show ?thesis using worker_loop_other [of j "threads f" "threads f'" i] False by auto
qed

lemma hung_stop:
  assumes "hung n i fd buf f" "stop (threads f) = Some s'"
  shows "workers s' ! i = workers (threads f) ! i \<and> (case hnd s' of HNone \<Rightarrow> False | HJoin k \<Rightarrow> k \<le> i | _ \<Rightarrow> True)"
proof -
  have h: "length (workers (threads f)) = n" "i < n" "workers (threads f) ! i = WRun (EchoTask fd buf)" "join_ok (threads f)"
    using assms(1) by (simp_all add: hung_def pool_inv_def)
  then have "\<not> joined (threads f) ! i" by (auto simp: join_ok_def)
  with h assms show ?thesis
    by (auto simp: stop_def hung_def wake_def le_less Suc_le_eq split: hpc.splits if_splits)
qed

lemma hung_step:
  assumes b: "blocked K fd" and h: "hung n i fd buf f" and step: "full_step K obs a f = Some f'"
  shows "hung n i fd buf f'"
proof -
  have inv: "pool_inv n (threads f') \<and> length (outs f') = n"
    using serversim.inv_step [OF _ step, of n] h by (simp add: hung_def)
  have busy: "hnd (threads f) \<noteq> HNone" "\<not> net_free f" using h by (auto simp: hung_def net_free_def)
  have len: "length (workers (threads f)) = n" using h by (simp add: hung_def pool_inv_def)
  obtain c where c: "a = Pool_Act c" using step busy by (cases a) auto
  have "workers (threads f') ! i = workers (threads f) ! i \<and> outs f' ! i = outs f ! i \<and>
      (case hnd (threads f') of HNone \<Rightarrow> False | HJoin k \<Rightarrow> k \<le> i | _ \<Rightarrow> True)"
  proof (cases c)
    case (Work j)
    with c step have "j < length (workers (threads f))" "full_work K j f = Some f'" by (auto split: if_splits)
    with hung_work [OF b h] h show ?thesis by (simp add: hung_def)
  next
    case Stopping
    with c step have m: "move_pool Stopping f = Some f'" by simp
    with hung_stop [OF h] move_pool_threads [OF m] move_pool_frame [OF m] show ?thesis by simp
  next
    case (Spurious j)
    with c step have m: "move_pool (Spurious j) f = Some f'" by simp
    have "threads f' = set_worker j WWake (threads f) \<and> workers (threads f) ! j = WSleep"
      using move_pool_threads [OF m] by (auto split: if_splits)
    moreover from this have "j \<noteq> i" using h by (auto simp: hung_def)
    ultimately show ?thesis using move_pool_frame [OF m] h by (simp add: hung_def)
  qed (use c step busy in \<open>auto simp: move_pool_def\<close>)
  with inv h show ?thesis by (simp add: hung_def)
qed

text \<open>
  C25. One client that stops reading keeps the server from shutting down: if a worker has bytes left to write to it
  when \<open>stop\<close> is called, the write loop retries for ever and \<open>stop\<close> never returns, under any schedule and
  whatever else happens.
\<close>

lemma slow_client_blocks_shutdown:
  assumes "blocked K fd" "full_reach K obs n allowed f" "i < n" "workers (threads f) ! i = WRun (EchoTask fd buf)"
    "outs f ! i < length buf" "hnd (threads f) = HSet" "full_run K obs as f = Some f'"
  shows "hnd (threads f') \<noteq> HNone \<and> workers (threads f') ! i = WRun (EchoTask fd buf)"
proof -
  have "hung n i fd buf f" using full_reach_ok [OF assms(2)] assms by (simp add: hung_def)
  with assms(7) have "hung n i fd buf f'" using prun_inv [of "full_step K obs" as f f' "hung n i fd buf"] hung_step [OF assms(1)] by blast
  then show ?thesis by (auto simp: hung_def)
qed

subsection \<open>The destructor calls stop again\<close>

text \<open>
  A second call of \<open>stop\<close>, which the destructor of the pool makes after the signal handler's, needs no other
  thread: it finds every worker joined, returns after a fixed number of its own steps and changes nothing.
\<close>

lemma second_stop_returns:
  assumes "pool_inv n s" "hnd s = HNone" "list_all id (joined s)" "\<not> running s"
  shows "pool_run (replicate (n + 3) Stopping) (s\<lparr>hnd := HSet\<rparr>) = Some s"
proof -
  have n: "length (workers s) = n" "join_ok s" using assms(1) by (simp_all add: pool_inv_def)
  have j: "joined s ! k" if "k < n" for k
    using assms(3) n that by (simp add: join_ok_def list_all_length)
  have exits: "map wake (workers s) = workers s"
    using n j by (intro nth_equalityI) (auto simp: join_ok_def wake_def)
  have rest: "pool_run (replicate (Suc m) Stopping) (s\<lparr>hnd := HJoin k\<rparr>) = Some s" if "k + m = n" for k m
    using that
  proof (induction m arbitrary: k)
    case 0
    with n assms(2) show ?case by (simp add: stop_def)
  next
    case (Suc m)
    with n j [of k] have "stop (s\<lparr>hnd := HJoin k\<rparr>) = Some (s\<lparr>hnd := HJoin (Suc k)\<rparr>)" by (simp add: stop_def)
    with Suc.IH [of "Suc k"] Suc.prems show ?case by simp
  qed
  have "stop (s\<lparr>hnd := HSet\<rparr>) = Some (s\<lparr>hnd := HNotify\<rparr>)" "stop (s\<lparr>hnd := HNotify\<rparr>) = Some (s\<lparr>hnd := HJoin 0\<rparr>)"
    using assms(4) exits by (cases s, simp add: stop_def)+
  with rest [of 0 n] assms(2) have "pool_run (Stopping # Stopping # replicate (Suc n) Stopping) (s\<lparr>hnd := HSet\<rparr>) = Some s"
    by simp
  then show ?thesis by (simp add: numeral_3_eq_3 del: prun.simps)
qed

subsection \<open>Executions\<close>

text \<open>The worker has taken the echo task and has written nothing yet.\<close>

definition echoing :: "full_act list" where
  "echoing = one_chunk @ replicate 5 (Pool_Act (Work 0))"

lemma server_stop_returns_witness:
  "\<exists>f g as h. full_demo sim_kernel 1 one_client (echoing @ [Pool_Act Stop, Pool_Act Stopping]) = Some f \<and>
     full_step sim_kernel simnet (Pool_Act Stopping) f = Some g \<and> full_run sim_kernel simnet as g = Some h \<and>
     hnd (threads h) = HNone"
proof -
  let ?as = "echoing @ [Pool_Act Stop, Pool_Act Stopping]"
  obtain f where f: "full_demo sim_kernel 1 one_client ?as = Some f"
    by (simp add: one_client_def echoing_def one_chunk_def full_eval)
  then have d: "hnd (threads f) = HNotify" "WBlock \<notin> set (workers (threads f))" "\<not> net_holds (net (threads f))"
    "sim_reads (kst f)" "full_step sim_kernel simnet (Pool_Act Stopping) f \<noteq> None"
    by (auto simp: one_client_def echoing_def one_chunk_def full_eval sim_reads_def would_block_def)
  obtain g where g: "full_step sim_kernel simnet (Pool_Act Stopping) f = Some g" using d(5) by blast
  have "full_reach sim_kernel simnet 1 (\<lambda>_. True) f"
    by (rule full_demo_reach [OF _ f]) (simp_all add: one_client_def sim_new_def list_all_iff)
  from server_stop_returns [OF sim_clients_read d(4) this d(1-3) g] f g show ?thesis by blast
qed

definition stuck_kernel :: "sim kernel" where
  "stuck_kernel = sim_kernel\<lparr>sys_write := (\<lambda>fd bs k. (Inl EAGAIN, k))\<rparr>"

lemma slow_client_blocks_shutdown_witness:
  "\<exists>f f'. full_demo stuck_kernel 1 one_client (echoing @ [Pool_Act Stop]) = Some f \<and>
     full_run stuck_kernel simnet [Pool_Act Stopping, Pool_Act (Work 0), Pool_Act Stopping, Pool_Act (Work 0)] f = Some f' \<and>
     hnd (threads f') \<noteq> HNone"
proof -
  obtain f where f: "full_demo stuck_kernel 1 one_client (echoing @ [Pool_Act Stop]) = Some f"
    by (simp add: stuck_kernel_def one_client_def echoing_def one_chunk_def full_eval)
  then have d: "workers (threads f) ! 0 = WRun (EchoTask 5 [1])" "outs f ! 0 < length [1 :: byte]" "hnd (threads f) = HSet"
    by (auto simp: stuck_kernel_def one_client_def echoing_def one_chunk_def full_eval)
  obtain f' where f': "full_run stuck_kernel simnet
      [Pool_Act Stopping, Pool_Act (Work 0), Pool_Act Stopping, Pool_Act (Work 0)] f = Some f'"
    using f by (auto simp: stuck_kernel_def one_client_def echoing_def one_chunk_def full_eval)
  have b: "blocked stuck_kernel 5" by (simp add: blocked_def stuck_kernel_def would_block_def)
  have "full_reach stuck_kernel simnet 1 (\<lambda>_. True) f"
    by (rule full_demo_reach [OF _ f]) (simp_all add: one_client_def sim_new_def list_all_iff)
  from slow_client_blocks_shutdown [OF b this zero_less_one d f'] f f' show ?thesis by blast
qed

end
