(* ===== verification/Server_Process.thy ===== *)
theory Server_Process imports
  Server_Shutdown
begin

text \<open>
  The life of the epoll server's process after its construction, as \<open>main\<close> of \<open>flavors/epoll/main.cpp\<close> has it:
  the network thread runs the event loop until \<open>running_\<close> is false or \<open>epoll_wait\<close> fails, the signal handler
  calls \<open>shutdown()\<close> on it, and when \<open>main\<close> has returned the destructor of the static \<open>g_server\<close> closes
  both descriptors and stops the pool once more.
\<close>

subsection \<open>State and steps\<close>

datatype phase = Serving | Returned | Destroying | Exited

text \<open>The phases are ordered as they follow each other.\<close>

fun phase_rank :: "phase \<Rightarrow> nat" where
  "phase_rank Serving = 0" | "phase_rank Returned = 1" | "phase_rank Destroying = 2" | "phase_rank Exited = 3"

lemma phase_rank_inj: "phase_rank x = phase_rank y \<Longrightarrow> x = y"
  by (cases x; cases y) auto

instantiation phase :: linorder
begin

definition less_eq_phase :: "phase \<Rightarrow> phase \<Rightarrow> bool" where "less_eq_phase x y \<longleftrightarrow> phase_rank x \<le> phase_rank y"

definition less_phase :: "phase \<Rightarrow> phase \<Rightarrow> bool" where "less_phase x y \<longleftrightarrow> phase_rank x < phase_rank y"

instance
  by standard (auto simp: less_eq_phase_def less_phase_def dest: phase_rank_inj)

end

record 'k process =
  sys :: "'k full"
  running_flag :: bool
  phase :: phase

definition process_new :: "nat \<Rightarrow> echo_server \<Rightarrow> 'k \<Rightarrow> 'k process" where
  "process_new n srv k = \<lparr>sys = full_new n srv k, running_flag = True, phase = Serving\<rparr>"

definition shutdown :: "'k process \<Rightarrow> 'k process option" where
  "shutdown p = map_option (\<lambda>f. p\<lparr>sys := f, running_flag := False\<rparr>) (move_pool Stop (sys p))"

text \<open>
  The handler does nothing unless \<open>g_server\<close> is set, and the pointer keeps its value until the destructor it
  runs has returned. A signal that finds a call of \<open>stop\<close> under way on the same thread is not modelled: the step is not enabled.
\<close>

definition signal_handler :: "'k process \<Rightarrow> 'k process option" where
  "signal_handler p = (if phase p = Exited then Some p else shutdown p)"

text \<open>\<open>~EchoServer\<close>: the body closes the descriptors, then the destructor of the member \<open>pool_\<close> calls \<open>stop\<close>.\<close>

definition destroy_server :: "'k kernel \<Rightarrow> 'k process \<Rightarrow> 'k process option" where
  "destroy_server K p =
     (let f = sys p; k' = epoll_server_delete K (base f) (kst f)
      in map_option (\<lambda>f'. p\<lparr>sys := f', phase := Destroying\<rparr>) (move_pool Stop (f\<lparr>kst := k'\<rparr>)))"

text \<open>
  \<open>Step a\<close> is a step of the server: one of the network thread's handlers only while it serves, \<open>stop\<close> only through
  \<open>Signal\<close> and \<open>Destroy\<close>. \<open>Loop_Test\<close> and \<open>Wait_Fails\<close> are the two ways out of the event loop.
\<close>

datatype proc_act = Step full_act | Signal | Loop_Test | Wait_Fails | Destroy | Exit_Process

fun net_act :: "full_act \<Rightarrow> bool" where
  "net_act (Pool_Act a) = False"
| "net_act _ = True"

fun proc_step :: "'k kernel \<Rightarrow> ('k \<Rightarrow> netobs) \<Rightarrow> proc_act \<Rightarrow> 'k process \<Rightarrow> 'k process option" where
  "proc_step K obs (Step a) p =
     (if a = Pool_Act Stop \<or> phase p = Exited \<or> net_act a \<and> phase p \<noteq> Serving then None
      else map_option (\<lambda>f. p\<lparr>sys := f\<rparr>) (full_step K obs a (sys p)))"
| "proc_step K obs Signal p = signal_handler p"
| "proc_step K obs Loop_Test p =
     (if phase p = Serving \<and> net_free (sys p) then Some (if running_flag p then p else p\<lparr>phase := Returned\<rparr>) else None)"
| "proc_step K obs Wait_Fails p =
     (if phase p = Serving \<and> net_free (sys p) then Some (p\<lparr>phase := Returned\<rparr>) else None)"
| "proc_step K obs Destroy p =
     (if phase p = Returned \<and> net_free (sys p) then destroy_server K p else None)"
| "proc_step K obs Exit_Process p =
     (if phase p = Destroying \<and> net_free (sys p) then Some (p\<lparr>phase := Exited\<rparr>) else None)"

abbreviation proc_run :: "'k kernel \<Rightarrow> ('k \<Rightarrow> netobs) \<Rightarrow> proc_act list \<Rightarrow> 'k process \<Rightarrow> 'k process option" where
  "proc_run K obs \<equiv> prun (proc_step K obs)"

text \<open>The steps of the network thread itself: no worker has to move for them.\<close>

fun net_thread :: "proc_act \<Rightarrow> bool" where
  "net_thread (Step (Pool_Act (Work i))) = False"
| "net_thread (Step (Pool_Act (Spurious i))) = False"
| "net_thread Signal = False"
| "net_thread a = True"

lemma phase_advances: "proc_step K obs a p = Some p' \<Longrightarrow> phase p \<le> phase p'"
  by (cases a) (auto simp del: full_step.simps simp: signal_handler_def shutdown_def destroy_server_def less_eq_phase_def Let_def
      split: if_splits)

lemma phase_run_advances: "proc_run K obs as p = Some p' \<Longrightarrow> phase p \<le> phase p'"
proof (induction as arbitrary: p)
  case (Cons a as)
  then obtain q where "proc_step K obs a p = Some q" "proc_run K obs as q = Some p'" by (auto simp: bind_eq_Some_conv)
  with Cons.IH [of q] show ?case by (auto dest: phase_advances)
qed simp

subsection \<open>Nothing runs when the process exits\<close>

definition all_joined :: "'a pool \<Rightarrow> bool" where
  "all_joined s \<longleftrightarrow> list_all id (joined s)"

text \<open>A call of \<open>stop\<close> that has been made is under way, or has joined everybody.\<close>

definition stop_done :: "'a pool \<Rightarrow> bool" where
  "stop_done s \<longleftrightarrow> (hnd s = HNone \<longrightarrow> all_joined s \<and> \<not> running s)"

definition proc_inv :: "nat \<Rightarrow> 'k process \<Rightarrow> bool" where
  "proc_inv n p \<longleftrightarrow> pool_inv n (threads (sys p)) \<and> length (outs (sys p)) = n \<and>
     (phase p = Destroying \<or> \<not> running_flag p \<longrightarrow> stop_done (threads (sys p))) \<and>
     (phase p = Destroying \<longrightarrow> net (threads (sys p)) = NIdle) \<and>
     (phase p = Exited \<longrightarrow> all_joined (threads (sys p)))"

lemma all_joined_exits: "pool_inv n s \<Longrightarrow> all_joined s \<Longrightarrow> list_all (\<lambda>pc. pc = WExit) (workers s)"
  by (simp add: pool_inv_def join_ok_def all_joined_def list_all_length)

lemma exits_no_work: "list_all (\<lambda>pc. pc = WExit) (workers s) \<Longrightarrow> pool_step (Work i) s = None"
  by (simp add: list_all_length worker_loop_def)

lemma stop_done_step:
  assumes "pool_inv n s" "pool_step a s = Some s'" "stop_done s"
  shows "stop_done s'"
proof (cases a)
  case (Work i)
  with assms(2) have w: "worker_loop i s = Some s'" by (auto split: if_splits)
  have "hnd s \<noteq> HNone"
    using exits_no_work [OF all_joined_exits [OF assms(1)], of i] assms(2,3) Work by (auto simp: stop_done_def)
  with work_frame [OF w] show ?thesis by (simp add: stop_done_def)
next
  case Stopping
  have j: "join_ok s" "length (workers s) = n" using assms(1) by (simp_all add: pool_inv_def)
  with Stopping assms(2) show ?thesis
    by (auto simp: stop_def join_ok_def stop_done_def all_joined_def list_all_length split: hpc.splits if_splits)
qed (use assms in \<open>auto simp: enqueue_def stop_done_def all_joined_def split: npc.splits if_splits\<close>)

lemma net_stays_idle:
  "pool_step a s = Some s' \<Longrightarrow> (\<And>t. a \<noteq> Submit t) \<Longrightarrow> net s = NIdle \<Longrightarrow> net s' = NIdle"
  by (cases a) (auto simp: enqueue_def stop_def split: hpc.splits if_splits dest: work_frame)

lemma full_step_act:
  "full_step K obs (Pool_Act a) f = Some f' \<Longrightarrow>
     (threads f' = threads f \<or> pool_step a (threads f) = Some (threads f')) \<and> (\<forall>t. a \<noteq> Submit t)"
  by (auto simp del: pool_step.simps split: if_splits action.splits dest!: move_pool_threads full_work_pool)

lemma full_step_stop_done:
  assumes "full_step K obs a f = Some f'" "pool_inv n (threads f)" "stop_done (threads f)"
  shows "stop_done (threads f')"
  using full_step_pool [OF assms(1)] stop_done_step [OF assms(2) _ assms(3)] assms(3) by auto

lemma move_stop:
  assumes "move_pool Stop f = Some f'" "pool_inv n (threads f) \<and> length (outs f) = n"
  shows "pool_inv n (threads f') \<and> length (outs f') = n \<and> net (threads f') = net (threads f) \<and> stop_done (threads f')"
  using assms pool_step_inv [OF _ move_pool_threads [OF assms(1)], of n]
  by (auto simp: move_pool_def stop_done_def split: if_splits)

lemma proc_step_inv:
  assumes inv: "proc_inv n p" and step: "proc_step K obs a p = Some p'"
  shows "proc_inv n p'"
proof (cases a)
  case (Step b)
  with step obtain f where f: "full_step K obs b (sys p) = Some f" "p' = p\<lparr>sys := f\<rparr>"
    "phase p \<noteq> Exited" "net_act b \<longrightarrow> phase p = Serving" by (auto simp del: full_step.simps split: if_splits)
  have pool: "pool_inv n (threads (sys p)) \<and> length (outs (sys p)) = n" using inv by (simp add: proc_inv_def)
  have ok: "pool_inv n (threads f) \<and> length (outs f) = n" using serversim.inv_step [OF pool f(1)] .
  have "stop_done (threads f)" if "phase p = Destroying \<or> \<not> running_flag p"
    using full_step_stop_done [OF f(1), of n] pool that inv by (simp add: proc_inv_def)
  moreover have "net (threads f) = NIdle" if d: "phase p = Destroying"
  proof -
    obtain c where c: "b = Pool_Act c" using f(4) d by (cases b) auto
    from full_step_act [OF f(1) [unfolded c]] net_stays_idle d inv show ?thesis by (auto simp: proc_inv_def)
  qed
  ultimately show ?thesis using ok f by (simp add: proc_inv_def)
next
  case Signal
  with step inv show ?thesis
    by (auto simp: signal_handler_def shutdown_def proc_inv_def split: if_splits dest!: move_stop)
next
  case Destroy
  with step inv show ?thesis
    by (auto simp: destroy_server_def proc_inv_def Let_def net_free_def split: if_splits dest!: move_stop)
qed (use step inv in \<open>auto simp: proc_inv_def net_free_def stop_done_def split: if_splits\<close>)

lemma proc_run_inv: "proc_run K obs as (process_new n srv k) = Some p \<Longrightarrow> proc_inv n p"
proof (erule prun_inv [where I = "proc_inv n"])
  show "proc_inv n (process_new n srv k)" by (simp add: proc_inv_def process_new_def full_new_def pool_inv_new)
qed (rule proc_step_inv)

text \<open>
  C24. The process never exits under a running thread: when the destruction of the server is over, every worker has
  been joined and has left its loop, every task that was started has finished, and no worker can move any more.
\<close>

lemma process_exits_quietly:
  assumes "proc_run K obs as (process_new n srv k) = Some p" "phase p = Exited"
  shows "list_all id (joined (threads (sys p))) \<and> list_all (\<lambda>pc. pc = WExit) (workers (threads (sys p))) \<and>
    mset (started (threads (sys p))) = mset (finished (threads (sys p))) \<and> (\<forall>i. pool_step (Work i) (threads (sys p)) = None)"
proof -
  have inv: "pool_inv n (threads (sys p))" "all_joined (threads (sys p))"
    using proc_run_inv [OF assms(1)] assms(2) by (simp_all add: proc_inv_def)
  note x = all_joined_exits [OF inv]
  then have "in_flight (threads (sys p)) = {#}"
    unfolding in_flight_def by (intro sum_mset.neutral) (auto simp: list_all_iff)
  with inv x exits_no_work [OF x] show ?thesis by (simp add: pool_inv_def all_joined_def)
qed

subsection \<open>The process exits\<close>

text \<open>Once every worker has left, an \<open>enqueue\<close> that the handler interrupted ends by itself.\<close>

lemma enqueue_step_alone:
  assumes "lock_ok s" "list_all (\<lambda>pc. pc = WExit) (workers s)" "net s \<noteq> NIdle"
  shows "\<exists>s'. enqueue 0 s = Some s' \<and> workers s' = workers s \<and> joined s' = joined s \<and> running s' = running s \<and> hnd s' = hnd s \<and>
    (case net s of NLock t \<Rightarrow> net s' = NPush t | NPush t \<Rightarrow> net s' = NUnlock | NUnlock \<Rightarrow> net s' = NNotify | _ \<Rightarrow> net s' = NIdle)"
proof -
  have no: "WSleep \<notin> set (workers s)" "\<And>w. w < length (workers s) \<Longrightarrow> workers s ! w = WExit"
    using assms(2) by (auto simp: list_all_iff list_all_length)
  have "mtx s \<noteq> Some (Worker w)" for w using assms(1,2) by (auto simp: lock_ok_def list_all_length)
  then have "mtx s = None" if "\<not> net_holds (net s)"
    using that assms(1) by (cases "mtx s") (auto simp: lock_ok_def, metis owner.exhaust)
  with no assms(3) show ?thesis by (cases "net s") (auto simp: enqueue_def)
qed

lemma enqueue_finishes_alone:
  assumes "pool_inv n s" "list_all (\<lambda>pc. pc = WExit) (workers s)" "hnd s = HNone"
  shows "\<exists>m\<le>4. \<exists>s'. pool_run (replicate m (Enqueue 0)) s = Some s' \<and> net s' = NIdle \<and> hnd s' = HNone \<and>
    joined s' = joined s \<and> running s' = running s"
proof -
  define left where "left = (\<lambda>x :: 'a npc. case x of NIdle \<Rightarrow> 0 | NNotify \<Rightarrow> 1 | NUnlock \<Rightarrow> 2 | NPush t \<Rightarrow> 3 | NLock t \<Rightarrow> (4 :: nat))"
  have "\<exists>s'. pool_run (replicate (left (net s)) (Enqueue 0)) s = Some s' \<and> net s' = NIdle \<and> hnd s' = HNone \<and>
      joined s' = joined s \<and> running s' = running s"
    using assms
  proof (induction "left (net s)" arbitrary: s)
    case 0
    then show ?case by (cases "net s") (auto simp: left_def)
  next
    case (Suc m)
    then have ne: "net s \<noteq> NIdle" by (auto simp: left_def)
    obtain t where t: "enqueue 0 s = Some t" "workers t = workers s" "joined t = joined s" "running t = running s" "hnd t = hnd s"
      "left (net t) = m"
      using enqueue_step_alone [OF _ Suc.prems(2) ne] Suc.prems(1) Suc.hyps(2)
      by (cases "net s") (auto simp: pool_inv_def left_def)
    have "pool_inv n t" using pool_step_inv [OF Suc.prems(1), of "Enqueue 0"] t Suc.prems(3) by simp
    with Suc.hyps(1) [of t] t Suc.prems have "\<exists>s'. pool_run (replicate m (Enqueue 0)) t = Some s' \<and> net s' = NIdle \<and>
        hnd s' = HNone \<and> joined s' = joined t \<and> running s' = running t" by simp
    with t Suc.prems(3) Suc.hyps(2) [symmetric] show ?case by simp
  qed
  moreover have "left (net s) \<le> 4" by (cases "net s") (auto simp: left_def)
  ultimately show ?thesis by blast
qed

text \<open>A run of the pool's own actions inside the process.\<close>

lemma proc_pool_run:
  assumes "pool_run as (threads (sys p)) = Some s'" "phase p \<noteq> Exited"
    "list_all (\<lambda>a. a = Stopping \<or> (\<exists>w. a = Enqueue w)) as"
  shows "proc_run K obs (map (\<lambda>a. Step (Pool_Act a)) as) p = Some (p\<lparr>sys := (sys p)\<lparr>threads := s'\<rparr>\<rparr>)"
  using assms
proof (induction as arbitrary: p)
  case (Cons a as)
  then obtain t where t: "pool_step a (threads (sys p)) = Some t" "pool_run as t = Some s'" by (auto simp: bind_eq_Some_conv)
  let ?q = "p\<lparr>sys := (sys p)\<lparr>threads := t\<rparr>\<rparr>"
  have "proc_step K obs (Step (Pool_Act a)) p = Some ?q"
    using t(1) Cons.prems(2,3) by (auto simp: move_pool_def)
  with Cons.IH [of ?q] t(2) Cons.prems show ?case by simp
qed simp


subsection \<open>Executions\<close>

definition proc_demo :: "proc_act list \<Rightarrow> sim process option" where
  "proc_demo as =
     (case epoll_server_new sim_kernel 8080 1 one_client of
        (Inl _, _) \<Rightarrow> None
      | (Inr srv, k') \<Rightarrow> proc_run sim_kernel simnet as (process_new 1 srv k'))"

lemmas proc_eval = proc_demo_def process_new_def signal_handler_def shutdown_def destroy_server_def
  epoll_server_delete_def full_eval

text \<open>The signal arrives while the first chunk of a client is being put into the queue.\<close>

definition interrupted :: "proc_act list" where
  "interrupted = [Step Net_Accept, Step (Net_Read 5), Signal, Step (Pool_Act Stopping), Step (Pool_Act Stopping),
     Step (Pool_Act (Work 0)), Step (Pool_Act Stopping), Step (Pool_Act Stopping)]"

lemma proc_demo_run:
  assumes "proc_demo as = Some p"
  obtains srv k where "proc_run sim_kernel simnet as (process_new 1 srv k) = Some p"
  using assms by (auto simp: proc_demo_def split: prod.splits sum.splits)


lemma process_exits_quietly_witness:
  "\<exists>p. proc_demo (interrupted @ replicate 4 (Step (Pool_Act (Enqueue 0))) @ [Loop_Test, Destroy] @
      replicate 4 (Step (Pool_Act Stopping)) @ [Exit_Process]) = Some p \<and>
     list_all (\<lambda>pc. pc = WExit) (workers (threads (sys p))) \<and> tasks (threads (sys p)) = [EchoTask 5 [1]]"
proof -
  let ?as = "interrupted @ replicate 4 (Step (Pool_Act (Enqueue 0))) @ [Loop_Test, Destroy] @
      replicate 4 (Step (Pool_Act Stopping)) @ [Exit_Process]"
  obtain p where p: "proc_demo ?as = Some p" by (simp add: one_client_def interrupted_def proc_eval)
  then have d: "phase p = Exited" "tasks (threads (sys p)) = [EchoTask 5 [1]]"
    by (auto simp: one_client_def interrupted_def proc_eval)
  obtain srv k where r: "proc_run sim_kernel simnet ?as (process_new 1 srv k) = Some p" using p by (rule proc_demo_run)
  from process_exits_quietly [OF r d(1)] p d(2) show ?thesis by blast
qed

end
