(* ===== verification/Kqueue_Server.thy ===== *)
theory Kqueue_Server imports
  Epoll_Server
begin

text \<open>
  \<open>EchoServer\<close> of \<open>src/echo_server/flavors/kqueue/server.cpp\<close>, the macOS flavour, over the same kernel
  interface (\<open>sys_poll_create\<close> is \<open>kqueue()\<close>, \<open>sys_poll_add\<close> and \<open>sys_poll_del\<close> are \<open>kevent\<close> with \<open>EV_ADD\<close> and
  \<open>EV_DELETE\<close>, \<open>sys_poll_wait\<close> is \<open>kevent\<close> with a timeout), and the stub of the other platforms. It makes sockets
  non-blocking with \<open>fcntl\<close>, has its own event bits, and otherwise behaves as the epoll flavour does.
\<close>

subsection \<open>The flavour\<close>

text \<open>The class has the fields of the epoll one, with the kqueue descriptor for the epoll one.\<close>

type_synonym kq_echo_server = echo_server

definition O_NONBLOCK :: "32 word" where "O_NONBLOCK = 4"

definition EV_ERROR :: "32 word" where "EV_ERROR = 0x4000"

definition EVFILT_READ :: int where "EVFILT_READ = - 1"

definition set_nonblocking :: "'k kernel \<Rightarrow> fd \<Rightarrow> 'k \<Rightarrow> 'k" where
  "set_nonblocking K d k = (let (fl, k1) = sys_fcntl_getfl K d k in sys_fcntl_setfl K d (fl OR O_NONBLOCK) k1)"

definition kqueue_server_new ::
  "'k kernel \<Rightarrow> u16 \<Rightarrow> nat \<Rightarrow> 'k \<Rightarrow> (exn + kq_echo_server) \<times> 'k" where
  "kqueue_server_new K p num_workers k =
     (case sys_socket K False k of
        (Inl e, k1) \<Rightarrow> (Inl (Runtime_error ''socket: '' e), k1)
      | (Inr lfd, k1) \<Rightarrow>
          (case sys_bind K lfd p (sys_setsockopt K lfd SO_REUSEADDR (set_nonblocking K lfd k1)) of
             (Inl e, k2) \<Rightarrow> (Inl (Runtime_error ''bind: '' e), sys_close K lfd k2)
           | (Inr _, k2) \<Rightarrow>
               (case sys_listen K lfd k2 of
                  (Inl e, k3) \<Rightarrow> (Inl (Runtime_error ''listen: '' e), sys_close K lfd k3)
                | (Inr _, k3) \<Rightarrow>
                    (case sys_poll_create K k3 of
                       (Inl e, k4) \<Rightarrow> (Inl (Runtime_error ''kqueue: '' e), sys_close K lfd k4)
                     | (Inr kq, k4) \<Rightarrow>
                         (case sys_poll_add K kq lfd k4 of
                            (Inl e, k5) \<Rightarrow>
                              (Inl (Runtime_error ''kevent add listen: '' e), sys_close K kq (sys_close K lfd k5))
                          | (Inr _, k5) \<Rightarrow>
                              (Inr \<lparr>listen_fd = lfd, poll_fd = kq, port = p,
                                    pool = abs_pool (pool_new num_workers)\<rparr>, k5))))))"

definition kqueue_server_delete :: "'k kernel \<Rightarrow> echo_server \<Rightarrow> 'k \<Rightarrow> 'k" where
  "kqueue_server_delete K srv k = sys_close K (listen_fd srv) (sys_close K (poll_fd srv) k)"

definition kq_accept_one :: "'k kernel \<Rightarrow> echo_server \<Rightarrow> 'k \<Rightarrow> bool \<times> 'k" where
  "kq_accept_one K srv k =
     (case sys_accept K False (listen_fd srv) k of
        (Inl e, k1) \<Rightarrow> (False, k1)
      | (Inr client_fd, k1) \<Rightarrow>
          (case sys_poll_add K (poll_fd srv) client_fd (set_nonblocking K client_fd k1) of
             (Inl e, k2) \<Rightarrow> (True, sys_close K client_fd k2)
           | (Inr _, k2) \<Rightarrow> (True, k2)))"

partial_function (option) kq_accept_connection :: "'k kernel \<Rightarrow> echo_server \<Rightarrow> 'k \<Rightarrow> 'k option" where
  "kq_accept_connection K srv k =
     (let (go_on, k') = kq_accept_one K srv k
      in if go_on then kq_accept_connection K srv k' else Some k')"

definition kq_handle_read :: "'k kernel \<Rightarrow> fd \<Rightarrow> echo_server \<times> 'k \<Rightarrow> echo_server \<times> 'k" where
  "kq_handle_read K client_fd = (\<lambda>(srv, k).
     (case sys_read K client_fd BUF_SIZE k of
        (Inl e, k1) \<Rightarrow>
          if e \<noteq> EAGAIN \<and> e \<noteq> EWOULDBLOCK
          then (pool_enqueue (CloseTask client_fd) srv, sys_poll_del K (poll_fd srv) client_fd k1)
          else (srv, k1)
      | (Inr buf, k1) \<Rightarrow>
          if length buf = 0
          then (pool_enqueue (CloseTask client_fd) srv, sys_poll_del K (poll_fd srv) client_fd k1)
          else (pool_enqueue (EchoTask client_fd buf) srv, k1)))"

definition kq_handle_event :: "'k kernel \<Rightarrow> event \<Rightarrow> echo_server \<times> 'k \<Rightarrow> (echo_server \<times> 'k) option" where
  "kq_handle_event K ev = (\<lambda>(srv, k).
     if ev_bits ev AND EV_ERROR \<noteq> 0 then Some (srv, sys_close K (ev_fd ev) k)
     else if ev_fd ev = listen_fd srv then map_option (Pair srv) (kq_accept_connection K srv k)
     else if ev_filter ev = EVFILT_READ then Some (kq_handle_read K (ev_fd ev) (srv, k))
     else Some (srv, k))"

fun kq_handle_events :: "'k kernel \<Rightarrow> event list \<Rightarrow> echo_server \<times> 'k \<Rightarrow> (echo_server \<times> 'k) option" where
  "kq_handle_events K [] w = Some w"
| "kq_handle_events K (ev # evs) w = Option.bind (kq_handle_event K ev w) (kq_handle_events K evs)"

partial_function (option) kq_event_loop :: "'k kernel \<Rightarrow> echo_server \<times> 'k \<Rightarrow> (echo_server \<times> 'k) option" where
  "kq_event_loop K w =
     (if running_seen K (snd w) then
        (let (r, k') = sys_poll_wait K (poll_fd (fst w)) MAX_EVENTS (snd w)
         in case r of
              Inl e \<Rightarrow> Some (fst w, k')
            | Inr evs \<Rightarrow> Option.bind (kq_handle_events K evs (fst w, k')) (kq_event_loop K))
      else Some w)"

text \<open>The stub that every other platform compiles.\<close>

definition kqueue_stub_new :: "u16 \<Rightarrow> nat \<Rightarrow> string + echo_server" where
  "kqueue_stub_new p num_workers = Inl ''kqueue unsupported on this platform''"

subsection \<open>The same descriptors\<close>

lemma set_nonblocking_obs: "kernel_contract K obs \<Longrightarrow> obs (set_nonblocking K d k) = obs k"
  by (auto simp: set_nonblocking_def contract_options split: prod.splits dest: contract_options(5))

text \<open>
  The constructor of the kqueue flavour closes every descriptor it opened on each of its five failure
  paths, and otherwise leaves exactly the listening socket and the kqueue open, the socket watched; the
  destructor closes both.
\<close>

lemma kqueue_constructor_descriptors:
  assumes c: "kernel_contract K obs"
  shows "case kqueue_server_new K p num_workers k of
      (Inl ex, k') \<Rightarrow> opened (obs k') = opened (obs k)
    | (Inr srv, k') \<Rightarrow>
        listen_fd srv \<notin> opened (obs k) \<and> poll_fd srv \<notin> opened (obs k) \<and> listen_fd srv \<noteq> poll_fd srv \<and>
        opened (obs k') = insert (poll_fd srv) (insert (listen_fd srv) (opened (obs k))) \<and>
        listen_fd srv \<in> watched (obs k') \<and>
        opened (obs (kqueue_server_delete K srv k')) = opened (obs k)"
  unfolding kqueue_server_new_def kqueue_server_delete_def
  by (auto split: prod.splits sum.splits simp: contract_close [OF c] contract_options [OF c] set_nonblocking_obs [OF c]
      dest!: contract_socket_ok [OF c] contract_socket_err [OF c] contract_options(3,4) [OF c]
        contract_poll_create_ok [OF c] contract_poll_create_err [OF c] contract_add_ok [OF c] contract_add_err [OF c])

lemma kqueue_constructor_descriptors_witness:
  "opened (simnet (snd (kqueue_server_new sim_kernel 8080 1 ((sim_new [3, 4])\<lparr>refuse := Some Create_Call\<rparr>)))) = {}"
  using kqueue_constructor_descriptors [OF sim_contract, where k = "(sim_new [3, 4])\<lparr>refuse := Some Create_Call\<rparr>"
      and p = 8080 and num_workers = 1]
  by (simp add: kqueue_server_new_def set_nonblocking_def sim_defs)

subsection \<open>The same behaviour\<close>

text \<open>
  What \<open>accept4\<close> is documented to do: \<open>accept\<close>, then \<open>O_NONBLOCK\<close> added to the flags of the new socket.
\<close>

definition accept4_law :: "'k kernel \<Rightarrow> bool" where
  "accept4_law K \<longleftrightarrow> (\<forall>l k. sys_accept K True l k =
     (let (r, k1) = sys_accept K False l k
      in (r, case r of Inl e \<Rightarrow> k1 | Inr c \<Rightarrow> set_nonblocking K c k1)))"

text \<open>The epoll event that says what a kevent says.\<close>

definition as_epoll :: "event \<Rightarrow> event" where
  "as_epoll ev = ev\<lparr>ev_bits := (if ev_bits ev AND EV_ERROR \<noteq> 0 then EPOLLERR else 0) OR
     (if ev_filter ev = EVFILT_READ then EPOLLIN else 0)\<rparr>"

definition epoll_view :: "'k kernel \<Rightarrow> 'k kernel" where
  "epoll_view K = K\<lparr>sys_poll_wait := (\<lambda>p n k. let (r, k') = sys_poll_wait K p n k in (map_sum id (map as_epoll) r, k'))\<rparr>"

lemma as_epoll_bits [simp]:
  "ev_fd (as_epoll ev) = ev_fd ev"
  "ev_bits (as_epoll ev) AND EPOLLERR \<noteq> 0 \<longleftrightarrow> ev_bits ev AND EV_ERROR \<noteq> 0"
  "ev_bits (as_epoll ev) AND EPOLLIN \<noteq> 0 \<longleftrightarrow> ev_filter ev = EVFILT_READ"
  by (auto simp: as_epoll_def EPOLLERR_def EPOLLIN_def)

lemma epoll_view_simps [simp]:
  "sys_accept (epoll_view K) = sys_accept K" "sys_poll_add (epoll_view K) = sys_poll_add K"
  "sys_poll_del (epoll_view K) = sys_poll_del K" "sys_close (epoll_view K) = sys_close K"
  "sys_read (epoll_view K) = sys_read K" "running_seen (epoll_view K) = running_seen K"
  by (simp_all add: epoll_view_def)

lemma accept_one_same: "accept4_law K \<Longrightarrow> kq_accept_one K srv k = accept_one (epoll_view K) srv k"
  by (auto simp: kq_accept_one_def accept_one_def accept4_law_def split: prod.splits sum.splits)

lemma option_eqI: "(\<And>y. f = Some y \<Longrightarrow> g = Some y) \<Longrightarrow> (\<And>y. g = Some y \<Longrightarrow> f = Some y) \<Longrightarrow> f = g"
  by (cases f; cases g) auto

lemma kq_accept_connection_some:
  "kq_accept_connection K srv k = Some k' \<Longrightarrow> accept4_law K \<Longrightarrow> accept_connection (epoll_view K) srv k = Some k'"
proof (induction rule: kq_accept_connection.raw_induct [rotated, consumes 1, case_names step])
  case (step f K srv k k')
  then show ?case by (subst accept_connection.simps) (auto simp: accept_one_same split: prod.splits if_splits)
qed

lemma accept_connection_some:
  "accept_connection L srv k = Some k' \<Longrightarrow> L = epoll_view K \<Longrightarrow> accept4_law K \<Longrightarrow> kq_accept_connection K srv k = Some k'"
proof (induction rule: accept_connection.raw_induct [rotated, consumes 1, case_names step])
  case (step f L srv k k')
  then show ?case by (subst kq_accept_connection.simps) (auto simp: accept_one_same split: prod.splits if_splits)
qed

lemma accept_connection_same:
  "accept4_law K \<Longrightarrow> kq_accept_connection K srv k = accept_connection (epoll_view K) srv k"
  by (rule option_eqI) (auto intro: kq_accept_connection_some accept_connection_some [OF _ refl])

lemma handle_read_same: "kq_handle_read K d w = handle_read (epoll_view K) d w"
  by (cases w) (auto simp: kq_handle_read_def handle_read_def read_client_def would_block_def split: prod.splits sum.splits)

lemma handle_event_same: "accept4_law K \<Longrightarrow> kq_handle_event K ev w = handle_event (epoll_view K) (as_epoll ev) w"
  by (cases w) (simp add: kq_handle_event_def handle_event_def accept_connection_same handle_read_same)

lemma handle_events_same:
  "accept4_law K \<Longrightarrow> kq_handle_events K evs w = handle_events (epoll_view K) (map as_epoll evs) w"
  by (induction evs arbitrary: w) (simp_all add: handle_event_same cong: bind_option_cong)

lemma poll_wait_view:
  "sys_poll_wait (epoll_view K) p n k = (map_sum id (map as_epoll) (fst (sys_poll_wait K p n k)), snd (sys_poll_wait K p n k))"
  by (simp add: epoll_view_def case_prod_beta)

lemma kq_event_loop_some:
  "kq_event_loop K w = Some w' \<Longrightarrow> accept4_law K \<Longrightarrow> event_loop (epoll_view K) w = Some w'"
proof (induction rule: kq_event_loop.raw_induct [rotated, consumes 1, case_names step])
  case (step f K w w')
  then show ?case
    by (cases w', subst event_loop.simps)
      (auto simp: poll_wait_view handle_events_same bind_eq_Some_conv split: prod.splits sum.splits if_splits)
qed

lemma event_loop_some:
  "event_loop L w = Some w' \<Longrightarrow> L = epoll_view K \<Longrightarrow> accept4_law K \<Longrightarrow> kq_event_loop K w = Some w'"
proof (induction rule: event_loop.raw_induct [rotated, consumes 1, case_names step])
  case (step f L w w')
  then show ?case
    by (cases w', subst kq_event_loop.simps)
      (auto simp: poll_wait_view handle_events_same bind_eq_Some_conv split: prod.splits sum.splits if_splits)
qed

text \<open>
  C13. The kqueue server is the epoll server: on any kernel whose \<open>accept4\<close> is \<open>accept\<close> and \<open>fcntl\<close>, its event
  loop does to the server, the queue and the kernel exactly what the epoll event loop does when the kernel
  reports the same events as epoll events; the one returns if and only if the other does.
\<close>

lemma kqueue_behaves_as_epoll:
  assumes "accept4_law K"
  shows "kq_event_loop K w = event_loop (epoll_view K) w"
  using kq_event_loop_some event_loop_some [OF _ refl] assms by (blast intro: option_eqI)

lemma sim_accept4: "accept4_law sim_kernel"
  by (simp add: accept4_law_def set_nonblocking_def sim_defs split: list.splits)

lemma kqueue_behaves_as_epoll_witness:
  "\<exists>w. event_loop (epoll_view sim_kernel)
       (\<lparr>listen_fd = 3, poll_fd = 4, port = 8080, pool = \<lparr>queue = [], busy = []\<rparr>\<rparr>,
        (sim_new [])\<lparr>chunks := (\<lambda>_. [[1]]), waits := [[\<lparr>ev_fd = 5, ev_bits = 0, ev_filter = - 1\<rparr>]]\<rparr>) = Some w \<and>
     queue (pool (fst w)) = [EchoTask 5 [1]]"
  unfolding kqueue_behaves_as_epoll [OF sim_accept4, symmetric]
  by (simp add: kq_event_loop.simps kq_handle_event_def kq_handle_read_def pool_enqueue_def EV_ERROR_def EVFILT_READ_def BUF_SIZE_def sim_defs)

end
