(* ===== verification/Kqueue_Process.thy ===== *)
theory Kqueue_Process imports
  Server_Process
  Kqueue_Server
begin

text \<open>
  The kqueue server with its threads and its process: the handlers of \<open>flavors/kqueue/server.cpp\<close> on the real
  \<open>ThreadPool\<close>, \<open>shutdown\<close>, the destructor, and \<open>signal_handler\<close> of its \<open>main.cpp\<close>. Its steps are those of the epoll
  process on the kernel seen through \<open>epoll_view\<close>, so what is proved of that process holds of this one.
\<close>

subsection \<open>The threads\<close>

text \<open>\<open>handle_read\<close> up to the \<open>enqueue\<close>; the lambdas that are handed over are those of the epoll flavour.\<close>

definition kq_read_client :: "'k kernel \<Rightarrow> echo_server \<Rightarrow> fd \<Rightarrow> 'k \<Rightarrow> task option \<times> 'k" where
  "kq_read_client K srv client_fd k =
     (case sys_read K client_fd BUF_SIZE k of
        (Inr n, k1) \<Rightarrow>
          if length n = 0 then (Some (CloseTask client_fd), sys_poll_del K (poll_fd srv) client_fd k1)
          else (Some (EchoTask client_fd n), k1)
      | (Inl e, k1) \<Rightarrow>
          if e \<noteq> EAGAIN \<and> e \<noteq> EWOULDBLOCK then (Some (CloseTask client_fd), sys_poll_del K (poll_fd srv) client_fd k1)
          else (None, k1))"

definition kq_full_accept :: "'k kernel \<Rightarrow> 'k full \<Rightarrow> 'k full" where
  "kq_full_accept K f =
     f\<lparr>kst := snd (kq_accept_one K (base f) (kst f)),
       failed := (case fst (sys_accept K False (listen_fd (base f)) (kst f)) of
                    Inl e \<Rightarrow> failed f | Inr c \<Rightarrow> failed f - {c})\<rparr>"

definition kq_full_read :: "'k kernel \<Rightarrow> fd \<Rightarrow> 'k full \<Rightarrow> 'k full option" where
  "kq_full_read K fd f =
     (let (t, k') = kq_read_client K (base f) fd (kst f)
      in case t of None \<Rightarrow> Some (f\<lparr>kst := k'\<rparr>) | Some task \<Rightarrow> move_pool (Submit task) (f\<lparr>kst := k'\<rparr>))"

fun kq_full_step :: "'k kernel \<Rightarrow> ('k \<Rightarrow> netobs) \<Rightarrow> full_act \<Rightarrow> 'k full \<Rightarrow> 'k full option" where
  "kq_full_step K obs Net_Accept f = (if net_free f then Some (kq_full_accept K f) else None)"
| "kq_full_step K obs (Net_Read fd) f =
     (if net_free f \<and> fd \<in> watched (obs (kst f)) \<and> fd \<noteq> listen_fd (base f) then kq_full_read K fd f else None)"
| "kq_full_step K obs (Net_Error fd) f =
     (if net_free f \<and> fd \<in> watched (obs (kst f)) then Some (f\<lparr>kst := sys_close K fd (kst f)\<rparr>) else None)"
| "kq_full_step K obs (Pool_Act a) f =
     (case a of
        Work i \<Rightarrow> if i < length (workers (threads f)) then full_work K i f else None
      | Submit t \<Rightarrow> None
      | _ \<Rightarrow> move_pool a f)"

subsection \<open>The process\<close>

definition kq_shutdown :: "'k process \<Rightarrow> 'k process option" where
  "kq_shutdown p = map_option (\<lambda>f. p\<lparr>sys := f, running_flag := False\<rparr>) (move_pool Stop (sys p))"

definition kq_signal_handler :: "'k process \<Rightarrow> 'k process option" where
  "kq_signal_handler p = (if phase p = Exited then Some p else kq_shutdown p)"

definition kq_destroy_server :: "'k kernel \<Rightarrow> 'k process \<Rightarrow> 'k process option" where
  "kq_destroy_server K p =
     (let f = sys p; k' = kqueue_server_delete K (base f) (kst f)
      in map_option (\<lambda>f'. p\<lparr>sys := f', phase := Destroying\<rparr>) (move_pool Stop (f\<lparr>kst := k'\<rparr>)))"

fun kq_proc_step :: "'k kernel \<Rightarrow> ('k \<Rightarrow> netobs) \<Rightarrow> proc_act \<Rightarrow> 'k process \<Rightarrow> 'k process option" where
  "kq_proc_step K obs (Step a) p =
     (if a = Pool_Act Stop \<or> phase p = Exited \<or> net_act a \<and> phase p \<noteq> Serving then None
      else map_option (\<lambda>f. p\<lparr>sys := f\<rparr>) (kq_full_step K obs a (sys p)))"
| "kq_proc_step K obs Signal p = kq_signal_handler p"
| "kq_proc_step K obs Loop_Test p =
     (if phase p = Serving \<and> net_free (sys p) then Some (if running_flag p then p else p\<lparr>phase := Returned\<rparr>) else None)"
| "kq_proc_step K obs Wait_Fails p =
     (if phase p = Serving \<and> net_free (sys p) then Some (p\<lparr>phase := Returned\<rparr>) else None)"
| "kq_proc_step K obs Destroy p =
     (if phase p = Returned \<and> net_free (sys p) then kq_destroy_server K p else None)"
| "kq_proc_step K obs Exit_Process p =
     (if phase p = Destroying \<and> net_free (sys p) then Some (p\<lparr>phase := Exited\<rparr>) else None)"

subsection \<open>The same steps\<close>

lemma epoll_view_write [simp]: "sys_write (epoll_view K) = sys_write K"
  by (simp add: epoll_view_def)

lemma view_contract:
  assumes "kernel_contract K obs"
  shows "kernel_contract (epoll_view K) obs"
  using assms
  by (simp add: kernel_contract_def read_law_def write_law_def close_law_def accept_law_def poll_law_def wait_law_def
      create_law_def option_law_def epoll_view_def case_prod_beta)

lemma read_client_same: "kq_read_client K srv d k = read_client (epoll_view K) srv d k"
  by (auto simp: kq_read_client_def read_client_def would_block_def split: prod.splits sum.splits)

lemma echo_write_same: "echo_write (epoll_view K) = echo_write K"
  by (simp add: echo_write_def fun_eq_iff)

lemma full_work_same: "full_work (epoll_view K) = full_work K"
  by (auto simp: full_work_def fun_eq_iff echo_write_same split: wpc.splits task.splits)

lemma full_accept_same: "accept4_law K \<Longrightarrow> kq_full_accept K f = full_accept (epoll_view K) f"
proof -
  assume a: "accept4_law K"
  have "fst (sys_accept K True l k) = fst (sys_accept K False l k)" for l k
    using a unfolding accept4_law_def by (simp add: case_prod_beta)
  then show ?thesis using accept_one_same [OF a] by (simp add: kq_full_accept_def full_accept_def)
qed

lemma full_step_same: "accept4_law K \<Longrightarrow> kq_full_step K obs a f = full_step (epoll_view K) obs a f"
  by (cases a) (auto simp: full_accept_same kq_full_read_def full_read_def read_client_same full_work_same split: action.splits)

lemma proc_step_same: "accept4_law K \<Longrightarrow> kq_proc_step K obs a p = proc_step (epoll_view K) obs a p"
  by (cases a) (simp_all add: full_step_same kq_signal_handler_def signal_handler_def kq_shutdown_def shutdown_def
      kq_destroy_server_def destroy_server_def kqueue_server_delete_def epoll_server_delete_def del: kq_full_step.simps full_step.simps)

text \<open>
  C21. The process of the kqueue server is the process of the epoll server: on any kernel whose \<open>accept4\<close> is \<open>accept\<close>
  and \<open>fcntl\<close>, every run of the one, with its threads, signals and destruction, is the same run of the other on the same
  kernel with its events read as epoll events, and that kernel keeps the same contract.
\<close>

lemma kqueue_process_is_epoll_process:
  assumes "accept4_law K" "kernel_contract K obs"
  shows "prun (kq_proc_step K obs) as p = proc_run (epoll_view K) obs as p \<and> kernel_contract (epoll_view K) obs"
proof -
  have "kq_proc_step K obs = proc_step (epoll_view K) obs" using proc_step_same [OF assms(1)] by (intro ext)
  then show ?thesis using view_contract [OF assms(2)] by simp
qed

lemma kqueue_process_is_epoll_process_witness:
  "\<exists>srv k p. kqueue_server_new sim_kernel 8080 1 one_client = (Inr srv, k) \<and>
     prun (kq_proc_step sim_kernel simnet) interrupted (process_new 1 srv k) = Some p \<and>
     proc_run (epoll_view sim_kernel) simnet interrupted (process_new 1 srv k) = Some p \<and> phase p = Serving"
proof -
  obtain srv k p where new: "kqueue_server_new sim_kernel 8080 1 one_client = (Inr srv, k)"
    and run: "prun (kq_proc_step sim_kernel simnet) interrupted (process_new 1 srv k) = Some p" "phase p = Serving"
    by (simp add: kqueue_server_new_def set_nonblocking_def one_client_def interrupted_def kq_full_accept_def kq_accept_one_def
        kq_full_read_def kq_read_client_def kq_signal_handler_def kq_shutdown_def kq_destroy_server_def proc_eval)
  with kqueue_process_is_epoll_process [OF sim_accept4 sim_contract, of interrupted "process_new 1 srv k"] show ?thesis
    by (intro exI [of _ srv] exI [of _ k] exI [of _ p]) simp
qed

end
