(* ===== verification/Uring_Zc_Server.thy ===== *)
theory Uring_Zc_Server imports
  Uring_Server
begin

text \<open>
  \<open>IoUringZcEchoServer\<close> of \<open>src/echo_server/flavors/iouring_zc/server.cpp\<close>: the same server with the
  zero-copy send. A zero-copy send completes twice: the first completion has the flag \<open>IORING_CQE_F_MORE\<close>, and
  a notification with the same user data and result 0 follows when the buffer is free. The server never looks
  at the flags.
\<close>

subsection \<open>The operations\<close>

text \<open>The class has the fields of the other one, and so has its \<open>Request\<close>, with \<open>SEND_ZC\<close> for \<open>SEND\<close>.\<close>

type_synonym zc_request = request

type_synonym zc_uring = uring

definition zc_submit_accept :: "zc_uring \<Rightarrow> zc_uring" where
  "zc_submit_accept s =
     (let (p, s1) = new_request \<lparr>op = ACCEPT, client_fd = - 1, rbuf = [], rlen = 0\<rparr> s
      in if \<not> sq_room s1 then delete_request p s1
         else (prep (Accept_Sqe p (lfd s1)) s1)\<lparr>accept_pending := True\<rparr>)"

definition zc_submit_recv :: "nat \<Rightarrow> zc_uring \<Rightarrow> zc_uring" where
  "zc_submit_recv p s =
     (case heap s p of
        None \<Rightarrow> s\<lparr>ub := True\<rparr>
      | Some req \<Rightarrow> if \<not> sq_room s then delete_request p s else prep (Recv_Sqe p (client_fd req) 4096) s)"

definition submit_send_zc :: "nat \<Rightarrow> zc_uring \<Rightarrow> zc_uring" where
  "submit_send_zc p s =
     (case heap s p of
        None \<Rightarrow> s\<lparr>ub := True\<rparr>
      | Some req \<Rightarrow> if \<not> sq_room s then delete_request p s else prep (Send_Sqe True p (client_fd req) (rlen req)) s)"

definition zc_handle_accept :: "int \<Rightarrow> zc_uring \<Rightarrow> zc_uring" where
  "zc_handle_accept cfd s =
     (let s = s\<lparr>accept_pending := False\<rparr>
      in if cfd < 0 then s
         else (let (p, s1) = new_request \<lparr>op = RECV, client_fd = cfd, rbuf = [], rlen = 0\<rparr> s in zc_submit_recv p s1))"

definition zc_handle_recv :: "nat \<Rightarrow> int \<Rightarrow> zc_uring \<Rightarrow> zc_uring" where
  "zc_handle_recv p nread s =
     (case heap s p of
        None \<Rightarrow> s\<lparr>ub := True\<rparr>
      | Some req \<Rightarrow>
          if nread \<le> 0 then
            (let s1 = (if nread = 0 then close_conn (client_fd req) s
                       else if nread \<noteq> - eagain then close_conn (client_fd req) s
                       else s)
             in delete_request p s1)
          else submit_send_zc p (s\<lparr>heap := (heap s)(p \<mapsto> req\<lparr>op := SEND, rlen := nat nread\<rparr>)\<rparr>))"

definition handle_send_zc :: "nat \<Rightarrow> zc_uring \<Rightarrow> zc_uring" where
  "handle_send_zc p s =
     (case heap s p of
        None \<Rightarrow> s\<lparr>ub := True\<rparr>
      | Some req \<Rightarrow> zc_submit_recv p (s\<lparr>heap := (heap s)(p \<mapsto> req\<lparr>op := RECV, rlen := 0\<rparr>)\<rparr>))"

subsection \<open>Completions and the event loop\<close>

definition zc_process_cqe :: "cqe \<Rightarrow> zc_uring \<Rightarrow> zc_uring" where
  "zc_process_cqe c s =
     (case heap s (cq_data c) of
        None \<Rightarrow> s\<lparr>ub := True\<rparr>
      | Some req \<Rightarrow>
          (case op req of
             ACCEPT \<Rightarrow> delete_request (cq_data c) (zc_handle_accept (cq_res c) s)
           | RECV \<Rightarrow> zc_handle_recv (cq_data c) (cq_res c) s
           | SEND \<Rightarrow> handle_send_zc (cq_data c) s))"

text \<open>
  A completion names the entry it answers, since two entries can have the same user data here. With the flag
  \<open>cq_more\<close> the entry stays with the kernel, as a send of no bytes that the notification will answer.
\<close>

record zc_cqe = cqe +
  cq_entry :: sqe
  cq_more :: bool

fun notification :: "sqe \<Rightarrow> sqe" where
  "notification (Send_Sqe z p c n) = Send_Sqe z p c 0"
| "notification e = e"

fun may_have_more :: "sqe \<Rightarrow> bool" where
  "may_have_more (Send_Sqe z p c n) = (z \<and> 0 < n)"
| "may_have_more _ = False"

definition zc_complete :: "zc_cqe \<Rightarrow> zc_uring \<Rightarrow> zc_uring option" where
  "zc_complete c s =
     (let e = cq_entry c; q = cqe.truncate c
      in if e \<in> set (inflight s) \<and> sqe_ptr e = cq_data c \<and> valid_result q s e \<and> (cq_more c \<longrightarrow> may_have_more e)
         then Some (zc_process_cqe q ((kernel_effect q e s)\<lparr>inflight := remove1 e (inflight s) @
                (if cq_more c then [notification e] else [])\<rparr>))
         else None)"

definition zc_phase_two :: "nat \<Rightarrow> zc_uring \<Rightarrow> zc_uring" where
  "zc_phase_two taken s = io_submit taken (if \<not> accept_pending s then zc_submit_accept s else s)"

datatype zc_wait_ret = Zc_Completions "zc_cqe list" | Zc_Timeout | Zc_Interrupted | Zc_Wait_Error int

fun zc_loop_turn :: "zc_wait_ret \<times> nat \<Rightarrow> zc_uring \<Rightarrow> zc_uring option" where
  "zc_loop_turn (Zc_Completions cqes, taken) s = map_option (zc_phase_two taken) (prun zc_complete cqes s)"
| "zc_loop_turn (Zc_Timeout, taken) s = Some (zc_phase_two taken s)"
| "zc_loop_turn (Zc_Interrupted, taken) s = Some (zc_phase_two taken s)"
| "zc_loop_turn (Zc_Wait_Error e, taken) s = None"

definition zc_event_loop :: "(zc_wait_ret \<times> nat) list \<Rightarrow> nat \<Rightarrow> fd \<Rightarrow> zc_uring option" where
  "zc_event_loop turns entries l = prun zc_loop_turn turns (zc_submit_accept (uring_new entries l))"

subsection \<open>The zero-copy server as the other one\<close>

text \<open>The same entry, and the same state, with ordinary sends.\<close>

fun plain :: "sqe \<Rightarrow> sqe" where
  "plain (Send_Sqe z p c n) = Send_Sqe False p c n"
| "plain e = e"

definition plain_state :: "uring \<Rightarrow> uring" where
  "plain_state s = s\<lparr>sq := map plain (sq s), inflight := map plain (inflight s)\<rparr>"

fun plain_turn :: "zc_wait_ret \<times> nat \<Rightarrow> wait_ret \<times> nat" where
  "plain_turn (Zc_Completions cqes, n) = (Completions (map cqe.truncate cqes), n)"
| "plain_turn (Zc_Timeout, n) = (Timeout, n)"
| "plain_turn (Zc_Interrupted, n) = (Interrupted, n)"
| "plain_turn (Zc_Wait_Error e, n) = (Wait_Error e, n)"

fun no_notification :: "zc_wait_ret \<times> nat \<Rightarrow> bool" where
  "no_notification (Zc_Completions cqes, n) = list_all (\<lambda>c. \<not> cq_more c) cqes"
| "no_notification _ = True"

lemma plain_ptr [simp]: "sqe_ptr (plain e) = sqe_ptr e"
  by (cases e) auto

lemma plain_fields [simp]:
  "heap (plain_state s) = heap s" "accept_pending (plain_state s) = accept_pending s" "lfd (plain_state s) = lfd s"
  "length (sq (plain_state s)) = length (sq s)" "depth (plain_state s) = depth s"
  "sq_room (plain_state s) = sq_room s" "next_req (plain_state s) = next_req s" "conns (plain_state s) = conns s"
  by (simp_all add: plain_state_def sq_room_def)

lemma plain_updates [simp]:
  "plain_state (s\<lparr>heap := h\<rparr>) = (plain_state s)\<lparr>heap := h\<rparr>" "plain_state (s\<lparr>ub := b\<rparr>) = (plain_state s)\<lparr>ub := b\<rparr>"
  "plain_state (s\<lparr>accept_pending := b\<rparr>) = (plain_state s)\<lparr>accept_pending := b\<rparr>"
  "plain_state (s\<lparr>next_req := m\<rparr>) = (plain_state s)\<lparr>next_req := m\<rparr>"
  "plain_state (delete_request p s) = delete_request p (plain_state s)"
  "plain_state (close_conn d s) = close_conn d (plain_state s)"
  "plain_state (prep e s) = prep (plain e) (plain_state s)"
  "plain_state (s\<lparr>inflight := es\<rparr>) = (plain_state s)\<lparr>inflight := map plain es\<rparr>"
  by (simp_all add: plain_state_def delete_request_def close_conn_def prep_def)

lemma plain_new_request [simp]:
  "new_request r (plain_state s) = (fst (new_request r s), plain_state (snd (new_request r s)))"
  by (simp add: new_request_def)

lemma plain_submit [simp]:
  "plain_state (zc_submit_recv p s) = submit_recv p (plain_state s)"
  "plain_state (submit_send_zc p s) = submit_send p (plain_state s)"
  "plain_state (zc_submit_accept s) = submit_accept (plain_state s)"
  by (auto simp: zc_submit_recv_def submit_recv_def submit_send_zc_def submit_send_def zc_submit_accept_def
      submit_accept_def Let_def case_prod_beta sq_room_def new_request_def split: option.splits)

lemma plain_handlers [simp]:
  "plain_state (zc_handle_recv p n s) = handle_recv p n (plain_state s)"
  "plain_state (handle_send_zc p s) = handle_send p (plain_state s)"
  "plain_state (zc_handle_accept n s) = handle_accept n (plain_state s)"
  by (auto simp: zc_handle_recv_def handle_recv_def handle_send_zc_def handle_send_def zc_handle_accept_def
      handle_accept_def Let_def case_prod_beta new_request_def split: option.splits)

lemma plain_process: "plain_state (zc_process_cqe c s) = process_cqe c (plain_state s)"
  by (auto simp: zc_process_cqe_def process_cqe_def split: option.splits uop.splits)

lemma plain_kernel_effect: "plain_state (kernel_effect c e s) = kernel_effect c (plain e) (plain_state s)"
  by (cases e) (auto simp: plain_state_def Let_def)

lemma plain_valid: "valid_result c (plain_state s) (plain e) = valid_result c s e"
  by (cases e) auto

lemma plain_remove1:
  "distinct (map sqe_ptr xs) \<Longrightarrow> e \<in> set xs \<Longrightarrow> map plain (remove1 e xs) = remove1 (plain e) (map plain xs)"
proof (induction xs)
  case (Cons x xs)
  have "x = e" if "plain x = plain e"
    using that Cons.prems plain_ptr [of x] plain_ptr [of e] by (cases "x = e") (auto simp: rev_image_eqI)
  with Cons show ?case by auto
qed simp

lemma find_by_ptr:
  "distinct (map sqe_ptr xs) \<Longrightarrow> e \<in> set xs \<Longrightarrow> sqe_ptr e = p \<Longrightarrow> find (\<lambda>x. sqe_ptr x = p) xs = Some e"
  by (induction xs) (auto simp: rev_image_eqI)

lemma plain_complete:
  assumes inv: "uring_inv (plain_state s)" and step: "zc_complete c s = Some s'" and c: "\<not> cq_more c"
  shows "complete (cqe.truncate c) (plain_state s) = Some (plain_state s')"
proof -
  let ?e = "cq_entry c" and ?q = "cqe.truncate c"
  have e: "?e \<in> set (inflight s)" "sqe_ptr ?e = cq_data c" "valid_result ?q s ?e"
    and s': "s' = zc_process_cqe ?q ((kernel_effect ?q ?e s)\<lparr>inflight := remove1 ?e (inflight s)\<rparr>)"
    using step c by (auto simp: zc_complete_def Let_def split: if_splits)
  have d: "distinct (map sqe_ptr (inflight s))"
    using inv by (auto simp: uring_inv_def owned_def plain_state_def comp_def)
  have "answered ?q (plain_state s) = Some (plain ?e)"
    unfolding answered_def using e d
    by (intro find_by_ptr) (auto simp: plain_state_def comp_def cqe.truncate_def)
  moreover have "plain_state ((kernel_effect ?q ?e s)\<lparr>inflight := remove1 ?e (inflight s)\<rparr>) =
      (kernel_effect ?q (plain ?e) (plain_state s))\<lparr>inflight := remove1 (plain ?e) (inflight (plain_state s))\<rparr>"
    using plain_remove1 [OF d e(1)] by (simp add: plain_kernel_effect) (simp add: plain_state_def)
  ultimately show ?thesis using e by (simp add: complete_def plain_valid s' plain_process)
qed

lemma plain_completes:
  "prun zc_complete cs s = Some s' \<Longrightarrow> uring_inv (plain_state s) \<Longrightarrow> list_all (\<lambda>c. \<not> cq_more c) cs \<Longrightarrow>
     prun complete (map cqe.truncate cs) (plain_state s) = Some (plain_state s')"
proof (induction cs arbitrary: s)
  case (Cons c cs)
  then obtain t where t: "zc_complete c s = Some t" "prun zc_complete cs t = Some s'"
    by (auto simp: bind_eq_Some_conv)
  note one = plain_complete [OF Cons.prems(2) t(1)]
  with Cons.prems have "uring_inv (plain_state t)" by (auto intro: complete_inv)
  with Cons t one show ?case by simp
qed simp

lemma plain_phase_two: "plain_state (zc_phase_two n s) = phase_two n (plain_state s)"
proof -
  have "plain_state (io_submit n t) = io_submit n (plain_state t)" for t
    by (simp add: plain_state_def io_submit_def drop_map take_map)
  then show ?thesis by (simp add: zc_phase_two_def phase_two_def)
qed

lemma plain_loop_turn:
  assumes "zc_loop_turn t s = Some s'" "uring_inv (plain_state s)" "no_notification t"
  shows "loop_turn (plain_turn t) (plain_state s) = Some (plain_state s')"
  using assms by (cases "(t, s)" rule: zc_loop_turn.cases) (auto simp: plain_phase_two dest: plain_completes)

lemma plain_loop:
  "prun zc_loop_turn ts s = Some s' \<Longrightarrow> uring_inv (plain_state s) \<Longrightarrow> list_all no_notification ts \<Longrightarrow>
     prun loop_turn (map plain_turn ts) (plain_state s) = Some (plain_state s')"
proof (induction ts arbitrary: s)
  case (Cons t ts)
  then obtain u where u: "zc_loop_turn t s = Some u" "prun zc_loop_turn ts u = Some s'"
    by (auto simp: bind_eq_Some_conv)
  note one = plain_loop_turn [OF u(1) Cons.prems(2)]
  with Cons.prems have "uring_inv (plain_state u)" by (auto intro: loop_turn_inv)
  with Cons u one show ?case by simp
qed simp

text \<open>
  C16. As long as the kernel sends no separate notifications, the zero-copy server is the plain io_uring server:
  each of its executions is one of that server, with the same requests, connections, logs and entries.
\<close>

lemma zc_refines_plain_server:
  assumes "zc_event_loop turns entries l = Some s" "list_all no_notification turns"
  shows "uring_event_loop (map plain_turn turns) entries l = Some (plain_state s)"
proof -
  have start: "plain_state (uring_new entries l) = uring_new entries l"
    by (simp add: plain_state_def uring_new_def)
  have "uring_inv (submit_accept (uring_new entries l))"
    by (intro submit_accept_inv uring_new_inv) (simp add: uring_new_def)
  with start assms show ?thesis
    using plain_loop [of turns "zc_submit_accept (uring_new entries l)" s]
    by (simp add: zc_event_loop_def uring_event_loop_def)
qed

subsection \<open>The notification\<close>

abbreviation zq :: "nat \<Rightarrow> int \<Rightarrow> byte list \<Rightarrow> sqe \<Rightarrow> bool \<Rightarrow> zc_cqe" where
  "zq p res bs e again \<equiv> \<lparr>cq_data = p, cq_res = res, cq_bytes = bs, cq_entry = e, cq_more = again\<rparr>"

text \<open>Client 5 is accepted, sends three bytes, and they are sent back.\<close>

definition zc_echo :: "bool \<Rightarrow> (zc_wait_ret \<times> nat) list" where
  "zc_echo again =
     [(Zc_Timeout, 1),
      (Zc_Completions [zq 0 5 [] (Accept_Sqe 0 3) False], 2),
      (Zc_Completions [zq 1 3 [1, 2, 3] (Recv_Sqe 1 5 4096) False], 1),
      (Zc_Completions [zq 1 3 [] (Send_Sqe True 1 5 3) again], 1)]"

lemmas zc_eval = zc_event_loop_def zc_echo_def uring_new_def zc_submit_accept_def new_request_def delete_request_def
  close_conn_def sq_room_def prep_def zc_submit_recv_def submit_send_zc_def zc_handle_accept_def zc_handle_recv_def
  handle_send_zc_def zc_process_cqe_def zc_complete_def io_submit_def zc_phase_two_def eagain_def QUEUE_DEPTH_def
  cqe.truncate_def

lemma zc_refines_plain_server_witness:
  "\<exists>s. uring_event_loop (map plain_turn (zc_echo False)) QUEUE_DEPTH 3 = Some (plain_state s) \<and> put s 5 = [1, 2, 3]"
proof -
  obtain s where s: "zc_event_loop (zc_echo False) QUEUE_DEPTH 3 = Some s" "put s 5 = [1, 2, 3]" by (simp add: zc_eval)
  have "list_all no_notification (zc_echo False)" by (simp add: zc_echo_def)
  from zc_refines_plain_server [OF s(1) this] s(2) show ?thesis by blast
qed


end
