(* ===== verification/Uring_Setup.thy ===== *)
theory Uring_Setup imports
  Epoll_Server
begin

text \<open>
  Constructors and destructors of the two io_uring flavours, over the system calls of \<open>Kernel\<close> and
  \<open>io_uring_queue_init\<close>, which belongs to liburing and is an argument: it opens the descriptor of the ring or
  fails. The stubs of the other platforms only throw.
\<close>

record uring_server =
  ur_listen :: fd
  ur_ring :: fd
  ur_port :: u16

type_synonym 'k queue_init = "nat \<Rightarrow> 'k \<Rightarrow> fd sysret \<times> 'k"

definition queue_init_law :: "'k queue_init \<Rightarrow> ('k \<Rightarrow> netobs) \<Rightarrow> bool" where
  "queue_init_law qi obs \<longleftrightarrow> (\<forall>n k.
     case qi n k of
       (Inl e, k') \<Rightarrow> obs k' = obs k
     | (Inr r, k') \<Rightarrow> r \<notin> opened (obs k) \<and> obs k' = (obs k)\<lparr>opened := insert r (opened (obs k))\<rparr>)"

lemma queue_init_ok:
  "queue_init_law qi obs \<Longrightarrow> qi n k = (Inr r, k') \<Longrightarrow>
     r \<notin> opened (obs k) \<and> obs k' = (obs k)\<lparr>opened := insert r (opened (obs k))\<rparr>"
  unfolding queue_init_law_def by (elim allE [of _ n] allE [of _ k]) simp

lemma queue_init_err: "queue_init_law qi obs \<Longrightarrow> qi n k = (Inl e, k') \<Longrightarrow> obs k' = obs k"
  unfolding queue_init_law_def by (elim allE [of _ n] allE [of _ k]) simp

definition uring_server_new ::
  "'k kernel \<Rightarrow> 'k queue_init \<Rightarrow> u16 \<Rightarrow> 'k \<Rightarrow> (exn + uring_server) \<times> 'k" where
  "uring_server_new K qi p k =
     (case sys_socket K True k of
        (Inl e, k1) \<Rightarrow> (Inl (Runtime_error ''socket: '' e), k1)
      | (Inr l, k1) \<Rightarrow>
          (case sys_bind K l p (sys_setsockopt K l SO_REUSEPORT (sys_setsockopt K l SO_REUSEADDR k1)) of
             (Inl e, k2) \<Rightarrow> (Inl (Runtime_error ''bind: '' e), sys_close K l k2)
           | (Inr _, k2) \<Rightarrow>
               (case sys_listen K l k2 of
                  (Inl e, k3) \<Rightarrow> (Inl (Runtime_error ''listen: '' e), sys_close K l k3)
                | (Inr _, k3) \<Rightarrow>
                    (case qi 256 k3 of
                       (Inl e, k4) \<Rightarrow> (Inl (Runtime_error ''io_uring_queue_init: '' e), sys_close K l k4)
                     | (Inr r, k4) \<Rightarrow> (Inr \<lparr>ur_listen = l, ur_ring = r, ur_port = p\<rparr>, k4)))))"

definition uring_server_delete :: "'k kernel \<Rightarrow> uring_server \<Rightarrow> 'k \<Rightarrow> 'k" where
  "uring_server_delete K s k =
     (let k1 = sys_close K (ur_ring s) k in if ur_listen s \<ge> 0 then sys_close K (ur_listen s) k1 else k1)"

definition zc_server_new ::
  "'k kernel \<Rightarrow> 'k queue_init \<Rightarrow> u16 \<Rightarrow> 'k \<Rightarrow> (exn + uring_server) \<times> 'k" where
  "zc_server_new K qi p k =
     (case sys_socket K True k of
        (Inl e, k1) \<Rightarrow> (Inl (Runtime_error ''socket: '' e), k1)
      | (Inr l, k1) \<Rightarrow>
          (case sys_bind K l p (sys_setsockopt K l SO_REUSEPORT (sys_setsockopt K l SO_REUSEADDR k1)) of
             (Inl e, k2) \<Rightarrow> (Inl (Runtime_error ''bind: '' e), sys_close K l k2)
           | (Inr _, k2) \<Rightarrow>
               (case sys_listen K l k2 of
                  (Inl e, k3) \<Rightarrow> (Inl (Runtime_error ''listen: '' e), sys_close K l k3)
                | (Inr _, k3) \<Rightarrow>
                    (case qi 256 k3 of
                       (Inl e, k4) \<Rightarrow> (Inl (Runtime_error ''io_uring_queue_init: '' e), sys_close K l k4)
                     | (Inr r, k4) \<Rightarrow> (Inr \<lparr>ur_listen = l, ur_ring = r, ur_port = p\<rparr>, k4)))))"

definition zc_server_delete :: "'k kernel \<Rightarrow> uring_server \<Rightarrow> 'k \<Rightarrow> 'k" where
  "zc_server_delete K s k =
     (let k1 = sys_close K (ur_ring s) k in if ur_listen s \<ge> 0 then sys_close K (ur_listen s) k1 else k1)"

definition uring_stub_new :: "u16 \<Rightarrow> string + uring_server" where
  "uring_stub_new p = Inl ''io_uring unsupported on this platform''"

definition zc_stub_new :: "u16 \<Rightarrow> string + uring_server" where
  "zc_stub_new p = Inl ''io_uring_zc unsupported on this platform''"

lemma uring_new_descriptors:
  assumes c: "kernel_contract K obs" and q: "queue_init_law qi obs" and new: "new \<in> {uring_server_new K qi, zc_server_new K qi}"
  shows "case new p k of
      (Inl ex, k') \<Rightarrow> opened (obs k') = opened (obs k)
    | (Inr s, k') \<Rightarrow>
        ur_listen s \<notin> opened (obs k) \<and> ur_ring s \<notin> opened (obs k) \<and> ur_listen s \<noteq> ur_ring s \<and>
        opened (obs k') = insert (ur_ring s) (insert (ur_listen s) (opened (obs k))) \<and>
        (ur_listen s \<ge> 0 \<longrightarrow> opened (obs (uring_server_delete K s k')) = opened (obs k) \<and>
           opened (obs (zc_server_delete K s k')) = opened (obs k))"
proof -
  have "new = uring_server_new K qi" using new by (auto simp: uring_server_new_def zc_server_new_def fun_eq_iff)
  then show ?thesis
    unfolding uring_server_new_def uring_server_delete_def zc_server_delete_def Let_def
    by (auto split: prod.splits sum.splits simp: contract_close [OF c] contract_options [OF c]
        dest!: contract_socket_ok [OF c] contract_socket_err [OF c] contract_options(3,4) [OF c]
          queue_init_ok [OF q] queue_init_err [OF q])
qed

text \<open>
  Both io_uring constructors close the listening socket on each of their failure paths, the failing ring
  included; when they return exactly the socket and the ring are new, and the destructor closes both.
\<close>

lemma uring_constructors_descriptors:
  assumes c: "kernel_contract K obs" and q: "queue_init_law qi obs" and new: "new \<in> {uring_server_new K qi, zc_server_new K qi}"
  shows "case new p k of
      (Inl ex, k') \<Rightarrow> opened (obs k') = opened (obs k)
    | (Inr s, k') \<Rightarrow>
        ur_listen s \<notin> opened (obs k) \<and> ur_ring s \<notin> opened (obs k) \<and> ur_listen s \<noteq> ur_ring s \<and>
        opened (obs k') = insert (ur_ring s) (insert (ur_listen s) (opened (obs k))) \<and>
        (ur_listen s \<ge> 0 \<longrightarrow> opened (obs (uring_server_delete K s k')) = opened (obs k) \<and>
           opened (obs (zc_server_delete K s k')) = opened (obs k))"
  using assms by (rule uring_new_descriptors)

definition sim_queue_init :: "sim queue_init" where
  "sim_queue_init n s = (if refuse s = Some Create_Call then (Inl (EOTHER 12), s) else sim_open False s)"

lemma sim_queue_init_ok: "queue_init_law sim_queue_init simnet"
  by (simp add: queue_init_law_def sim_queue_init_def sim_open_def split: list.splits)

lemma uring_constructors_descriptors_witness:
  "opened (simnet (snd (zc_server_new sim_kernel sim_queue_init 8083 ((sim_new [3, 4])\<lparr>refuse := Some Create_Call\<rparr>)))) = {}"
  using uring_constructors_descriptors [OF sim_contract sim_queue_init_ok, where new = "zc_server_new sim_kernel sim_queue_init"
      and k = "(sim_new [3, 4])\<lparr>refuse := Some Create_Call\<rparr>" and p = 8083]
  by (simp add: zc_server_new_def sim_defs sim_queue_init_def)

end
