(* ===== verification/Uring_Process.thy ===== *)
theory Uring_Process imports
  Uring_Service
  Uring_Zc_Server
  Uring_Setup
begin

text \<open>
  The processes of the two io_uring servers, from the construction in \<open>main\<close> to the destruction of the static
  \<open>g_server\<close>: the event loop with its exits, \<open>signal_handler\<close>, \<open>shutdown\<close> and \<open>run\<close>. The two programs differ in the turns of
  their loops only, so the steps are defined over a turn and the test for an error that ends the loop.
\<close>

subsection \<open>State and steps\<close>

datatype uphase = U_Serving | U_Returned | U_Exited

record 'k uproc =
  u_state :: uring
  u_server :: uring_server
  u_os :: 'k
  u_running :: bool
  u_phase :: uphase

datatype 't uproc_act = U_Turn 't | U_Leave | U_Signal | U_Destroy

definition uring_shutdown :: "'k uproc \<Rightarrow> 'k uproc" where
  "uring_shutdown p = p\<lparr>u_running := False\<rparr>"

text \<open>\<open>g_server\<close> is set from the end of the construction to the destruction.\<close>

definition uring_signal_handler :: "'k uproc \<Rightarrow> 'k uproc" where
  "uring_signal_handler p = (if u_phase p = U_Exited then p else uring_shutdown p)"

text \<open>
  \<open>U_Turn\<close> is one turn of the loop, which ends it when the wait fails, \<open>U_Leave\<close> the loop test that reads false,
  \<open>U_Destroy\<close> the destructor after \<open>main\<close> has returned. A signal can arrive at any moment; it only writes the flag.
\<close>

fun uproc_step :: "('t \<Rightarrow> bool) \<Rightarrow> ('t \<Rightarrow> uring \<Rightarrow> uring option) \<Rightarrow> (uring_server \<Rightarrow> 'k \<Rightarrow> 'k) \<Rightarrow> 't uproc_act \<Rightarrow>
    'k uproc \<Rightarrow> 'k uproc option" where
  "uproc_step fails turn delete (U_Turn t) p =
     (if u_phase p = U_Serving \<and> u_running p then
        if fails t then Some (p\<lparr>u_phase := U_Returned\<rparr>) else map_option (\<lambda>u. p\<lparr>u_state := u\<rparr>) (turn t (u_state p))
      else None)"
| "uproc_step fails turn delete U_Leave p =
     (if u_phase p = U_Serving \<and> \<not> u_running p then Some (p\<lparr>u_phase := U_Returned\<rparr>) else None)"
| "uproc_step fails turn delete U_Signal p = Some (uring_signal_handler p)"
| "uproc_step fails turn delete U_Destroy p =
     (if u_phase p = U_Returned then Some (p\<lparr>u_os := delete (u_server p) (u_os p), u_phase := U_Exited\<rparr>) else None)"

fun wait_fails :: "wait_ret \<times> nat \<Rightarrow> bool" where
  "wait_fails (Wait_Error e, taken) = True"
| "wait_fails _ = False"

fun zc_wait_fails :: "zc_wait_ret \<times> nat \<Rightarrow> bool" where
  "zc_wait_fails (Zc_Wait_Error e, taken) = True"
| "zc_wait_fails _ = False"

definition uring_proc_step :: "'k kernel \<Rightarrow> (wait_ret \<times> nat) uproc_act \<Rightarrow> 'k uproc \<Rightarrow> 'k uproc option" where
  "uring_proc_step K = uproc_step wait_fails loop_turn (uring_server_delete K)"

text \<open>The zero-copy program has handler and \<open>shutdown\<close> of its own.\<close>

definition zc_shutdown :: "'k uproc \<Rightarrow> 'k uproc" where
  "zc_shutdown p = p\<lparr>u_running := False\<rparr>"

definition zc_signal_handler :: "'k uproc \<Rightarrow> 'k uproc" where
  "zc_signal_handler p = (if u_phase p = U_Exited then p else zc_shutdown p)"

definition zc_proc_step :: "'k kernel \<Rightarrow> (zc_wait_ret \<times> nat) uproc_act \<Rightarrow> 'k uproc \<Rightarrow> 'k uproc option" where
  "zc_proc_step K a p =
     (if a = U_Signal then Some (zc_signal_handler p)
      else uproc_step zc_wait_fails zc_loop_turn (zc_server_delete K) a p)"

lemma zc_proc_step_uproc: "zc_proc_step K = uproc_step zc_wait_fails zc_loop_turn (zc_server_delete K)"
  by (auto simp: fun_eq_iff zc_proc_step_def zc_signal_handler_def zc_shutdown_def uring_signal_handler_def uring_shutdown_def)

text \<open>The construction, and the first statement of \<open>event_loop\<close>.\<close>

definition uring_process_new :: "'k kernel \<Rightarrow> 'k queue_init \<Rightarrow> u16 \<Rightarrow> 'k \<Rightarrow> (exn + 'k uproc) \<times> 'k" where
  "uring_process_new K qi p k =
     (case uring_server_new K qi p k of
        (Inl ex, k') \<Rightarrow> (Inl ex, k')
      | (Inr s, k') \<Rightarrow>
          (Inr \<lparr>u_state = submit_accept (uring_new QUEUE_DEPTH (ur_listen s)), u_server = s, u_os = k', u_running = True,
                u_phase = U_Serving\<rparr>, k'))"

definition zc_process_new :: "'k kernel \<Rightarrow> 'k queue_init \<Rightarrow> u16 \<Rightarrow> 'k \<Rightarrow> (exn + 'k uproc) \<times> 'k" where
  "zc_process_new K qi p k =
     (case zc_server_new K qi p k of
        (Inl ex, k') \<Rightarrow> (Inl ex, k')
      | (Inr s, k') \<Rightarrow>
          (Inr \<lparr>u_state = zc_submit_accept (uring_new QUEUE_DEPTH (ur_listen s)), u_server = s, u_os = k', u_running = True,
                u_phase = U_Serving\<rparr>, k'))"

text \<open>The stubs of the other platforms: \<open>run\<close> does nothing, \<open>shutdown\<close> writes the flag.\<close>

definition stub_run :: "'k uproc \<Rightarrow> 'k uproc" where
  "stub_run p = p"

subsection \<open>Shutting down\<close>

text \<open>Until the destruction nothing is closed, and \<open>running_\<close> never becomes true again.\<close>

lemma uproc_run_frame:
  assumes "prun (uproc_step fails turn delete) as p0 = Some p"
  shows "u_server p = u_server p0 \<and> (u_phase p \<noteq> U_Exited \<longrightarrow> u_os p = u_os p0 \<and> u_phase p0 \<noteq> U_Exited) \<and>
    (u_running p \<longrightarrow> u_running p0)"
proof (rule prun_inv [OF assms, where I = "\<lambda>p. u_server p = u_server p0 \<and>
      (u_phase p \<noteq> U_Exited \<longrightarrow> u_os p = u_os p0 \<and> u_phase p0 \<noteq> U_Exited) \<and> (u_running p \<longrightarrow> u_running p0)"])
  fix a p p'
  assume "u_server p = u_server p0 \<and> (u_phase p \<noteq> U_Exited \<longrightarrow> u_os p = u_os p0 \<and> u_phase p0 \<noteq> U_Exited) \<and>
      (u_running p \<longrightarrow> u_running p0)" "uproc_step fails turn delete a p = Some p'"
  then show "u_server p' = u_server p0 \<and> (u_phase p' \<noteq> U_Exited \<longrightarrow> u_os p' = u_os p0 \<and> u_phase p0 \<noteq> U_Exited) \<and>
      (u_running p' \<longrightarrow> u_running p0)"
    by (cases a) (auto simp: uring_signal_handler_def uring_shutdown_def split: if_splits)
qed simp

text \<open>The state of the loop is one after some turns.\<close>

lemma uproc_run_turns:
  assumes "prun (uproc_step fails turn delete) as p0 = Some p"
  shows "\<exists>ts. prun turn ts (u_state p0) = Some (u_state p)"
proof (rule prun_inv [OF assms, where I = "\<lambda>p. \<exists>ts. prun turn ts (u_state p0) = Some (u_state p)"])
  fix a p p'
  assume ih: "\<exists>ts. prun turn ts (u_state p0) = Some (u_state p)" and step: "uproc_step fails turn delete a p = Some p'"
  then obtain ts where ts: "prun turn ts (u_state p0) = Some (u_state p)" by blast
  show "\<exists>ts. prun turn ts (u_state p0) = Some (u_state p')"
  proof (cases "\<exists>t. a = U_Turn t \<and> \<not> fails t")
    case True
    with step obtain t where "turn t (u_state p) = Some (u_state p')" by (auto split: if_splits)
    with ts have "prun turn (ts @ [t]) (u_state p0) = Some (u_state p')" by (simp add: prun_append)
    then show ?thesis by blast
  next
    case False
    with step have "u_state p' = u_state p"
      by (cases a) (auto simp: uring_signal_handler_def uring_shutdown_def split: if_splits)
    with ts show ?thesis by auto
  qed
next
  show "\<exists>ts. prun turn ts (u_state p0) = Some (u_state p0)" by (rule exI [of _ "[]"]) simp
qed

definition winding_down :: "'t uproc_act \<Rightarrow> bool" where
  "winding_down a \<longleftrightarrow> a = U_Leave \<or> a = U_Destroy"

lemma uproc_winds_down:
  assumes "\<not> u_running p" "u_phase p \<noteq> U_Exited"
  shows "(\<forall>t. uproc_step fails turn delete (U_Turn t) p = None) \<and>
    (\<exists>bs. list_all winding_down bs \<and> length bs \<le> 2 \<and>
       prun (uproc_step fails turn delete) bs p = Some (p\<lparr>u_os := delete (u_server p) (u_os p), u_phase := U_Exited\<rparr>))"
proof (cases "u_phase p")
  case U_Serving
  with assms show ?thesis by (intro conjI exI [of _ "[U_Leave, U_Destroy]"]) (simp_all add: winding_down_def)
next
  case U_Returned
  with assms show ?thesis by (intro conjI exI [of _ "[U_Destroy]"]) (simp_all add: winding_down_def)
qed (use assms in simp)

lemma uring_process_new_state:
  assumes "uring_process_new K qi pt k = (Inr p0, k')"
  shows "uring_server_new K qi pt k = (Inr (u_server p0), k')" "u_os p0 = k'" "u_phase p0 = U_Serving"
    "u_state p0 = submit_accept (uring_new QUEUE_DEPTH (ur_listen (u_server p0)))"
  using assms by (auto simp: uring_process_new_def split: prod.splits sum.splits)

lemma zc_process_new_state:
  assumes "zc_process_new K qi pt k = (Inr p0, k')"
  shows "zc_server_new K qi pt k = (Inr (u_server p0), k')" "u_os p0 = k'" "u_phase p0 = U_Serving"
  using assms by (auto simp: zc_process_new_def split: prod.splits sum.splits)

lemma uring_new_deleted:
  assumes "kernel_contract K obs" "queue_init_law qi obs" "uring_server_new K qi pt k = (Inr s, k') \<or> zc_server_new K qi pt k = (Inr s, k')"
    "ur_listen s \<ge> 0"
  shows "opened (obs (uring_server_delete K s k')) = opened (obs k)" "opened (obs (zc_server_delete K s k')) = opened (obs k)"
  using uring_new_descriptors [OF assms(1,2), where new = "uring_server_new K qi" and p = pt and k = k] uring_new_descriptors [OF assms(1,2), where new = "zc_server_new K qi" and p = pt and k = k]
    assms(3,4) by auto


text \<open>The zero-copy server closes both as well; its requests may be gone by then, as \<open>Uring_Zc_Server\<close> shows.\<close>

lemma zc_shutdown_completes:
  assumes "kernel_contract K obs" "queue_init_law qi obs" "zc_process_new K qi pt k = (Inr p0, k')" "ur_listen (u_server p0) \<ge> 0"
    "prun (zc_proc_step K) as p0 = Some p" "\<not> u_running p" "u_phase p \<noteq> U_Exited"
  shows "(\<forall>t. zc_proc_step K (U_Turn t) p = None) \<and>
    (\<exists>bs p'. list_all winding_down bs \<and> length bs \<le> 2 \<and> prun (zc_proc_step K) bs p = Some p' \<and> u_phase p' = U_Exited \<and>
       opened (obs (u_os p')) = opened (obs k))"
proof -
  note init = zc_process_new_state [OF assms(3)]
  have frame: "u_server p = u_server p0" "u_os p = k'"
    using uproc_run_frame [OF assms(5) [unfolded zc_proc_step_uproc]] assms(7) init by simp_all
  have "opened (obs (zc_server_delete K (u_server p0) k')) = opened (obs k)"
    using uring_new_deleted [OF assms(1,2) _ assms(4)] init(1) by blast
  with uproc_winds_down [OF assms(6,7), of zc_wait_fails zc_loop_turn "zc_server_delete K"] frame show ?thesis
    unfolding zc_proc_step_uproc by (elim conjE exE) (intro conjI exI, assumption+, simp_all)
qed

subsection \<open>An execution\<close>

text \<open>A client is accepted, then the signal arrives.\<close>

definition signalled :: "(wait_ret \<times> nat) uproc_act list" where
  "signalled = [U_Turn (Timeout, 256), U_Turn (Completions [\<lparr>cq_data = 0, cq_res = 5, cq_bytes = []\<rparr>], 256), U_Signal]"


end
