(* ===== verification/Server_Programs.thy ===== *)
theory Server_Programs imports
  Program_Args
  Kqueue_Process
  Uring_Process
begin

text \<open>
  The four server programs from the command line to the exit: the argument loop, the two calls of
  \<open>std::signal\<close>, the construction in the \<open>try\<close> block with the unwinding of a constructor that throws,
  and the processes of Server_Process, Kqueue_Process and Uring_Process. A signal may arrive between
  any two steps.
\<close>

subsection \<open>The thread pool's constructor\<close>

text \<open>
  \<open>reserve\<close> throws above \<open>max_size()\<close> of the vector (\<open>limit\<close>). The system grants \<open>avail\<close> threads; when one
  more is asked for, the constructor of \<open>std::thread\<close> throws and the vector is destroyed with the threads
  made so far, which are joinable: their destructor calls \<open>std::terminate\<close>, if there are any.
\<close>

datatype 'a pool_start = Pool_Started 'a | Pool_Throws | Pool_Terminates

definition thread_pool_new :: "nat \<Rightarrow> nat \<Rightarrow> u64 \<Rightarrow> 'a pool pool_start" where
  "thread_pool_new limit avail num_workers =
     (let n = unat num_workers
      in if n > limit then Pool_Throws
         else if n \<le> avail then Pool_Started (pool_new n)
         else if avail = 0 then Pool_Throws
         else Pool_Terminates)"

subsection \<open>Where a program is\<close>

datatype signum = SIGINT | SIGTERM

text \<open>
  In the argument loop; installing the handlers (those installed so far); destroying the members of a
  server whose constructor has thrown; with a server; ended; killed by a signal; ended by \<open>std::terminate\<close>.
\<close>

datatype ('k, 'p) stage =
    Reading_Args 'k
  | Installing "signum list" server_opts 'k
  | Unwinding "task pool" 'k
  | Up 'p
  | Ended exit_status
  | Killed signum
  | Aborted

datatype 'a prog_act = Parse_Args | Install | Construct | Unwind "task action" | Catch | Run 'a | Return | Raise signum

record ('k, 'p, 'a) flavour =
  fl_defaults :: server_opts
  fl_new :: "server_opts \<Rightarrow> 'k \<Rightarrow> ('k, 'p) stage"
  fl_step :: "'a \<Rightarrow> 'p \<Rightarrow> 'p option"
  fl_handler :: "'p \<Rightarrow> 'p option"
  fl_exited :: "'p \<Rightarrow> bool"

definition unwound :: "'a pool \<Rightarrow> bool" where
  "unwound s \<longleftrightarrow> \<not> running s \<and> hnd s = HNone"

definition thread_pool_delete :: "task pool \<Rightarrow> task pool option" where
  "thread_pool_delete s = pool_step Stop s"

text \<open>
  \<open>~ThreadPool\<close> during the unwinding: one call of \<open>stop\<close>, while the workers go on. Nobody calls \<open>enqueue\<close>.
\<close>

definition unwind_step :: "task action \<Rightarrow> task pool \<Rightarrow> task pool option" where
  "unwind_step a s =
     (case a of
        Submit t \<Rightarrow> None
      | Enqueue w \<Rightarrow> None
      | Stop \<Rightarrow> if running s then thread_pool_delete s else None
      | _ \<Rightarrow> pool_step a s)"

text \<open>The default action of both signals ends the process; with the handler installed and no server it returns.\<close>

fun raise_signal :: "('k, 'p, 'a) flavour \<Rightarrow> signum \<Rightarrow> ('k, 'p) stage \<Rightarrow> ('k, 'p) stage option" where
  "raise_signal fl sg (Reading_Args k) = Some (Killed sg)"
| "raise_signal fl sg (Installing hs opts k) = Some (if sg \<in> set hs then Installing hs opts k else Killed sg)"
| "raise_signal fl sg (Unwinding s k) = Some (Unwinding s k)"
| "raise_signal fl sg (Up p) = map_option Up (fl_handler fl p)"
| "raise_signal fl sg _ = None"

fun prog_step :: "('k, 'p, 'a) flavour \<Rightarrow> string list \<Rightarrow> 'a prog_act \<Rightarrow> ('k, 'p) stage \<Rightarrow> ('k, 'p) stage option" where
  "prog_step fl args Parse_Args st =
     (case st of
        Reading_Args k \<Rightarrow>
          (case server_args (fl_defaults fl) args of
             Parsed opts \<Rightarrow> Some (Installing [] opts k)
           | Help \<Rightarrow> Some (Ended (Exit 0))
           | Uncaught e \<Rightarrow> Some (Ended (Terminated e)))
      | _ \<Rightarrow> None)"
| "prog_step fl args Install st =
     (case st of
        Installing hs opts k \<Rightarrow>
          if hs = [] then Some (Installing [SIGINT] opts k)
          else if hs = [SIGINT] then Some (Installing [SIGINT, SIGTERM] opts k)
          else None
      | _ \<Rightarrow> None)"
| "prog_step fl args Construct st =
     (case st of
        Installing hs opts k \<Rightarrow> if hs = [SIGINT, SIGTERM] then Some (fl_new fl opts k) else None
      | _ \<Rightarrow> None)"
| "prog_step fl args (Unwind a) st =
     (case st of Unwinding s k \<Rightarrow> map_option (\<lambda>s'. Unwinding s' k) (unwind_step a s) | _ \<Rightarrow> None)"
| "prog_step fl args Catch st =
     (case st of Unwinding s k \<Rightarrow> if unwound s then Some (Ended (Exit 1)) else None | _ \<Rightarrow> None)"
| "prog_step fl args (Run a) st = (case st of Up p \<Rightarrow> map_option Up (fl_step fl a p) | _ \<Rightarrow> None)"
| "prog_step fl args Return st =
     (case st of Up p \<Rightarrow> if fl_exited fl p then Some (Ended (Exit 0)) else None | _ \<Rightarrow> None)"
| "prog_step fl args (Raise sg) st = raise_signal fl sg st"

subsection \<open>The four programs\<close>

text \<open>The pool is constructed before the body of the server's constructor runs.\<close>

definition pooled_new ::
  "nat \<Rightarrow> nat \<Rightarrow> (u16 \<Rightarrow> nat \<Rightarrow> 'k \<Rightarrow> (exn + echo_server) \<times> 'k) \<Rightarrow> server_opts \<Rightarrow> 'k \<Rightarrow> ('k, 'k process) stage" where
  "pooled_new limit avail server_new opts k =
     (case thread_pool_new limit avail (opt_workers opts) of
        Pool_Throws \<Rightarrow> Ended (Exit 1)
      | Pool_Terminates \<Rightarrow> Aborted
      | Pool_Started workers_pool \<Rightarrow>
          (case server_new (opt_port opts) (unat (opt_workers opts)) k of
             (Inl ex, k') \<Rightarrow> Unwinding workers_pool k'
           | (Inr srv, k') \<Rightarrow> Up (process_new (unat (opt_workers opts)) srv k')))"

definition epoll_flavour :: "'k kernel \<Rightarrow> ('k \<Rightarrow> netobs) \<Rightarrow> nat \<Rightarrow> nat \<Rightarrow> ('k, 'k process, proc_act) flavour" where
  "epoll_flavour K obs limit avail =
     \<lparr>fl_defaults = \<lparr>opt_port = 8080, opt_workers = 1\<rparr>,
      fl_new = pooled_new limit avail (epoll_server_new K),
      fl_step = (\<lambda>a. if a = Signal then Map.empty else proc_step K obs a),
      fl_handler = signal_handler,
      fl_exited = (\<lambda>p. phase p = Exited)\<rparr>"

definition kqueue_flavour :: "'k kernel \<Rightarrow> ('k \<Rightarrow> netobs) \<Rightarrow> nat \<Rightarrow> nat \<Rightarrow> ('k, 'k process, proc_act) flavour" where
  "kqueue_flavour K obs limit avail =
     \<lparr>fl_defaults = \<lparr>opt_port = 8080, opt_workers = 1\<rparr>,
      fl_new = pooled_new limit avail (kqueue_server_new K),
      fl_step = (\<lambda>a. if a = Signal then Map.empty else kq_proc_step K obs a),
      fl_handler = kq_signal_handler,
      fl_exited = (\<lambda>p. phase p = Exited)\<rparr>"

text \<open>The io_uring constructors take the number of workers and ignore it.\<close>

definition single_new ::
  "(u16 \<Rightarrow> 'k \<Rightarrow> (exn + 'k uproc) \<times> 'k) \<Rightarrow> server_opts \<Rightarrow> 'k \<Rightarrow> ('k, 'k uproc) stage" where
  "single_new server_new opts k =
     (case server_new (opt_port opts) k of (Inl ex, k') \<Rightarrow> Ended (Exit 1) | (Inr p, k') \<Rightarrow> Up p)"

definition uring_flavour ::
  "'k kernel \<Rightarrow> 'k queue_init \<Rightarrow> ('k, 'k uproc, (wait_ret \<times> nat) uproc_act) flavour" where
  "uring_flavour K qi =
     \<lparr>fl_defaults = \<lparr>opt_port = 8082, opt_workers = 0\<rparr>,
      fl_new = single_new (uring_process_new K qi),
      fl_step = (\<lambda>a. if a = U_Signal then Map.empty else uring_proc_step K a),
      fl_handler = (\<lambda>p. Some (uring_signal_handler p)),
      fl_exited = (\<lambda>p. u_phase p = U_Exited)\<rparr>"

definition zc_flavour ::
  "'k kernel \<Rightarrow> 'k queue_init \<Rightarrow> ('k, 'k uproc, (zc_wait_ret \<times> nat) uproc_act) flavour" where
  "zc_flavour K qi =
     \<lparr>fl_defaults = \<lparr>opt_port = 8083, opt_workers = 0\<rparr>,
      fl_new = single_new (zc_process_new K qi),
      fl_step = (\<lambda>a. if a = U_Signal then Map.empty else zc_proc_step K a),
      fl_handler = (\<lambda>p. Some (zc_signal_handler p)),
      fl_exited = (\<lambda>p. u_phase p = U_Exited)\<rparr>"

subsection \<open>What every flavour promises, and what follows\<close>

text \<open>
  The interface: a construction yields a server, or a pool to unwind, or ends the program. \<open>fl_act\<close> is a
  step of the server or a signal to it.
\<close>

definition fl_act :: "('k, 'p, 'a) flavour \<Rightarrow> 'a option \<Rightarrow> 'p \<Rightarrow> 'p option" where
  "fl_act fl a = (case a of None \<Rightarrow> fl_handler fl | Some b \<Rightarrow> fl_step fl b)"

definition starts :: "('k, 'p, 'a) flavour \<Rightarrow> 'k \<Rightarrow> u16 \<Rightarrow> u64 \<Rightarrow> bool" where
  "starts fl k p w \<longleftrightarrow> (case fl_new fl \<lparr>opt_port = p, opt_workers = w\<rparr> k of Up _ \<Rightarrow> True | _ \<Rightarrow> False)"

lemma starts_iff: "starts fl k (opt_port opts) (opt_workers opts) \<longleftrightarrow> (\<exists>p. fl_new fl opts k = Up p)"
  by (cases opts) (auto simp: starts_def split: stage.splits)

definition handles :: "signum \<Rightarrow> ('k, 'p) stage \<Rightarrow> bool" where
  "handles sg st \<longleftrightarrow> (case st of Reading_Args k \<Rightarrow> False | Installing hs opts k \<Rightarrow> sg \<in> set hs | Killed sg' \<Rightarrow> sg' \<noteq> sg | _ \<Rightarrow> True)"

locale server_flavour =
  fixes fl :: "('k, 'p, 'a) flavour"
  assumes new_stages: "fl_new fl opts k = st \<Longrightarrow>
    (\<exists>p. st = Up p) \<or> (\<exists>n k'. st = Unwinding (pool_new n) k') \<or> st = Ended (Exit 1) \<or> st = Aborted"
begin

fun prog_inv :: "string list \<Rightarrow> 'k \<Rightarrow> ('k, 'p) stage \<Rightarrow> bool" where
  "prog_inv args k (Reading_Args k') \<longleftrightarrow> k' = k"
| "prog_inv args k (Installing hs opts k') \<longleftrightarrow> k' = k \<and> server_args (fl_defaults fl) args = Parsed opts"
| "prog_inv args k (Unwinding s k') \<longleftrightarrow>
     (\<exists>opts n. server_args (fl_defaults fl) args = Parsed opts \<and> fl_new fl opts k = Unwinding (pool_new n) k' \<and> preach n s \<and>
        net s = NIdle)"
| "prog_inv args k (Up p) \<longleftrightarrow>
     (\<exists>opts p0 bs. server_args (fl_defaults fl) args = Parsed opts \<and> fl_new fl opts k = Up p0 \<and> prun (fl_act fl) bs p0 = Some p)"
| "prog_inv args k (Ended x) \<longleftrightarrow> x = server_main (fl_defaults fl) (starts fl k) args \<and>
     (\<forall>opts. server_args (fl_defaults fl) args = Parsed opts \<and> x = Exit 0 \<longrightarrow>
        (\<exists>p0 bs p. fl_new fl opts k = Up p0 \<and> prun (fl_act fl) bs p0 = Some p \<and> fl_exited fl p))"
| "prog_inv args k (Killed sg) \<longleftrightarrow> True"
| "prog_inv args k Aborted \<longleftrightarrow> (\<exists>opts. server_args (fl_defaults fl) args = Parsed opts \<and> fl_new fl opts k = Aborted)"

lemma act_inv:
  assumes "prog_inv args k (Up p)" "fl_act fl b p = Some p'"
  shows "prog_inv args k (Up p')"
proof -
  from assms(1) obtain opts p0 bs where "server_args (fl_defaults fl) args = Parsed opts" "fl_new fl opts k = Up p0"
    "prun (fl_act fl) bs p0 = Some p" by auto
  moreover from this(3) assms(2) have "prun (fl_act fl) (bs @ [b]) p0 = Some p'" by (simp add: prun_append)
  ultimately show ?thesis by auto
qed

lemma construct_inv:
  assumes "server_args (fl_defaults fl) args = Parsed opts"
  shows "prog_inv args k (fl_new fl opts k)"
proof -
  consider p where "fl_new fl opts k = Up p" | n k' where "fl_new fl opts k = Unwinding (pool_new n) k'"
    | "fl_new fl opts k = Ended (Exit 1)" | "fl_new fl opts k = Aborted" using new_stages by blast
  then show ?thesis
  proof cases
    case (1 p)
    then have "prun (fl_act fl) [] p = Some p" by simp
    with 1 assms show ?thesis by (auto simp del: prun.simps)
  next
    case (2 n k')
    then show ?thesis using assms preach.start [of n] by (auto simp: pool_new_def)
  qed (use assms in \<open>auto simp: server_main_def starts_iff\<close>)
qed

lemma unwind_pool: "unwind_step a s = Some s' \<Longrightarrow> pool_step a s = Some s' \<and> (\<forall>t. a \<noteq> Submit t)"
  by (auto simp: unwind_step_def thread_pool_delete_def split: action.splits if_splits)

lemma step_inv:
  assumes inv: "prog_inv args k st" and step: "prog_step fl args a st = Some st'"
  shows "prog_inv args k st'"
proof (cases a)
  case Parse_Args
  with inv step show ?thesis by (auto simp: server_main_def split: stage.splits outcome.splits)
next
  case Install
  with inv step show ?thesis by (auto split: stage.splits if_splits)
next
  case Construct
  with inv step show ?thesis by (auto split: stage.splits if_splits intro: construct_inv)
next
  case (Unwind b)
  with step obtain s k' s' where st: "st = Unwinding s k'" "st' = Unwinding s' k'" "unwind_step b s = Some s'"
    by (auto split: stage.splits)
  from unwind_pool [OF this(3)] inv st show ?thesis by (auto intro: preach.step net_stays_idle)
next
  case Catch
  with inv step show ?thesis
    by (cases st) (auto simp: server_main_def starts_iff split: if_splits)
next
  case (Run b)
  with step obtain p p' where st: "st = Up p" "st' = Up p'" "fl_act fl (Some b) p = Some p'"
    by (auto simp: fl_act_def split: stage.splits)
  with inv act_inv [OF _ st(3)] show ?thesis by blast
next
  case Return
  with step obtain p where st: "st = Up p" "st' = Ended (Exit 0)" "fl_exited fl p" by (auto split: stage.splits if_splits)
  with inv obtain opts p0 bs where o: "server_args (fl_defaults fl) args = Parsed opts" "fl_new fl opts k = Up p0"
    "prun (fl_act fl) bs p0 = Some p" by auto
  then have "starts fl k (opt_port opts) (opt_workers opts)" by (simp add: starts_iff)
  with o st show ?thesis by (auto simp: server_main_def)
next
  case (Raise sg)
  show ?thesis
  proof (cases "\<exists>p. st = Up p")
    case True
    with Raise step obtain p p' where st: "st = Up p" "st' = Up p'" "fl_act fl None p = Some p'"
      by (auto simp: fl_act_def)
    with inv act_inv [OF _ st(3)] show ?thesis by blast
  next
    case False
    with Raise inv step show ?thesis by (cases st) (auto split: if_splits)
  qed
qed

lemma program_inv:
  assumes "prun (prog_step fl args) as (Reading_Args k) = Some st"
  shows "prog_inv args k st"
  by (rule prun_inv [OF assms, where I = "prog_inv args k"]) (auto intro: step_inv simp del: prog_step.simps)

lemma program_status:
  "prun (prog_step fl args) as (Reading_Args k) = Some (Ended x) \<Longrightarrow> x = server_main (fl_defaults fl) (starts fl k) args"
  by (drule program_inv) simp

lemma handles_step:
  assumes "handles sg st" "prog_step fl args a st = Some st'"
  shows "handles sg st'"
proof (cases a)
  case Construct
  with assms(2) obtain opts k where "st' = fl_new fl opts k" by (auto split: stage.splits if_splits)
  with new_stages [OF this [symmetric]] show ?thesis by (auto simp: handles_def)
next
  case (Raise sg')
  with assms show ?thesis by (cases st) (auto simp: handles_def)
qed (use assms in \<open>auto simp: handles_def split: stage.splits if_splits outcome.splits\<close>)

lemma handled_signal_does_not_kill:
  assumes "prun (prog_step fl args) as st = Some st'" "handles sg st"
  shows "st' \<noteq> Killed sg"
proof -
  have "handles sg st'" by (rule prun_inv [OF assms(1), where I = "handles sg"]) (auto intro: handles_step simp: assms(2) simp del: prog_step.simps)
  then show ?thesis by (auto simp: handles_def)
qed

end

lemma pooled_stages:
  "pooled_new limit avail new opts k = st \<Longrightarrow>
     (\<exists>p. st = Up p) \<or> (\<exists>n k'. st = Unwinding (pool_new n) k') \<or> st = Ended (Exit 1) \<or> st = Aborted"
  by (auto simp: pooled_new_def thread_pool_new_def Let_def split: prod.splits sum.splits if_splits)

lemma single_stages:
  "single_new new opts k = st \<Longrightarrow>
     (\<exists>p. st = Up p) \<or> (\<exists>n k'. st = Unwinding (pool_new n) k') \<or> st = Ended (Exit 1) \<or> st = Aborted"
  by (auto simp: single_new_def split: prod.splits sum.splits)

lemma pooled_flavour: "fl_new fl = pooled_new limit avail new \<Longrightarrow> server_flavour fl"
  by unfold_locales (simp add: pooled_stages)

lemma single_flavour: "fl_new fl = single_new new \<Longrightarrow> server_flavour fl"
  by unfold_locales (simp add: single_stages)

lemma flavour_parts [simp]:
  "fl_defaults (epoll_flavour K obs limit avail) = \<lparr>opt_port = 8080, opt_workers = 1\<rparr>"
  "fl_new (epoll_flavour K obs limit avail) = pooled_new limit avail (epoll_server_new K)"
  "fl_exited (epoll_flavour K obs limit avail) p \<longleftrightarrow> phase p = Exited"
  "fl_defaults (kqueue_flavour K obs limit avail) = \<lparr>opt_port = 8080, opt_workers = 1\<rparr>"
  "fl_new (kqueue_flavour K obs limit avail) = pooled_new limit avail (kqueue_server_new K)"
  "fl_defaults (uring_flavour K qi) = \<lparr>opt_port = 8082, opt_workers = 0\<rparr>"
  "fl_new (uring_flavour K qi) = single_new (uring_process_new K qi)"
  "fl_defaults (zc_flavour K qi) = \<lparr>opt_port = 8083, opt_workers = 0\<rparr>"
  "fl_new (zc_flavour K qi) = single_new (zc_process_new K qi)"
  by (simp_all add: epoll_flavour_def kqueue_flavour_def uring_flavour_def zc_flavour_def)

interpretation epollp: server_flavour "epoll_flavour K obs limit avail" for K obs limit avail
  by (rule pooled_flavour) simp

interpretation kqueuep: server_flavour "kqueue_flavour K obs limit avail" for K obs limit avail
  by (rule pooled_flavour) simp

interpretation uringp: server_flavour "uring_flavour K qi" for K qi
  by (rule single_flavour) simp

interpretation zcp: server_flavour "zc_flavour K qi" for K qi
  by (rule single_flavour) simp

definition pooled_starts ::
  "nat \<Rightarrow> nat \<Rightarrow> (u16 \<Rightarrow> nat \<Rightarrow> 'k \<Rightarrow> (exn + echo_server) \<times> 'k) \<Rightarrow> 'k \<Rightarrow> u16 \<Rightarrow> u64 \<Rightarrow> bool" where
  "pooled_starts limit avail server_new k p w \<longleftrightarrow>
     unat w \<le> limit \<and> unat w \<le> avail \<and> (case fst (server_new p (unat w) k) of Inl ex \<Rightarrow> False | Inr srv \<Rightarrow> True)"

lemma starts_pooled:
  "fl_new fl = pooled_new limit avail new \<Longrightarrow> starts fl k = pooled_starts limit avail new k"
  by (auto simp: starts_def pooled_starts_def pooled_new_def thread_pool_new_def Let_def fun_eq_iff split: prod.splits sum.splits)

definition single_starts :: "(u16 \<Rightarrow> 'k \<Rightarrow> (exn + uring_server) \<times> 'k) \<Rightarrow> 'k \<Rightarrow> u16 \<Rightarrow> u64 \<Rightarrow> bool" where
  "single_starts server_new k p w \<longleftrightarrow> (case fst (server_new p k) of Inl ex \<Rightarrow> False | Inr srv \<Rightarrow> True)"

lemma starts_uring: "starts (uring_flavour K qi) k = single_starts (uring_server_new K qi) k"
  by (auto simp: starts_def single_starts_def single_new_def uring_process_new_def fun_eq_iff
      split: prod.splits sum.splits)

lemma starts_zc: "starts (zc_flavour K qi) k = single_starts (zc_server_new K qi) k"
  by (auto simp: starts_def single_starts_def single_new_def zc_process_new_def fun_eq_iff
      split: prod.splits sum.splits)

lemma epoll_act_proc: "fl_act (epoll_flavour K obs limit avail) b p = Some p' \<Longrightarrow> \<exists>a. proc_step K obs a p = Some p'"
  by (cases b) (auto simp: fl_act_def epoll_flavour_def intro: exI [of _ Signal] split: if_splits)

lemma epoll_acts_proc:
  assumes "prun (fl_act (epoll_flavour K obs limit avail)) bs p0 = Some p"
  shows "\<exists>as. proc_run K obs as p0 = Some p"
proof (rule prun_inv [OF assms, where I = "\<lambda>p. \<exists>as. proc_run K obs as p0 = Some p"])
  fix b q q'
  assume "\<exists>as. proc_run K obs as p0 = Some q" "fl_act (epoll_flavour K obs limit avail) b q = Some q'"
  then obtain as a where "proc_run K obs as p0 = Some q" "proc_step K obs a q = Some q'" using epoll_act_proc by blast
  then have "proc_run K obs (as @ [a]) p0 = Some q'" by (simp add: prun_append)
  then show "\<exists>as. proc_run K obs as p0 = Some q'" by blast
next
  show "\<exists>as. proc_run K obs as p0 = Some p0" by (rule exI [of _ "[]"]) simp
qed

text \<open>A program of the epoll flavour that returns 0 after its arguments has been through its whole process.\<close>

lemma epoll_program_joins:
  assumes "prun (prog_step (epoll_flavour K obs limit avail) args) as (Reading_Args k) = Some (Ended (Exit 0))"
    "server_args \<lparr>opt_port = 8080, opt_workers = 1\<rparr> args = Parsed opts"
  shows "\<exists>srv k' bs p. epoll_server_new K (opt_port opts) (unat (opt_workers opts)) k = (Inr srv, k') \<and>
    proc_run K obs bs (process_new (unat (opt_workers opts)) srv k') = Some p \<and> phase p = Exited \<and>
    all_joined (threads (sys p))"
proof -
  let ?fl = "epoll_flavour K obs limit avail"
  from epollp.program_inv [OF assms(1)] assms(2) obtain p0 bs p where
    new: "fl_new ?fl opts k = Up p0" and run: "prun (fl_act ?fl) bs p0 = Some p" and ex: "fl_exited ?fl p"
    by auto
  from new obtain srv k' where srv: "epoll_server_new K (opt_port opts) (unat (opt_workers opts)) k = (Inr srv, k')"
    "p0 = process_new (unat (opt_workers opts)) srv k'"
    by (auto simp: pooled_new_def split: pool_start.splits prod.splits sum.splits)
  from epoll_acts_proc [OF run] obtain cs where cs: "proc_run K obs cs p0 = Some p" by blast
  moreover have "phase p = Exited" using ex by simp
  moreover from this proc_run_inv [OF cs [unfolded srv(2)]] have "all_joined (threads (sys p))" by (simp add: proc_inv_def)
  ultimately show ?thesis using srv by blast
qed


definition uring_served :: "(wait_ret \<times> nat) uproc_act prog_act list" where
  "uring_served = [Parse_Args, Install, Raise SIGINT, Install, Construct, Run (U_Turn (Timeout, 256)), Raise SIGTERM,
     Run U_Leave, Run U_Destroy, Return]"


subsection \<open>A constructor that fails\<close>

text \<open>
  The socket is refused after the pool has started. If no worker is between finding the queue empty and falling
  asleep when the destructor of the pool notifies, the program ends with code 1.
\<close>

lemma unwind_run:
  assumes "pool_run as s = Some s'" "list_all (\<lambda>a. (\<exists>i<n. a = Work i) \<or> a = Stopping) as"
  shows "prun (prog_step fl args) (map Unwind as) (Unwinding s k) = Some (Unwinding s' k)"
  using assms
proof (induction as arbitrary: s)
  case (Cons a as)
  then obtain t where t: "pool_step a s = Some t" "pool_run as t = Some s'" by (auto simp: bind_eq_Some_conv)
  then have "unwind_step a s = Some t" using Cons.prems(2) by (auto simp: unwind_step_def)
  with Cons.IH [of t] t Cons.prems(2) show ?case by (simp del: pool_step.simps)
qed simp

lemma failed_start_returns:
  assumes "prun (prog_step (epoll_flavour K obs limit avail) args) as (Reading_Args k) = Some (Unwinding s k')"
    "hnd s = HNotify" "WBlock \<notin> set (workers s)"
  shows "\<exists>bs. prun (prog_step (epoll_flavour K obs limit avail) args) bs (Unwinding s k') = Some (Ended (Exit 1))"
proof -
  from epollp.program_inv [OF assms(1)] obtain n where n: "preach n s" "net s = NIdle" by auto
  let ?t = "s\<lparr>workers := map wake (workers s), hnd := HJoin 0\<rparr>"
  have t: "pool_step Stopping s = Some ?t" using assms(2) by (simp add: stop_def)
  have "stopping n ?t" using notified_stopping [OF n(1) assms(2,3) _ t] n(2) by simp
  then obtain cs s' where cs: "list_all (\<lambda>a. (\<exists>i<n. a = Work i) \<or> a = Stopping) cs" "pool_run cs ?t = Some s'"
    "stopping n s'" "hnd s' = HNone" using poolstop.finishes by blast
  have "pool_run (Stopping # cs) s = Some s'" using t cs(2) by (simp del: pool_step.simps)
  then have "prun (prog_step (epoll_flavour K obs limit avail) args) (map Unwind (Stopping # cs)) (Unwinding s k') =
      Some (Unwinding s' k')" by (rule unwind_run [where n = n]) (simp add: cs(1))
  moreover have "prog_step (epoll_flavour K obs limit avail) args Catch (Unwinding s' k') = Some (Ended (Exit 1))"
    using cs(3,4) by (simp add: unwound_def stopping_def)
  ultimately have "prun (prog_step (epoll_flavour K obs limit avail) args) (map Unwind (Stopping # cs) @ [Catch]) (Unwinding s k') =
      Some (Ended (Exit 1))" by (simp only: prun_append bind.bind_lunit prun.simps)
  then show ?thesis by blast
qed

definition port_taken :: sim where
  "port_taken = (sim_new [3])\<lparr>refuse := Some Bind_Call\<rparr>"

definition failed_start :: "proc_act prog_act list" where
  "failed_start = [Parse_Args, Install, Install, Construct, Unwind (Work 0), Unwind (Work 0), Unwind (Work 0), Unwind Stop,
     Unwind Stopping, Unwind Stopping, Unwind (Work 0)]"

text \<open>
  C31. The epoll server on a port that is taken, with its default of one worker: the constructor throws, and the destruction of
  the pool can lose its notification in the moment in which the worker falls asleep for the first time. The program then never returns its code 1
  and holds no descriptor: no step of it, and no signal, changes anything any more, but a wake-up without a reason.
\<close>

lemma failed_start_can_hang:
  "\<exists>s k. prun (prog_step (epoll_flavour sim_kernel simnet 1000 1000) []) failed_start (Reading_Args port_taken) = Some (Unwinding s k) \<and>
     opened (simnet k) = {} \<and>
     {a. prog_step (epoll_flavour sim_kernel simnet 1000 1000) [] a (Unwinding s k) \<notin> {None, Some (Unwinding s k)}} =
       {Unwind (Spurious 0)}"
proof -
  let ?fl = "epoll_flavour sim_kernel simnet 1000 1000"
  let ?s = "(pool_new 1)\<lparr>workers := [WSleep], running := False, hnd := HJoin 0\<rparr> :: task pool"
  obtain s k where r: "prun (prog_step ?fl []) failed_start (Reading_Args port_taken) = Some (Unwinding s k)"
    and s: "s = ?s" and k: "opened (simnet k) = {}"
    by (simp add: failed_start_def port_taken_def pooled_new_def thread_pool_new_def epoll_server_new_def sim_defs
        unwind_step_def thread_pool_delete_def pool_new_def worker_loop_def stop_def wake_def)
  have "prog_step ?fl [] a (Unwinding s k) \<in> {None, Some (Unwinding s k)} \<longleftrightarrow> a \<noteq> Unwind (Spurious 0)" for a
  proof (cases a)
    case (Unwind b)
    then show ?thesis
      by (cases b) (auto simp: s unwind_step_def pool_new_def worker_loop_def stop_def intro!: gr0I)
  qed (auto simp: s unwound_def)
  with r k show ?thesis by (intro exI [of _ s] exI [of _ k]) auto
qed

end
