(* ===== verification/Doubles.thy ===== *)
theory Doubles imports
  Complex_Main
  "HOL-Library.Log_Nat"
  "HOL-Library.Word"
begin

text \<open>
  The \<open>double\<close>s of the benchmarks' reports: binary64 numbers that are not negative, as exact rationals, with the
  rounding to nearest, ties to even, of a mantissa of 53 bits. Exponents are not bounded: durations and counts of 64 bits,
  their quotients and the quotients of those stay between \<open>2 ^ -200\<close> and \<open>2 ^ 200\<close>, far from overflow and from the subnormal
  numbers. Division by zero gives an infinity or a NaN, which are values of their own.
\<close>

subsection \<open>Rounding\<close>

text \<open>The nearest integer, the even one of two.\<close>

definition rhe :: "rat \<Rightarrow> int" where
  "rhe x =
     (let f = \<lfloor>x\<rfloor>; d = x - of_int f
      in if d < 1/2 \<or> d = 1/2 \<and> even f then f else f + 1)"

text \<open>The exponent of a positive number: \<open>2 powi rexp x \<le> x < 2 powi (rexp x + 1)\<close>.\<close>

definition rexp :: "rat \<Rightarrow> int" where
  "rexp x =
     (if 1 \<le> x then int (floorlog 2 (nat \<lfloor>x\<rfloor>)) - 1
      else - int (floorlog 2 (nat (\<lceil>1 / x\<rceil> - 1))))"

definition ulps :: "rat \<Rightarrow> rat" where
  "ulps x = 2 powi (52 - rexp x)"

definition fl :: "rat \<Rightarrow> rat" where
  "fl x = (if x \<le> 0 then 0 else of_int (rhe (x * ulps x)) / ulps x)"

lemma rhe_bounds: "x - 1/2 \<le> of_int (rhe x) \<and> of_int (rhe x) \<le> x + 1/2"
  unfolding rhe_def Let_def by (auto simp: field_simps) linarith+

lemma rhe_int [simp]: "rhe (of_int k) = k"
  by (simp add: rhe_def)

lemma rhe_mono: 
  assumes "x \<le> y" shows "rhe x \<le> rhe y"
proof (cases "\<lfloor>x\<rfloor> = \<lfloor>y\<rfloor>")
  case True
  then show ?thesis using assms unfolding rhe_def Let_def by auto
next
  case False
  then have "\<lfloor>x\<rfloor> + 1 \<le> \<lfloor>y\<rfloor>" using floor_mono [OF assms] by linarith
  then show ?thesis unfolding rhe_def Let_def by auto
qed

lemma floorlog_pow: "n \<noteq> 0 \<Longrightarrow> 2 ^ (floorlog 2 n - 1) \<le> n \<and> n < 2 ^ floorlog 2 n \<and> 0 < floorlog 2 n" for n :: nat
  using floorlog_bounds [of n 2] floorlog_eq_zero_iff [of 2 n] by auto

lemma rexp_bounds:
  assumes "0 < x"
  shows "2 powi rexp x \<le> x \<and> x < 2 powi (rexp x + 1)"
proof (cases "1 \<le> x")
  case True
  let ?n = "nat \<lfloor>x\<rfloor>"
  have "1 \<le> \<lfloor>x\<rfloor>" using True by (simp add: le_floor_iff)
  then have n: "?n \<noteq> 0" "rat_of_nat ?n = of_int \<lfloor>x\<rfloor>" by auto
  note f = floorlog_pow [OF n(1)]
  have "rat_of_nat (2 ^ (floorlog 2 ?n - 1)) \<le> of_nat ?n" using f by (simp only: of_nat_le_iff)
  then have "2 ^ (floorlog 2 ?n - 1) \<le> rat_of_int \<lfloor>x\<rfloor>" unfolding n(2) by simp
  then have "2 ^ (floorlog 2 ?n - 1) \<le> x" using of_int_floor_le [of x] by linarith
  moreover have "rat_of_nat ?n + 1 \<le> of_nat (2 ^ floorlog 2 ?n)" using f by (metis Suc_leI of_nat_Suc of_nat_le_iff add.commute)
  then have "x < 2 ^ floorlog 2 ?n" using n(2) floor_correct [of x] by simp
  moreover have "rexp x = int (floorlog 2 ?n - 1)" "rexp x + 1 = int (floorlog 2 ?n)"
    using True f by (simp_all add: rexp_def of_nat_diff)
  ultimately show ?thesis by (metis power_int_of_nat)
next
  case False
  let ?y = "1 / x"
  let ?n = "nat (\<lceil>?y\<rceil> - 1)"
  have y: "1 < ?y" using False assms by (simp add: field_simps)
  then have c: "1 < \<lceil>?y\<rceil>" by (simp add: less_ceiling_iff)
  then have "?n \<noteq> 0" "int ?n = \<lceil>?y\<rceil> - 1" by linarith+
  then have n: "?n \<noteq> 0" "rat_of_nat ?n = of_int \<lceil>?y\<rceil> - 1" by (simp, metis of_int_1 of_int_diff of_int_of_nat_eq)
  note f = floorlog_pow [OF n(1)]
  have "rat_of_nat (2 ^ (floorlog 2 ?n - 1)) \<le> of_nat ?n" using f by (simp only: of_nat_le_iff)
  then have lo: "2 ^ (floorlog 2 ?n - 1) < ?y" using n(2) ceiling_correct [of ?y] by simp
  have "rat_of_nat ?n + 1 \<le> of_nat (2 ^ floorlog 2 ?n)" using f by (metis Suc_leI of_nat_Suc of_nat_le_iff add.commute)
  then have "rat_of_int \<lceil>?y\<rceil> \<le> 2 ^ floorlog 2 ?n" unfolding n(2) by simp
  then have hi: "?y \<le> 2 ^ floorlog 2 ?n" using ceiling_correct [of ?y] by linarith
  obtain j where j: "floorlog 2 ?n = Suc j" using f gr0_implies_Suc by blast
  then have "rexp x = - int (Suc j)" "rexp x + 1 = - int j" using False by (simp_all add: rexp_def)
  with lo hi assms show ?thesis unfolding j by (simp only: power_int_minus power_int_of_nat) (simp add: field_simps)
qed

lemma rexp_unique:
  assumes "2 powi e \<le> x" "x < 2 powi (e + 1)"
  shows "rexp x = e"
proof -
  have "0 < (2::rat) powi e" by simp
  with assms(1) have "0 < x" by linarith
  note b = rexp_bounds [OF this]
  have "2 powi rexp x < (2::rat) powi (e + 1)" "2 powi e < (2::rat) powi (rexp x + 1)"
    using b assms by linarith+
  then have "rexp x < e + 1" "e < rexp x + 1"
    using power_int_increasing [of "e + 1" "rexp x" "2 :: rat"] power_int_increasing [of "rexp x + 1" e "2 :: rat"] by force+
  then show ?thesis by linarith
qed

lemma ulps_pos [simp]: "0 < ulps x"
  by (simp add: ulps_def)

lemma ulps_not [simp]: "\<not> ulps x < 0" "\<not> ulps x \<le> 0" "ulps x \<noteq> 0"
  using ulps_pos [of x] by (auto simp del: ulps_pos)

lemma scaled_bounds:
  assumes "0 < x"
  shows "2 ^ 52 \<le> x * ulps x \<and> x * ulps x < 2 ^ 53"
proof -
  let ?e = "rexp x"
  have s: "2 powi ?e * ulps x = 2 ^ 52" "2 powi (?e + 1) * ulps x = (2 :: rat) ^ 53"
    by (simp_all add: ulps_def flip: power_int_add)
  have "2 powi ?e * ulps x \<le> x * ulps x" "x * ulps x < 2 powi (?e + 1) * ulps x"
    using rexp_bounds [OF assms] by (simp_all add: mult_le_cancel_right mult_less_cancel_right)
  then show ?thesis unfolding s by blast
qed

text \<open>The numbers that rounding leaves alone.\<close>

definition exact :: "rat \<Rightarrow> bool" where
  "exact x \<longleftrightarrow> 0 \<le> x \<and> x * ulps x \<in> \<int>"

lemma fl_exact: "exact x \<Longrightarrow> fl x = x"
proof (cases "x \<le> 0")
  case False
  assume "exact x"
  then obtain k where "x * ulps x = of_int k" by (auto simp: exact_def elim: Ints_cases)
  then have "fl x = x * ulps x / ulps x" using False by (simp add: fl_def)
  then show ?thesis using ulps_pos [of x] by simp
qed (simp add: exact_def fl_def)

lemma exact_scaled:
  assumes "m < 2 ^ 53"
  shows "exact (of_nat m * 2 powi j)"
proof (cases "m = 0")
  case False
  let ?x = "of_nat m * 2 powi j :: rat"
  have "0 < ?x" using False by simp
  then have "2 powi rexp ?x \<le> ?x" by (simp add: rexp_bounds)
  also have "rat_of_nat m < of_nat (2 ^ 53)" using assms by (simp only: of_nat_less_iff)
  then have "?x < 2 ^ 53 * 2 powi j" by (intro mult_strict_right_mono) simp_all
  also have "\<dots> = 2 powi (53 + j)" by (simp add: power_int_add)
  finally have "rexp ?x < 53 + j"
    using power_int_increasing [of "53 + j" "rexp ?x" "2 :: rat"] by force
  then have j: "0 \<le> j + (52 - rexp ?x)" by simp
  have "?x * ulps ?x = of_nat m * (2 powi j * 2 powi (52 - rexp ?x))" by (simp add: ulps_def)
  also have "\<dots> = of_nat m * 2 powi (j + (52 - rexp ?x))" by (simp flip: power_int_add)
  also have "\<dots> = of_nat (m * 2 ^ nat (j + (52 - rexp ?x)))"
    using j by (simp add: power_int_def)
  finally have "?x * ulps ?x \<in> \<int>" by (metis Ints_of_nat)
  with \<open>0 < ?x\<close> show ?thesis unfolding exact_def by simp
qed (simp add: exact_def)

lemma exact_nat: "m < 2 ^ 53 \<Longrightarrow> exact (of_nat m)"
  using exact_scaled [of m 0] by simp

lemma fl_nat: "m < 2 ^ 53 \<Longrightarrow> fl (of_nat m) = of_nat m"
  by (rule fl_exact [OF exact_nat])

lemma fl_zero [simp]: "fl 0 = 0"
  by (simp add: fl_def)

lemma fl_within_binade:
  assumes "0 < x"
  shows "2 powi rexp x \<le> fl x \<and> fl x \<le> 2 powi (rexp x + 1)"
proof -
  have "of_int (2 ^ 52) \<le> x * ulps x" "x * ulps x \<le> of_int (2 ^ 53)" using scaled_bounds [OF assms] by simp_all
  from rhe_mono [OF this(1)] rhe_mono [OF this(2)]
  have r: "2 ^ 52 \<le> rhe (x * ulps x)" "rhe (x * ulps x) \<le> 2 ^ 53" by (simp_all only: rhe_int)
  then have "2 ^ 52 \<le> rat_of_int (rhe (x * ulps x))" "rat_of_int (rhe (x * ulps x)) \<le> 2 ^ 53"
    by (metis of_int_le_iff of_int_numeral of_int_power)+
  moreover have "2 powi rexp x = (2 :: rat) ^ 52 / ulps x" "2 powi (rexp x + 1) = (2 :: rat) ^ 53 / ulps x"
    by (simp_all add: ulps_def power_int_diff power_int_add)
  ultimately show ?thesis using assms ulps_pos [of x] by (simp add: fl_def divide_le_cancel)
qed

lemma fl_mono:
  assumes "x \<le> y"
  shows "fl x \<le> fl y"
proof (cases "0 < x")
  case True
  with assms have y: "0 < y" by simp
  show ?thesis
  proof (cases "rexp x = rexp y")
    case True
    then have u: "ulps x = ulps y" by (simp add: ulps_def)
    have "x * ulps y \<le> y * ulps y" using assms ulps_pos [of y] by (simp add: mult_le_cancel_right)
    from rhe_mono [OF this] have "rat_of_int (rhe (x * ulps y)) \<le> of_int (rhe (y * ulps y))" by simp
    then show ?thesis using \<open>0 < x\<close> y ulps_pos [of y] by (simp add: fl_def u divide_le_cancel)
  next
    case False
    have "2 powi rexp x < (2 :: rat) powi (rexp y + 1)"
      using rexp_bounds [OF True] rexp_bounds [OF y] assms by linarith
    then have "rexp x < rexp y + 1"
      using power_int_increasing [of "rexp y + 1" "rexp x" "2 :: rat"] by force
    with False have "(2 :: rat) powi (rexp x + 1) \<le> 2 powi rexp y" by (intro power_int_increasing) simp_all
    then show ?thesis using fl_within_binade [OF True] fl_within_binade [OF y] by linarith
  qed
next
  case False
  have "0 \<le> fl y"
  proof (cases "0 < y")
    case True
    have "(0 :: rat) < 2 powi rexp y" by simp
    with fl_within_binade [OF True] show ?thesis by linarith
  qed (simp add: fl_def)
  with False show ?thesis by (simp add: fl_def)
qed

lemma fl_nonneg [simp]: "0 \<le> fl x"
  by (cases "0 \<le> x") (use fl_mono [of 0 x] in \<open>simp_all add: fl_def\<close>)

lemma fl_pos [simp]: "0 < fl x \<longleftrightarrow> 0 < x"
proof (cases "0 < x")
  case True
  have "(0 :: rat) < 2 powi rexp x" by simp
  with fl_within_binade [OF True] True show ?thesis by linarith
qed (simp add: fl_def)

lemma fl_le: "x \<le> k \<Longrightarrow> exact k \<Longrightarrow> fl x \<le> k"
  using fl_mono [of x k] by (simp add: fl_exact)

lemma le_fl: "k \<le> x \<Longrightarrow> exact k \<Longrightarrow> k \<le> fl x"
  using fl_mono [of k x] by (simp add: fl_exact)

text \<open>The relative error is at most half a unit in the last place.\<close>

definition unit_err :: rat where
  "unit_err = 1 / 2 ^ 53"

lemma fl_error:
  assumes "0 \<le> x"
  shows "x * (1 - unit_err) \<le> fl x \<and> fl x \<le> x * (1 + unit_err)"
proof (cases "0 < x")
  case True
  let ?s = "ulps x"
  have h: "1 / 2 \<le> x * ?s * unit_err"
    using scaled_bounds [OF True] by (simp add: unit_err_def)
  have f: "fl x * ?s = of_int (rhe (x * ?s))" using True ulps_pos [of x] by (simp add: fl_def)
  have "x * (1 - unit_err) * ?s \<le> fl x * ?s" "fl x * ?s \<le> x * (1 + unit_err) * ?s"
    unfolding f using rhe_bounds [of "x * ?s"] h by (simp_all add: algebra_simps)
  then show ?thesis using ulps_pos [of x] by (simp add: mult_le_cancel_right)
next
  case False
  with assms show ?thesis by simp
qed

text \<open>\<open>y\<close> is \<open>x\<close> up to \<open>k\<close> roundings.\<close>

definition near :: "nat \<Rightarrow> rat \<Rightarrow> rat \<Rightarrow> bool" where
  "near k x y \<longleftrightarrow> x * (1 - unit_err) ^ k \<le> y \<and> y \<le> x * (1 + unit_err) ^ k"

lemma unit_err_bounds: "0 < unit_err" "unit_err < 1 / 2"
  by (simp_all add: unit_err_def)

lemma err_powers: "0 < (1 - unit_err) ^ k" "(1 - unit_err) ^ k \<le> 1" "1 \<le> (1 + unit_err) ^ k"
  using unit_err_bounds by (simp_all add: power_le_one)

lemma near_refl [simp]: "near 0 x x"
  by (simp add: near_def)

lemma near_nonneg: "near k x y \<Longrightarrow> 0 \<le> x \<Longrightarrow> 0 \<le> y"
  using err_powers(1) [of k] unfolding near_def by (meson less_imp_le mult_nonneg_nonneg order_trans)

lemma near_mono:
  assumes "near j x y" "j \<le> k" "0 \<le> x"
  shows "near k x y"
proof -
  have "(1 - unit_err) ^ k \<le> (1 - unit_err) ^ j" "(1 + unit_err) ^ j \<le> (1 + unit_err) ^ k"
    using assms(2) unit_err_bounds by (simp_all add: power_decreasing power_increasing)
  with assms(3) have "x * (1 - unit_err) ^ k \<le> x * (1 - unit_err) ^ j" "x * (1 + unit_err) ^ j \<le> x * (1 + unit_err) ^ k"
    by (simp_all add: mult_left_mono)
  with assms(1) show ?thesis unfolding near_def by linarith
qed

lemma near_fl:
  assumes "near k x y" "0 \<le> x"
  shows "near (Suc k) x (fl y)"
proof -
  have y: "0 \<le> y" by (rule near_nonneg [OF assms])
  have "x * (1 - unit_err) ^ k * (1 - unit_err) \<le> y * (1 - unit_err)"
    "y * (1 + unit_err) \<le> x * (1 + unit_err) ^ k * (1 + unit_err)"
    using assms(1) unit_err_bounds by (auto simp: near_def intro!: mult_right_mono)
  then show ?thesis using fl_error [OF y] by (simp add: near_def mult.assoc mult.commute [of "1 - unit_err"] mult.commute [of "1 + unit_err"])
qed

lemma near_add:
  assumes "near k x a" "near k y b"
  shows "near k (x + y) (a + b)"
  using assms by (simp add: near_def distrib_right)

text \<open>Dividing by a rounded number costs two roundings for each.\<close>

lemma near_inverse:
  assumes "near k x y" "0 < x"
  shows "near (2 * k) (1 / x) (1 / y)"
proof -
  let ?d = "1 - unit_err" and ?u = "1 + unit_err"
  have y: "0 < y" using assms err_powers(1) [of k] unfolding near_def by (meson less_le_trans mult_pos_pos)
  have "1 \<le> ?u\<^sup>2 * ?d" "?d\<^sup>2 * ?u \<le> 1" by (simp_all add: unit_err_def power2_eq_square)
  then have "1 \<le> (?u\<^sup>2 * ?d) ^ k" "(?d\<^sup>2 * ?u) ^ k \<le> 1"
    using unit_err_bounds by (simp_all add: power_le_one)
  then have p: "1 \<le> ?u ^ (2 * k) * ?d ^ k" "?d ^ (2 * k) * ?u ^ k \<le> 1"
    by (simp_all add: power_mult_distrib power_mult)
  have "x \<le> ?u ^ (2 * k) * (x * ?d ^ k)" "?d ^ (2 * k) * (x * ?u ^ k) \<le> x"
    using mult_left_mono [OF p(1), of x] mult_left_mono [OF p(2), of x] assms(2) by (simp_all add: ac_simps)
  moreover have "?u ^ (2 * k) * (x * ?d ^ k) \<le> ?u ^ (2 * k) * y" "?d ^ (2 * k) * y \<le> ?d ^ (2 * k) * (x * ?u ^ k)"
    using assms(1) unit_err_bounds by (auto simp: near_def intro!: mult_left_mono)
  ultimately have "x \<le> ?u ^ (2 * k) * y" "?d ^ (2 * k) * y \<le> x" by linarith+
  then show ?thesis using y assms(2) by (simp add: near_def field_simps)
qed

lemma near_mult:
  assumes "near j x a" "near k y b" "0 \<le> x" "0 \<le> y"
  shows "near (j + k) (x * y) (a * b)"
proof -
  let ?d = "1 - unit_err" and ?u = "1 + unit_err"
  have "(x * ?d ^ j) * (y * ?d ^ k) \<le> a * b" "a * b \<le> (x * ?u ^ j) * (y * ?u ^ k)"
    using assms near_nonneg [OF assms(1,3)] near_nonneg [OF assms(2,4)] unit_err_bounds
    by (auto simp: near_def intro!: mult_mono mult_nonneg_nonneg)
  then show ?thesis by (simp add: near_def power_add ac_simps)
qed

lemma near_div: "near j x a \<Longrightarrow> near k y b \<Longrightarrow> 0 \<le> x \<Longrightarrow> 0 < y \<Longrightarrow> near (j + 2 * k) (x / y) (a / b)"
  using near_mult [of j x a "2 * k" "1 / y" "1 / b"] near_inverse [of k y b] by simp

text \<open>Adding up, from the left.\<close>

definition fsum :: "rat list \<Rightarrow> rat" where
  "fsum xs = foldl (\<lambda>a x. fl (a + x)) 0 xs"

lemma near_fsum:
  assumes "\<forall>x\<in>set xs. 0 \<le> x"
  shows "near (length xs) (sum_list xs) (fsum xs)"
proof -
  have "near (j + length xs) (y + sum_list xs) (foldl (\<lambda>a x. fl (a + x)) a xs)" if "near j y a" "0 \<le> y" for j y a
    using that assms
  proof (induction xs arbitrary: j y a)
    case (Cons x xs)
    have "near j x x" using Cons.prems(3) by (intro near_mono [OF near_refl]) simp_all
    with Cons.prems have "near (Suc j) (y + x) (fl (a + x))" by (intro near_fl near_add) simp_all
    with Cons.IH [OF this] Cons.prems show ?case by (simp add: add.assoc)
  qed simp
  from this [of 0 0 0] show ?thesis by (simp add: fsum_def)
qed

subsection \<open>Doubles\<close>

datatype double = Fin rat | Infinite | NaN

fun fdiv :: "double \<Rightarrow> double \<Rightarrow> double" where
  "fdiv (Fin a) (Fin b) = (if b = 0 then if a = 0 then NaN else Infinite else Fin (fl (a / b)))"
| "fdiv (Fin a) Infinite = Fin 0"
| "fdiv Infinite (Fin b) = Infinite"
| "fdiv Infinite Infinite = NaN"
| "fdiv NaN d = NaN"
| "fdiv d NaN = NaN"

text \<open>\<open>static_cast\<close> to \<open>uint64_t\<close>, whose behaviour is undefined out of range.\<close>

fun to_u64 :: "double \<Rightarrow> 64 word option" where
  "to_u64 (Fin v) = (if v < 2 ^ 64 then Some (of_int \<lfloor>v\<rfloor>) else None)"
| "to_u64 d = None"

text \<open>The value of a \<open>uint64_t\<close>, and its conversion.\<close>

definition val_of :: "64 word \<Rightarrow> rat" where
  "val_of w = of_nat (unat w)"

definition of_u64 :: "64 word \<Rightarrow> rat" where
  "of_u64 w = fl (val_of w)"

lemma val_of_nonneg [simp]: "0 \<le> val_of w"
  unfolding val_of_def by (rule of_nat_0_le_iff)

lemma val_of_pos [simp]: "0 < val_of w \<longleftrightarrow> w \<noteq> 0"
  unfolding val_of_def of_nat_0_less_iff by (rule unat_gt_0)

lemma val_of_zero [simp]: "val_of w = 0 \<longleftrightarrow> w = 0"
  using val_of_pos [of w] by (metis less_irrefl order_le_less val_of_nonneg)

lemma val_of_mono: "v \<le> w \<Longrightarrow> val_of v \<le> val_of w"
  unfolding val_of_def of_nat_le_iff by (simp add: word_le_nat_alt)

lemma of_u64_nonneg [simp]: "0 \<le> of_u64 w"
  by (simp add: of_u64_def)

lemma of_u64_pos [simp]: "0 < of_u64 w \<longleftrightarrow> w \<noteq> 0"
  by (simp add: of_u64_def)

lemma of_u64_zero [simp]: "of_u64 w = 0 \<longleftrightarrow> w = 0"
  using of_u64_pos [of w] by (metis less_irrefl order_le_less of_u64_nonneg)

lemma of_u64_mono: "v \<le> w \<Longrightarrow> of_u64 v \<le> of_u64 w"
  by (simp add: of_u64_def fl_mono val_of_mono)

lemma near_of_u64: "near 1 (val_of w) (of_u64 w)"
  using near_fl [OF near_refl [of "val_of w"]] by (simp add: of_u64_def)

end
