(* ===== verification/Bench_Client.thy ===== *)
theory Bench_Client imports
  Kernel
  Doubles
begin

text \<open>
  \<open>run_benchmark\<close> of \<open>src/echo_server/bench/bench_client.cpp\<close>: how connections are dealt out to the threads,
  and what one thread does with its connections. \<open>inet_pton\<close>, \<open>connect\<close> and the clock belong to the system and are
  arguments.
\<close>

subsection \<open>Dealing out the connections\<close>

text \<open>\<open>None\<close> is the division by zero when there are no threads.\<close>

definition thread_counts :: "u64 \<Rightarrow> u64 \<Rightarrow> u64 list option" where
  "thread_counts num_connections num_threads =
     (if num_threads = 0 then None
      else (let conns_per = num_connections div num_threads; extra = num_connections mod num_threads
            in Some (map (\<lambda>t. conns_per + (if of_nat t < extra then 1 else 0)) [0..<unat num_threads])))"

lemma sum_extra: "e \<le> n \<Longrightarrow> (\<Sum>t\<leftarrow>[0..<n]. q + (if t < e then 1 else 0)) = n * q + (e :: nat)"
proof (induction n arbitrary: e)
  case (Suc n)
  show ?case
  proof (cases "e \<le> n")
    case True
    with Suc show ?thesis by simp
  next
    case False
    with Suc.prems have "e = Suc n" by simp
    moreover have "(\<Sum>t\<leftarrow>[0..<n]. q + (if t < Suc n then 1 else 0)) = (\<Sum>t\<leftarrow>[0..<n]. q + (if t < n then 1 else 0))"
      by (intro arg_cong [where f = sum_list] map_cong) auto
    ultimately show ?thesis using Suc.IH [of n] by simp
  qed
qed simp

lemma unat_count:
  assumes "num_threads \<noteq> 0" "t < unat num_threads"
  shows "unat (num_connections div num_threads + (if of_nat t < num_connections mod num_threads then 1 else 0) :: u64) =
    unat num_connections div unat num_threads + (if t < unat num_connections mod unat num_threads then 1 else 0)"
proof -
  let ?c = "unat num_connections" and ?n = "unat num_threads"
  have t: "unat (of_nat t :: u64) = t"
    using assms(2) unsigned_less [of num_threads, where 'a = nat] by (simp add: unat_of_nat)
  have lt: "of_nat t < num_connections mod num_threads \<longleftrightarrow> t < ?c mod ?n"
    by (simp add: word_less_nat_alt t unat_mod_distrib)
  have "?c div ?n + (if t < ?c mod ?n then 1 else 0) \<le> ?c"
  proof (cases "t < ?c mod ?n")
    case True
    have "0 < ?n" using assms(1) by (simp add: unat_gt_0)
    then have "?c div ?n \<le> ?n * (?c div ?n)" by simp
    with True have "?c div ?n + 1 \<le> ?c" using mult_div_mod_eq [of ?n ?c] by linarith
    with True show ?thesis by simp
  next
    case False
    then show ?thesis by simp
  qed
  then have "?c div ?n + (if t < ?c mod ?n then 1 else 0) < 2 ^ 64"
    using unsigned_less [of num_connections, where 'a = nat] by simp
  then show ?thesis by (auto simp: lt unat_word_ariths unat_div_distrib)
qed

text \<open>
  With at least one thread, the connections are dealt out completely: as many counts as threads, adding up to the
  connections asked for, in 64 bits without overflow, and no two counts differ by more than one.
\<close>

lemma thread_counts_split:
  assumes "num_threads \<noteq> 0"
  shows "\<exists>cs. thread_counts num_connections num_threads = Some cs \<and> length cs = unat num_threads \<and>
    sum_list (map unat cs) = unat num_connections \<and> (\<forall>x\<in>set cs. \<forall>y\<in>set cs. unat x \<le> unat y + 1)"
proof -
  let ?c = "unat num_connections" and ?n = "unat num_threads"
  let ?f = "\<lambda>t. num_connections div num_threads + (if of_nat t < num_connections mod num_threads then 1 else 0) :: u64"
  have cs: "thread_counts num_connections num_threads = Some (map ?f [0..<?n])"
    using assms by (simp add: thread_counts_def)
  have eq: "map unat (map ?f [0..<?n]) = map (\<lambda>t. ?c div ?n + (if t < ?c mod ?n then 1 else 0)) [0..<?n]"
    using unat_count [OF assms] by simp
  have "?c mod ?n \<le> ?n" using assms by (simp add: unat_gt_0 less_imp_le)
  then have "sum_list (map unat (map ?f [0..<?n])) = ?c"
    unfolding eq by (subst sum_extra) simp_all
  moreover have "unat (?f t) \<le> unat (?f u) + 1" if "t < ?n" "u < ?n" for t u
    using that by (simp add: unat_count [OF assms])
  ultimately show ?thesis using cs by (intro exI [of _ "map ?f [0..<?n]"]) auto
qed

lemma thread_counts_sum: "thread_counts num_connections num_threads = Some cs \<Longrightarrow> sum_list (map unat cs) = unat num_connections"
  using thread_counts_split [of num_threads num_connections] by (cases "num_threads = 0") (auto simp: thread_counts_def)

subsection \<open>One thread\<close>

text \<open>The two transfer loops: the first stops at an error, the second also at end of stream.\<close>

partial_function (option) send_all :: "'k kernel \<Rightarrow> fd \<Rightarrow> byte list \<Rightarrow> nat \<Rightarrow> 'k \<Rightarrow> 'k option" where
  "send_all K c message out k =
     (if out < length message then
        (let (r, k') = sys_write K c (drop out message) k
         in case r of Inl e \<Rightarrow> Some k' | Inr n \<Rightarrow> send_all K c message (out + n) k')
      else Some k)"

partial_function (option) recv_all :: "'k kernel \<Rightarrow> fd \<Rightarrow> nat \<Rightarrow> nat \<Rightarrow> 'k \<Rightarrow> (nat \<times> 'k) option" where
  "recv_all K c want recvd k =
     (if recvd < want then
        (let (r, k') = sys_read K c (want - recvd) k
         in case r of
              Inl e \<Rightarrow> Some (recvd, k')
            | Inr d \<Rightarrow> if length d = 0 then Some (recvd, k') else recv_all K c want (recvd + length d) k')
      else Some (recvd, k))"

text \<open>
  A reading of \<open>steady_clock\<close> is a number of nanoseconds. The clock never goes back, so the difference of two readings is
  a natural number; \<open>duration<double, std::milli>\<close> makes it a \<open>double\<close> and divides by a million.
\<close>

type_synonym 'k clock = "'k \<Rightarrow> nat \<times> 'k"

definition millis :: "nat \<Rightarrow> rat" where
  "millis ns = fl (fl (of_nat ns) / 1000000)"

record 'k bench =
  latencies_ms :: "rat list"
  completed :: u64
  client_os :: 'k

abbreviation latencies :: "('k, 'x) bench_scheme \<Rightarrow> nat" where
  "latencies b \<equiv> length (latencies_ms b)"

definition one_request :: "'k kernel \<Rightarrow> 'k clock \<Rightarrow> fd \<Rightarrow> byte list \<Rightarrow> 'k bench \<Rightarrow> 'k bench option" where
  "one_request K now c message s =
     (let (t1, k0) = now (client_os s)
      in Option.bind (send_all K c message 0 k0) (\<lambda>k1.
         Option.bind (recv_all K c (length message) 0 k1) (\<lambda>(recvd, k2).
           let (t2, k3) = now k2
           in Some (s\<lparr>client_os := k3, completed := completed s + 1,
                 latencies_ms := (if recvd = length message then latencies_ms s @ [millis (t2 - t1)] else latencies_ms s)\<rparr>))))"

fun requests :: "'k kernel \<Rightarrow> 'k clock \<Rightarrow> fd \<Rightarrow> byte list \<Rightarrow> nat \<Rightarrow> 'k bench \<Rightarrow> 'k bench option" where
  "requests K now c message 0 s = Some s"
| "requests K now c message (Suc n) s = Option.bind (one_request K now c message s) (requests K now c message n)"

type_synonym 'k connector = "fd \<Rightarrow> 'k \<Rightarrow> unit sysret \<times> 'k"

definition one_connection :: "'k kernel \<Rightarrow> bool \<Rightarrow> 'k connector \<Rightarrow> 'k clock \<Rightarrow> byte list \<Rightarrow> nat \<Rightarrow> 'k bench \<Rightarrow> 'k bench option" where
  "one_connection K pton_ok conn now message requests_per_conn s =
     (case sys_socket K False (client_os s) of
        (Inl e, k1) \<Rightarrow> Some (s\<lparr>client_os := k1\<rparr>)
      | (Inr c, k1) \<Rightarrow>
          if \<not> pton_ok then Some (s\<lparr>client_os := sys_close K c k1\<rparr>)
          else (case conn c k1 of
                  (Inl e, k2) \<Rightarrow> Some (s\<lparr>client_os := sys_close K c k2\<rparr>)
                | (Inr _, k2) \<Rightarrow>
                    map_option (\<lambda>t. t\<lparr>client_os := sys_close K c (client_os t)\<rparr>)
                      (requests K now c message requests_per_conn (s\<lparr>client_os := k2\<rparr>))))"

fun thread_func :: "'k kernel \<Rightarrow> bool \<Rightarrow> 'k connector \<Rightarrow> 'k clock \<Rightarrow> byte list \<Rightarrow> nat \<Rightarrow> nat \<Rightarrow> 'k bench \<Rightarrow> 'k bench option" where
  "thread_func K pton_ok conn now message requests_per_conn 0 s = Some s"
| "thread_func K pton_ok conn now message requests_per_conn (Suc conns) s =
     Option.bind (one_connection K pton_ok conn now message requests_per_conn s)
       (thread_func K pton_ok conn now message requests_per_conn conns)"

lemma send_all_opened:
  "send_all K c message out k = Some k' \<Longrightarrow> kernel_contract K obs \<Longrightarrow> opened (obs k') = opened (obs k)"
proof (induction rule: send_all.raw_induct [rotated, consumes 1, case_names step])
  case (step f K c message out k k')
  then show ?case
    by (auto split: if_splits prod.splits sum.splits dest: contract_write_err contract_write_ok)
qed

text \<open>A request never reads more than the size of its message.\<close>

lemma recv_all_opened:
  "recv_all K c want recvd k = Some y \<Longrightarrow> kernel_contract K obs \<Longrightarrow> recvd \<le> want \<Longrightarrow>
     opened (obs (snd y)) = opened (obs k) \<and> fst y \<le> want"
proof (induction rule: recv_all.raw_induct [rotated, consumes 1, case_names step])
  case (step f K c want recvd k y)
  obtain r k1 where r: "sys_read K c (want - recvd) k = (r, k1)" by fastforce
  show ?case
  proof (cases r)
    case (Inl e)
    with step r show ?thesis by (auto split: if_splits dest: contract_read_err)
  next
    case (Inr d)
    then have d: "length d \<le> want - recvd" "opened (obs k1) = opened (obs k)"
      using contract_read_ok [OF step.prems(1)] r by auto
    show ?thesis
    proof (cases "recvd < want \<and> length d \<noteq> 0")
      case True
      with step.hyps r Inr have "f K c want (recvd + length d) k1 = Some y" by simp
      moreover have "recvd + length d \<le> want" using d True by linarith
      ultimately show ?thesis using step.IH step.prems(1) d by blast
    next
      case False
      with step r Inr d show ?thesis by (auto split: if_splits)
    qed
  qed
qed

definition clock_law :: "'k clock \<Rightarrow> ('k \<Rightarrow> netobs) \<Rightarrow> bool" where
  "clock_law now obs \<longleftrightarrow> (\<forall>k. obs (snd (now k)) = obs k)"

lemma clock_obs: "clock_law now obs \<Longrightarrow> now k = (t, k') \<Longrightarrow> obs k' = obs k"
  unfolding clock_law_def by (metis snd_conv)

text \<open>What one request is made of.\<close>

lemma one_request_parts:
  assumes "one_request K now c message s = Some s'"
  obtains t1 k0 k1 recvd k2 t2 k3 where "now (client_os s) = (t1, k0)" "send_all K c message 0 k0 = Some k1"
    "recv_all K c (length message) 0 k1 = Some (recvd, k2)" "now k2 = (t2, k3)"
    "s' = s\<lparr>client_os := k3, completed := completed s + 1,
       latencies_ms := (if recvd = length message then latencies_ms s @ [millis (t2 - t1)] else latencies_ms s)\<rparr>"
proof -
  obtain t1 k0 where k0: "now (client_os s) = (t1, k0)" by fastforce
  with assms obtain k1 recvd k2 where k: "send_all K c message 0 k0 = Some k1"
    "recv_all K c (length message) 0 k1 = Some (recvd, k2)"
    by (auto simp: one_request_def bind_eq_Some_conv)
  obtain t2 k3 where "now k2 = (t2, k3)" by fastforce
  with assms k0 k that show ?thesis by (simp add: one_request_def)
qed

lemma one_request_effect:
  assumes "one_request K now c message s = Some s'" "kernel_contract K obs" "clock_law now obs"
  shows "opened (obs (client_os s')) = opened (obs (client_os s)) \<and> completed s' = completed s + 1 \<and>
    latencies s \<le> latencies s' \<and> latencies s' \<le> latencies s + 1"
proof -
  from assms(1) obtain t1 k0 k1 recvd k2 t2 k3 where k: "now (client_os s) = (t1, k0)" "send_all K c message 0 k0 = Some k1"
    "recv_all K c (length message) 0 k1 = Some (recvd, k2)" "now k2 = (t2, k3)"
    and s': "s' = s\<lparr>client_os := k3, completed := completed s + 1,
       latencies_ms := (if recvd = length message then latencies_ms s @ [millis (t2 - t1)] else latencies_ms s)\<rparr>"
    by (rule one_request_parts)
  with send_all_opened [OF k(2) assms(2)] recv_all_opened [OF k(3) assms(2)] clock_obs [OF assms(3)] show ?thesis
    by simp
qed

lemma requests_effect:
  assumes c: "kernel_contract K obs" "clock_law now obs"
  shows "requests K now c message n s = Some s' \<Longrightarrow>
    opened (obs (client_os s')) = opened (obs (client_os s)) \<and> completed s' = completed s + of_nat n \<and>
    latencies s \<le> latencies s' \<and> latencies s' \<le> latencies s + n"
proof (induction n arbitrary: s)
  case (Suc n)
  then obtain t where "one_request K now c message s = Some t" "requests K now c message n t = Some s'"
    by (auto simp: bind_eq_Some_conv)
  with Suc.IH [of t] one_request_effect [OF _ c(1,2)] show ?case by fastforce
qed simp

definition connector_law :: "'k connector \<Rightarrow> ('k \<Rightarrow> netobs) \<Rightarrow> bool" where
  "connector_law conn obs \<longleftrightarrow> (\<forall>c k. obs (snd (conn c k)) = obs k)"

text \<open>What a thread leaves behind after some of its connections were established.\<close>

definition thread_effect :: "('k \<Rightarrow> netobs) \<Rightarrow> nat \<Rightarrow> nat \<Rightarrow> 'k bench \<Rightarrow> 'k bench \<Rightarrow> bool" where
  "thread_effect obs r conns s s' \<longleftrightarrow> opened (obs (client_os s')) = opened (obs (client_os s)) \<and>
     (\<exists>m\<le>conns. completed s' = completed s + of_nat (m * r) \<and> latencies s \<le> latencies s' \<and>
        latencies s' \<le> latencies s + m * r)"

lemma one_connection_effect:
  assumes c: "kernel_contract K obs" and l: "connector_law conn obs" "clock_law now obs"
    and step: "one_connection K ok conn now message r s = Some s'"
  shows "thread_effect obs r 1 s s'"
proof (cases "sys_socket K False (client_os s)")
  case (Pair x k1)
  show ?thesis
  proof (cases x)
    case (Inl e)
    with Pair step contract_socket_err [OF c] show ?thesis
      by (auto simp: one_connection_def thread_effect_def)
  next
    case (Inr d)
    note new = contract_socket_ok [OF c Pair [unfolded Inr]]
    obtain y k2 where y: "conn d k1 = (y, k2)" by fastforce
    with l(1) have k2: "obs k2 = obs k1" unfolding connector_law_def by (metis snd_conv)
    show ?thesis
    proof (cases "ok \<and> (\<exists>u. y = Inr u)")
      case False
      with Pair Inr new y k2 step show ?thesis
        by (cases y) (auto simp: one_connection_def thread_effect_def contract_close [OF c] split: if_splits)
    next
      case True
      with Pair Inr y step obtain t where t: "requests K now d message r (s\<lparr>client_os := k2\<rparr>) = Some t"
        and s': "s' = t\<lparr>client_os := sys_close K d (client_os t)\<rparr>"
        by (auto simp: one_connection_def)
      from requests_effect [OF c l(2) t] new k2 show ?thesis
        by (auto simp: thread_effect_def s' contract_close [OF c] intro!: exI [of _ 1])
    qed
  qed
qed

text \<open>
  A client thread gives back every descriptor it opens, whichever of its calls fail. It counts all requests
  of the connections it could establish as completed, and records at most as many latencies: a request whose
  echo did not arrive is counted too.
\<close>

lemma client_thread_accounts:
  assumes "kernel_contract K obs" "connector_law conn obs" "clock_law now obs"
    "thread_func K ok conn now message requests_per_conn conns s = Some s'"
  shows "thread_effect obs requests_per_conn conns s s'"
  using assms(4)
proof (induction conns arbitrary: s)
  case 0
  then show ?case by (simp add: thread_effect_def)
next
  case (Suc conns)
  then obtain t where t: "one_connection K ok conn now message requests_per_conn s = Some t"
    "thread_func K ok conn now message requests_per_conn conns t = Some s'" by (auto simp: bind_eq_Some_conv)
  note one = one_connection_effect [OF assms(1,2,3) t(1)]
  from one obtain m where m: "m \<le> 1" "completed t = completed s + of_nat (m * requests_per_conn)"
    "latencies s \<le> latencies t" "latencies t \<le> latencies s + m * requests_per_conn" by (auto simp: thread_effect_def)
  from Suc.IH [OF t(2)] obtain j where j: "j \<le> conns" "completed s' = completed t + of_nat (j * requests_per_conn)"
    "latencies t \<le> latencies s'" "latencies s' \<le> latencies t + j * requests_per_conn" by (auto simp: thread_effect_def)
  have "opened (obs (client_os s')) = opened (obs (client_os s))"
    using one Suc.IH [OF t(2)] by (simp add: thread_effect_def)
  moreover have "completed s' = completed s + of_nat ((m + j) * requests_per_conn)"
    using m j by (simp add: algebra_simps)
  moreover have "latencies s' \<le> latencies s + (m + j) * requests_per_conn"
    using m j by (simp add: algebra_simps)
  ultimately show ?case using m j unfolding thread_effect_def by (intro conjI exI [of _ "m + j"]) auto
qed

text \<open>A clock that stands still.\<close>

lemma still_clock: "clock_law (\<lambda>k. (n, k)) obs"
  by (simp add: clock_law_def)

lemma client_thread_accounts_witness:
  "\<exists>s. thread_func sim_kernel True (\<lambda>c k. (Inr (), k)) (\<lambda>k. (0, k)) [97, 97] 2 1
      \<lparr>latencies_ms = [], completed = 0, client_os = (sim_new [5])\<lparr>chunks := (\<lambda>_. [])(5 := [[97], [97], [97]])\<rparr>\<rparr> = Some s \<and>
     completed s = 2 \<and> latencies s = 1 \<and> opened (simnet (client_os s)) = {}"
proof -
  let ?s = "\<lparr>latencies_ms = [], completed = 0, client_os = (sim_new [5])\<lparr>chunks := (\<lambda>_. [])(5 := [[97], [97], [97]])\<rparr>\<rparr>"
  have "connector_law (\<lambda>c k. (Inr (), k)) simnet" by (simp add: connector_law_def)
  moreover obtain s where s: "thread_func sim_kernel True (\<lambda>c k. (Inr (), k)) (\<lambda>k. (0, k)) [97, 97] 2 1 ?s = Some s"
    by (simp add: one_connection_def one_request_def numeral_2_eq_2 send_all.simps recv_all.simps sim_defs)
  ultimately have "thread_effect simnet 2 1 ?s s" by (rule client_thread_accounts [OF sim_contract _ still_clock])
  then have "opened (simnet (client_os s)) = {}" by (simp add: thread_effect_def sim_new_def)
  moreover have "completed s = 2 \<and> latencies s = 1"
    using s by (auto simp: one_connection_def one_request_def numeral_2_eq_2 send_all.simps recv_all.simps sim_defs)
  ultimately show ?thesis using s by blast
qed

end
