(* ===== verification/Bench_Run.thy ===== *)
theory Bench_Run imports
  Bench_Client
  Draining
begin

text \<open>
  \<open>run_benchmark\<close> of \<open>src/echo_server/bench/bench_client.cpp\<close> with all its threads: the main thread starts them, raises
  \<open>start_flag\<close> and joins them; each takes one system call, or one access to the shared counters, per step, and
  they interleave in any way.
\<close>

subsection \<open>One thread, step by step\<close>

text \<open>
  Where a thread is. \<open>n\<close> is the number of connections after the current one, \<open>q\<close> the number of requests after the
  current one, and the last number of \<open>CSend\<close> and \<open>CRecv\<close> is \<open>sent\<close> or \<open>recvd\<close>.
\<close>

datatype client_pc =
    CYield nat
  | CNext nat
  | CConnect fd nat
  | CReq fd nat nat
  | CSend fd nat nat nat nat
  | CRecv fd nat nat nat nat
  | CStop fd nat nat nat nat
  | CPush fd nat nat nat
  | CCount fd nat nat
  | CClose fd nat
  | CExit

fun client_turn :: "'k kernel \<Rightarrow> bool \<Rightarrow> 'k connector \<Rightarrow> 'k clock \<Rightarrow> byte list \<Rightarrow> nat \<Rightarrow> bool \<Rightarrow> client_pc \<Rightarrow> 'k bench \<Rightarrow>
    (client_pc \<times> 'k bench) option" where
  "client_turn K pton_ok conn now message r start_flag (CYield n) b = (if start_flag then Some (CNext n, b) else None)"
| "client_turn K pton_ok conn now message r start_flag (CNext 0) b = Some (CExit, b)"
| "client_turn K pton_ok conn now message r start_flag (CNext (Suc n)) b =
     (case sys_socket K False (client_os b) of
        (Inl e, k) \<Rightarrow> Some (CNext n, b\<lparr>client_os := k\<rparr>)
      | (Inr c, k) \<Rightarrow> Some (CConnect c n, b\<lparr>client_os := k\<rparr>))"
| "client_turn K pton_ok conn now message r start_flag (CConnect c n) b =
     (if \<not> pton_ok then Some (CClose c n, b)
      else (case conn c (client_os b) of
              (Inl e, k) \<Rightarrow> Some (CClose c n, b\<lparr>client_os := k\<rparr>)
            | (Inr _, k) \<Rightarrow> Some (CReq c n r, b\<lparr>client_os := k\<rparr>)))"
| "client_turn K pton_ok conn now message r start_flag (CReq c n 0) b = Some (CClose c n, b)"
| "client_turn K pton_ok conn now message r start_flag (CReq c n (Suc q)) b =
     (let (t1, k) = now (client_os b) in Some (CSend c n q t1 0, b\<lparr>client_os := k\<rparr>))"
| "client_turn K pton_ok conn now message r start_flag (CSend c n q t1 out) b =
     (if out < length message then
        (case sys_write K c (drop out message) (client_os b) of
           (Inl e, k) \<Rightarrow> Some (CRecv c n q t1 0, b\<lparr>client_os := k\<rparr>)
         | (Inr w, k) \<Rightarrow> Some (CSend c n q t1 (out + w), b\<lparr>client_os := k\<rparr>))
      else Some (CRecv c n q t1 0, b))"
| "client_turn K pton_ok conn now message r start_flag (CRecv c n q t1 recvd) b =
     (if recvd < length message then
        (case sys_read K c (length message - recvd) (client_os b) of
           (Inl e, k) \<Rightarrow> Some (CStop c n q t1 recvd, b\<lparr>client_os := k\<rparr>)
         | (Inr d, k) \<Rightarrow>
             Some (if length d = 0 then CStop c n q t1 recvd else CRecv c n q t1 (recvd + length d), b\<lparr>client_os := k\<rparr>))
      else Some (CStop c n q t1 recvd, b))"
| "client_turn K pton_ok conn now message r start_flag (CStop c n q t1 recvd) b =
     (let (t2, k) = now (client_os b)
      in Some (if recvd = length message then CPush c n q (t2 - t1) else CCount c n q, b\<lparr>client_os := k\<rparr>))"
| "client_turn K pton_ok conn now message r start_flag (CPush c n q dt) b =
     Some (CCount c n q, b\<lparr>latencies_ms := latencies_ms b @ [millis dt]\<rparr>)"
| "client_turn K pton_ok conn now message r start_flag (CCount c n q) b = Some (CReq c n q, b\<lparr>completed := completed b + 1\<rparr>)"
| "client_turn K pton_ok conn now message r start_flag (CClose c n) b =
     Some (CNext n, b\<lparr>client_os := sys_close K c (client_os b)\<rparr>)"
| "client_turn K pton_ok conn now message r start_flag CExit b = None"

subsection \<open>All threads\<close>

text \<open>
  The main thread: it reads the clock, starts the threads of the counts that are left, joins them in order and reads the
  clock again; then it reports.
\<close>

datatype main_pc = MStart "u64 list" | MSpawn "u64 list" | MJoin nat | MStop | MReport

record 'k clients =
  started :: bool
  main_at :: main_pc
  places :: "client_pc list"
  start_time :: nat
  end_time :: nat
  shared :: "'k bench"

definition clients_new :: "u64 \<Rightarrow> u64 \<Rightarrow> 'k \<Rightarrow> 'k clients option" where
  "clients_new num_connections num_threads k =
     map_option (\<lambda>cs. \<lparr>started = False, main_at = MStart cs, places = [], start_time = 0, end_time = 0,
       shared = \<lparr>latencies_ms = [], completed = 0, client_os = k\<rparr>\<rparr>) (thread_counts num_connections num_threads)"

definition main_turn :: "'k clock \<Rightarrow> 'k clients \<Rightarrow> 'k clients option" where
  "main_turn now s =
     (case main_at s of
        MStart cs \<Rightarrow>
          (let (t, k) = now (client_os (shared s))
           in Some (s\<lparr>start_time := t, shared := (shared s)\<lparr>client_os := k\<rparr>, main_at := MSpawn cs\<rparr>))
      | MSpawn (c # cs) \<Rightarrow> Some (s\<lparr>places := places s @ [CYield (unat c)], main_at := MSpawn cs\<rparr>)
      | MSpawn [] \<Rightarrow> Some (s\<lparr>started := True, main_at := MJoin 0\<rparr>)
      | MJoin i \<Rightarrow>
          if i < length (places s) then
            if places s ! i = CExit then Some (s\<lparr>main_at := MJoin (Suc i)\<rparr>) else None
          else Some (s\<lparr>main_at := MStop\<rparr>)
      | MStop \<Rightarrow>
          (let (t, k) = now (client_os (shared s))
           in Some (s\<lparr>end_time := t, shared := (shared s)\<lparr>client_os := k\<rparr>, main_at := MReport\<rparr>))
      | MReport \<Rightarrow> None)"

datatype client_act = Main_Thread | Client_Thread nat

definition client_step :: "'k kernel \<Rightarrow> bool \<Rightarrow> 'k connector \<Rightarrow> 'k clock \<Rightarrow> byte list \<Rightarrow> nat \<Rightarrow> client_act \<Rightarrow> 'k clients \<Rightarrow> 'k clients option" where
  "client_step K pton_ok conn now message r a s =
     (case a of
        Main_Thread \<Rightarrow> main_turn now s
      | Client_Thread i \<Rightarrow>
          if i < length (places s) then
            map_option (\<lambda>(pc, b). s\<lparr>places := (places s)[i := pc], shared := b\<rparr>)
              (client_turn K pton_ok conn now message r (started s) (places s ! i) (shared s))
          else None)"

subsection \<open>The accounts of a thread\<close>

fun held :: "client_pc \<Rightarrow> fd list" where
  "held (CYield n) = []" | "held (CNext n) = []" | "held CExit = []"
| "held (CConnect c n) = [c]" | "held (CReq c n q) = [c]" | "held (CSend c n q t1 out) = [c]"
| "held (CRecv c n q t1 recvd) = [c]" | "held (CStop c n q t1 recvd) = [c]" | "held (CPush c n q dt) = [c]" | "held (CCount c n q) = [c]" | "held (CClose c n) = [c]"

text \<open>The connections that are not established yet, the requests to be counted, and those that may still be recorded.\<close>

fun unconnected :: "client_pc \<Rightarrow> nat" where
  "unconnected (CYield n) = n" | "unconnected (CNext n) = n" | "unconnected CExit = 0"
| "unconnected (CConnect c n) = Suc n" | "unconnected (CReq c n q) = n" | "unconnected (CSend c n q t1 out) = n"
| "unconnected (CRecv c n q t1 recvd) = n" | "unconnected (CStop c n q t1 recvd) = n" | "unconnected (CPush c n q dt) = n" | "unconnected (CCount c n q) = n"
| "unconnected (CClose c n) = n"

fun uncounted :: "client_pc \<Rightarrow> nat" where
  "uncounted (CReq c n q) = q" | "uncounted (CSend c n q t1 out) = Suc q" | "uncounted (CRecv c n q t1 recvd) = Suc q"
| "uncounted (CStop c n q t1 recvd) = Suc q" | "uncounted (CPush c n q dt) = Suc q" | "uncounted (CCount c n q) = Suc q" | "uncounted _ = 0"

fun unrecorded :: "client_pc \<Rightarrow> nat" where
  "unrecorded (CCount c n q) = q" | "unrecorded pc = uncounted pc"

text \<open>What one step of a thread does to its accounts; \<open>m\<close> is 1 when it establishes a connection.\<close>

definition turn_effect :: "('k \<Rightarrow> netobs) \<Rightarrow> nat \<Rightarrow> nat \<Rightarrow> client_pc \<Rightarrow> 'k bench \<Rightarrow> client_pc \<Rightarrow> 'k bench \<Rightarrow> bool" where
  "turn_effect obs r m pc b pc' b' \<longleftrightarrow>
     unconnected pc' + m \<le> unconnected pc \<and>
     completed b' + of_nat (uncounted pc') = completed b + of_nat (uncounted pc) + of_nat (m * r) \<and>
     latencies b' + unrecorded pc' \<le> latencies b + unrecorded pc + m * r \<and>
     (held pc' = held pc \<and> opened (obs (client_os b')) = opened (obs (client_os b)) \<or>
      (\<exists>c. held pc = [] \<and> held pc' = [c] \<and> c \<notin> opened (obs (client_os b)) \<and>
         opened (obs (client_os b')) = insert c (opened (obs (client_os b)))) \<or>
      (\<exists>c. held pc = [c] \<and> held pc' = [] \<and> opened (obs (client_os b')) = opened (obs (client_os b)) - {c}))"

lemma client_turn_effect:
  assumes c: "kernel_contract K obs" and l: "connector_law conn obs" "clock_law now obs"
    and step: "client_turn K pton_ok conn now message r go pc b = Some (pc', b')"
  shows "\<exists>m. turn_effect obs r m pc b pc' b'"
proof (cases "\<exists>d n. pc = CConnect d n")
  case True
  then obtain d n where pc: "pc = CConnect d n" by blast
  obtain x k where x: "conn d (client_os b) = (x, k)" by fastforce
  with l(1) have "obs k = obs (client_os b)" unfolding connector_law_def by (metis snd_conv)
  with step pc x show ?thesis
    by (intro exI [of _ "if pton_ok \<and> (\<exists>u. x = Inr u) then 1 else 0"])
      (auto simp: turn_effect_def split: if_splits sum.splits)
next
  case False
  with step have "turn_effect obs r 0 pc b pc' b'"
    by (cases "(K, pton_ok, conn, now, message, r, go, pc, b)" rule: client_turn.cases)
      (auto simp: turn_effect_def contract_close [OF c] split: if_splits prod.splits sum.splits
        dest: contract_socket_ok [OF c] contract_socket_err [OF c] contract_read_ok [OF c] contract_read_err [OF c]
          contract_write_ok [OF c] contract_write_err [OF c] clock_obs [OF l(2)])
  then show ?thesis by blast
qed

subsection \<open>The accounts of all threads\<close>

text \<open>Connections of threads that the main thread has not started yet.\<close>

definition to_start :: "main_pc \<Rightarrow> nat" where
  "to_start p = (case p of MStart cs \<Rightarrow> sum_list (map unat cs) | MSpawn cs \<Rightarrow> sum_list (map unat cs) | _ \<Rightarrow> 0)"

text \<open>\<open>m\<close> is the number of connections established so far, \<open>before\<close> the descriptors of the process at the start.\<close>

definition counts_ok :: "nat \<Rightarrow> nat \<Rightarrow> nat \<Rightarrow> 'k clients \<Rightarrow> bool" where
  "counts_ok r n m s \<longleftrightarrow> m + sum_list (map unconnected (places s)) + to_start (main_at s) \<le> n \<and>
     completed (shared s) + of_nat (sum_list (map uncounted (places s))) = of_nat (m * r) \<and>
     latencies (shared s) + sum_list (map unrecorded (places s)) \<le> m * r"

definition all_held :: "client_pc list \<Rightarrow> fd list" where
  "all_held ps = concat (map held ps)"

lemma all_held_start [simp]: "all_held (ps @ [CYield q]) = all_held ps"
  by (simp add: all_held_def)

lemma uncounted_exit: "sum_list (map uncounted (replicate n CExit)) = 0"
  by (induction n) simp_all

lemma all_held_exit: "all_held (replicate n CExit) = []"
  by (induction n) (simp_all add: all_held_def)

definition held_ok :: "('k \<Rightarrow> netobs) \<Rightarrow> fd set \<Rightarrow> 'k clients \<Rightarrow> bool" where
  "held_ok obs before s \<longleftrightarrow> opened (obs (client_os (shared s))) = before \<union> set (all_held (places s)) \<and>
     before \<inter> set (all_held (places s)) = {} \<and> distinct (all_held (places s))"

definition accounts :: "('k \<Rightarrow> netobs) \<Rightarrow> nat \<Rightarrow> nat \<Rightarrow> fd set \<Rightarrow> 'k clients \<Rightarrow> bool" where
  "accounts obs r n before s \<longleftrightarrow> (\<exists>m. counts_ok r n m s) \<and> held_ok obs before s"

lemma balance:
  fixes a :: "'a :: ab_group_add"
  assumes "u' + p = u + p'" "a' + p' = a + p + d" "a + u = x"
  shows "a' + u' = x + d"
proof -
  have u: "u' = u + p' - p" and a: "a' = a + p + d - p'" using assms(1,2) by (simp_all add: eq_diff_eq)
  show ?thesis unfolding u a assms(3) [symmetric] by simp
qed

lemma thread_counts_ok:
  assumes "counts_ok r n m s" "i < length (places s)" "turn_effect obs r d (places s ! i) (shared s) pc b"
  shows "counts_ok r n (m + d) (s\<lparr>places := (places s)[i := pc], shared := b\<rparr>)"
proof -
  have u: "sum_list (map f ((places s)[i := pc])) + f (places s ! i) = sum_list (map f (places s)) + (f pc :: nat)" for f
    by (rule sum_update [OF assms(2)])
  have le: "f (places s ! i) \<le> sum_list (map f (places s))" for f :: "client_pc \<Rightarrow> nat"
    using elem_le_sum_list [of i "map f (places s)"] assms(2) by simp
  have "of_nat (sum_list (map uncounted ((places s)[i := pc]))) + of_nat (uncounted (places s ! i)) =
      (of_nat (sum_list (map uncounted (places s))) + of_nat (uncounted pc) :: u64)"
    using u [of uncounted] by (metis of_nat_add)
  moreover have "completed b + of_nat (uncounted pc) = completed (shared s) + of_nat (uncounted (places s ! i)) + of_nat (d * r)"
    using assms(3) by (simp add: turn_effect_def)
  moreover have "completed (shared s) + of_nat (sum_list (map uncounted (places s))) = of_nat (m * r)"
    using assms(1) by (simp add: counts_ok_def)
  ultimately have "completed b + of_nat (sum_list (map uncounted ((places s)[i := pc]))) = of_nat (m * r) + of_nat (d * r)"
    by (rule balance)
  then have "completed b + of_nat (sum_list (map uncounted ((places s)[i := pc]))) = of_nat ((m + d) * r)"
    by (simp add: distrib_right)
  moreover have "m + d + sum_list (map unconnected ((places s)[i := pc])) + to_start (main_at s) \<le> n"
    using assms(1,3) u [of unconnected] le [of unconnected] by (simp add: counts_ok_def turn_effect_def)
  moreover have "latencies b + sum_list (map unrecorded ((places s)[i := pc])) \<le> (m + d) * r"
    using assms(1,3) u [of unrecorded] le [of unrecorded] by (simp add: counts_ok_def turn_effect_def algebra_simps)
  ultimately show ?thesis by (simp add: counts_ok_def)
qed

lemma held_same:
  "mset xs = mset ys \<Longrightarrow> set xs = set ys \<and> distinct xs = distinct ys"
  using mset_eq_setD mset_eq_imp_distinct_iff by blast

lemma thread_held_ok:
  assumes h: "held_ok obs before s" and i: "i < length (places s)" and t: "turn_effect obs r d (places s ! i) (shared s) pc b"
  shows "held_ok obs before (s\<lparr>places := (places s)[i := pc], shared := b\<rparr>)"
proof -
  let ?h = "all_held (places s)" and ?h' = "all_held ((places s)[i := pc])"
  have m: "mset ?h' + mset (held (places s ! i)) = mset ?h + mset (held pc)"
    unfolding all_held_def by (rule concat_update [OF i])
  from t consider
      "held pc = held (places s ! i)" "opened (obs (client_os b)) = opened (obs (client_os (shared s)))"
    | c where "held (places s ! i) = []" "held pc = [c]" "c \<notin> opened (obs (client_os (shared s)))"
        "opened (obs (client_os b)) = insert c (opened (obs (client_os (shared s))))"
    | c where "held (places s ! i) = [c]" "held pc = []" "opened (obs (client_os b)) = opened (obs (client_os (shared s))) - {c}"
    unfolding turn_effect_def by blast
  then show ?thesis
  proof cases
    case 1
    with m have "mset ?h' = mset ?h" by simp
    with 1 h held_same [of ?h' ?h] show ?thesis by (simp add: held_ok_def)
  next
    case 2
    with m have "mset ?h' = mset (c # ?h)" by simp
    with 2 h held_same [of ?h' "c # ?h"] show ?thesis by (simp add: held_ok_def)
  next
    case 3
    with m have "mset ?h = mset (c # ?h')" by simp
    with 3 h held_same [of ?h "c # ?h'"] show ?thesis by (auto simp: held_ok_def)
  qed
qed

lemma main_turn_cases:
  assumes "main_turn now s = Some s'" "clock_law now obs"
  shows "latencies_ms (shared s') = latencies_ms (shared s) \<and> completed (shared s') = completed (shared s) \<and>
    obs (client_os (shared s')) = obs (client_os (shared s)) \<and>
    ((\<exists>c cs. main_at s = MSpawn (c # cs) \<and> main_at s' = MSpawn cs \<and> places s' = places s @ [CYield (unat c)]) \<or>
     to_start (main_at s) = to_start (main_at s') \<and> places s' = places s)"
  using assms(1) by (auto simp: main_turn_def to_start_def split: main_pc.splits list.splits if_splits prod.splits
      dest: clock_obs [OF assms(2)])

lemma accounts_step:
  assumes c: "kernel_contract K obs" "connector_law conn obs" "clock_law now obs" and acc: "accounts obs r n before s"
    and step: "client_step K pton_ok conn now message r a s = Some s'"
  shows "accounts obs r n before s'"
proof (cases a)
  case Main_Thread
  with step have "main_turn now s = Some s'" by (simp add: client_step_def)
  moreover obtain m where "counts_ok r n m s" using acc by (auto simp: accounts_def)
  ultimately have "counts_ok r n m s'" "held_ok obs before s'"
    using main_turn_cases [OF _ c(3), of s s'] acc by (auto simp: accounts_def counts_ok_def to_start_def held_ok_def)
  then show ?thesis by (auto simp: accounts_def)
next
  case (Client_Thread i)
  with step obtain pc b where i: "i < length (places s)"
    and t: "client_turn K pton_ok conn now message r (started s) (places s ! i) (shared s) = Some (pc, b)"
    and s': "s' = s\<lparr>places := (places s)[i := pc], shared := b\<rparr>"
    by (auto simp: client_step_def split: if_splits)
  obtain d where d: "turn_effect obs r d (places s ! i) (shared s) pc b" using client_turn_effect [OF c t] by blast
  obtain m where "counts_ok r n m s" using acc by (auto simp: accounts_def)
  with thread_counts_ok [OF _ i d] thread_held_ok [OF _ i d] acc s' show ?thesis by (auto simp: accounts_def)
qed

subsection \<open>The run ends\<close>

text \<open>A write to a blocking socket sends something, or fails.\<close>

definition writes_move :: "'k kernel \<Rightarrow> bool" where
  "writes_move K \<longleftrightarrow> (\<forall>fd bs k. bs \<noteq> [] \<longrightarrow> fst (sys_write K fd bs k) \<noteq> Inr 0)"

text \<open>How many steps a thread can still take, with messages of \<open>l\<close> bytes and \<open>r\<close> requests per connection.\<close>

fun conns_load :: "nat \<Rightarrow> nat \<Rightarrow> nat \<Rightarrow> nat" where
  "conns_load l r n = 1 + n * (r * (2 * l + 6) + 4)"

fun place_load :: "nat \<Rightarrow> nat \<Rightarrow> client_pc \<Rightarrow> nat" where
  "place_load l r (CYield n) = conns_load l r n + 1"
| "place_load l r (CNext n) = conns_load l r n"
| "place_load l r (CConnect c n) = conns_load l r n + r * (2 * l + 6) + 3"
| "place_load l r (CReq c n q) = conns_load l r n + q * (2 * l + 6) + 2"
| "place_load l r (CSend c n q t1 out) = conns_load l r n + q * (2 * l + 6) + 2 + (5 + l + (l - out))"
| "place_load l r (CRecv c n q t1 recvd) = conns_load l r n + q * (2 * l + 6) + 2 + (4 + (l - recvd))"
| "place_load l r (CStop c n q t1 recvd) = conns_load l r n + q * (2 * l + 6) + 2 + 3"
| "place_load l r (CPush c n q dt) = conns_load l r n + q * (2 * l + 6) + 2 + 2"
| "place_load l r (CCount c n q) = conns_load l r n + q * (2 * l + 6) + 2 + 1"
| "place_load l r (CClose c n) = conns_load l r n + 1"
| "place_load l r CExit = 0"

definition main_load :: "nat \<Rightarrow> nat \<Rightarrow> nat \<Rightarrow> main_pc \<Rightarrow> nat" where
  "main_load l r n p =
     (case p of
        MStart cs \<Rightarrow> sum_list (map (\<lambda>c. place_load l r (CYield (unat c)) + 2) cs) + n + 5
      | MSpawn cs \<Rightarrow> sum_list (map (\<lambda>c. place_load l r (CYield (unat c)) + 2) cs) + n + 4
      | MJoin i \<Rightarrow> n - i + 2
      | MStop \<Rightarrow> 1
      | MReport \<Rightarrow> 0)"

definition client_load :: "nat \<Rightarrow> nat \<Rightarrow> 'k clients \<Rightarrow> nat" where
  "client_load l r s = sum_list (map (place_load l r) (places s)) + main_load l r (length (places s)) (main_at s)"

lemma client_turn_lowers:
  assumes w: "writes_move K" and step: "client_turn K pton_ok conn now message r go pc b = Some (pc', b')"
  shows "place_load (length message) r pc' < place_load (length message) r pc"
proof (cases "(\<exists>c n q t1 out. pc = CSend c n q t1 out \<and> out < length message) \<or> (\<exists>c n q t1 recvd. pc = CRecv c n q t1 recvd)")
  case True
  then consider c n q t1 out where "pc = CSend c n q t1 out" "out < length message"
    | c n q t1 recvd where "pc = CRecv c n q t1 recvd" by blast
  then show ?thesis
  proof cases
    case 1
    obtain x k where x: "sys_write K c (drop out message) (client_os b) = (x, k)" by fastforce
    have "fst (sys_write K c (drop out message) (client_os b)) \<noteq> Inr 0" using w 1 by (simp add: writes_move_def)
    with x 1 step show ?thesis by (auto split: sum.splits)
  next
    case 2
    have "length message - (recvd + length d) < length message - recvd" if "d \<noteq> []" "recvd < length message" for d :: "byte list"
      using that by (cases d) simp_all
    with 2 step show ?thesis by (fastforce split: if_splits prod.splits sum.splits)
  qed
next
  case False
  with step show ?thesis
    by (cases "(K, pton_ok, conn, now, message, r, go, pc, b)" rule: client_turn.cases)
      (auto split: if_splits prod.splits sum.splits)
qed

text \<open>A thread that has been let go moves until it is at its end.\<close>

lemma client_turn_moves: "pc \<noteq> CExit \<Longrightarrow> \<exists>x. client_turn K pton_ok conn now message r True pc b = Some x"
  by (cases "(K, pton_ok, conn, now, message, r, True, pc, b)" rule: client_turn.cases) (auto split: prod.splits sum.splits)

definition joins_ok :: "'k clients \<Rightarrow> bool" where
  "joins_ok s \<longleftrightarrow>
     (case main_at s of
        MStart cs \<Rightarrow> True
      | MSpawn cs \<Rightarrow> True
      | MJoin i \<Rightarrow> started s \<and> i \<le> length (places s) \<and> (\<forall>j<i. places s ! j = CExit)
      | _ \<Rightarrow> \<forall>pc\<in>set (places s). pc = CExit)"

lemma client_step_joins:
  assumes "joins_ok s" "client_step K pton_ok conn now message r a s = Some s'"
  shows "joins_ok s'"
proof (cases a)
  case Main_Thread
  with assms show ?thesis
    by (auto simp: client_step_def main_turn_def joins_ok_def less_Suc_eq in_set_conv_nth split: main_pc.splits list.splits if_splits prod.splits)
next
  case (Client_Thread i)
  with assms(2) obtain pc b where i: "i < length (places s)"
    and t: "client_turn K pton_ok conn now message r (started s) (places s ! i) (shared s) = Some (pc, b)"
    and s': "s' = s\<lparr>places := (places s)[i := pc], shared := b\<rparr>"
    by (auto simp: client_step_def split: if_splits)
  have "places s ! i \<noteq> CExit" using t by auto
  with assms(1) i s' show ?thesis
    by (auto simp: joins_ok_def nth_list_update split: main_pc.splits)
qed

lemma client_step_lowers:
  assumes w: "writes_move K" and step: "client_step K pton_ok conn now message r a s = Some s'"
  shows "client_load (length message) r s' < client_load (length message) r s"
proof (cases a)
  case Main_Thread
  with step show ?thesis
    by (auto simp: client_step_def main_turn_def client_load_def main_load_def split: main_pc.splits list.splits if_splits prod.splits)
next
  case (Client_Thread i)
  with step obtain pc b where i: "i < length (places s)"
    and t: "client_turn K pton_ok conn now message r (started s) (places s ! i) (shared s) = Some (pc, b)"
    and s': "s' = s\<lparr>places := (places s)[i := pc], shared := b\<rparr>"
    by (auto simp: client_step_def split: if_splits)
  from sum_update [OF i, of "place_load (length message) r" pc] client_turn_lowers [OF w t] s' show ?thesis
    by (simp add: client_load_def)
qed

lemma client_progress:
  assumes "joins_ok s" "main_at s \<noteq> MReport"
  shows "\<exists>a s'. client_step K pton_ok conn now message r a s = Some s'"
proof (cases "\<exists>i. main_at s = MJoin i \<and> i < length (places s) \<and> places s ! i \<noteq> CExit")
  case True
  then obtain i where i: "main_at s = MJoin i" "i < length (places s)" "places s ! i \<noteq> CExit" by blast
  with assms(1) have "started s" by (simp add: joins_ok_def)
  with client_turn_moves [OF i(3), of K pton_ok conn now message r "shared s"] i(2) show ?thesis
    by (intro exI [of _ "Client_Thread i"]) (auto simp: client_step_def)
next
  case False
  with assms(2) have "main_turn now s \<noteq> None"
    by (auto simp: main_turn_def split: main_pc.splits list.splits prod.splits)
  then show ?thesis by (intro exI [of _ Main_Thread]) (auto simp: client_step_def)
qed

interpretation benchclient: draining "client_step K pton_ok conn now message r" "\<lambda>_. True"
  "\<lambda>s. writes_move K \<and> joins_ok s" "\<lambda>s. main_at s = MReport" "client_load (length message) r"
  for K pton_ok conn now message r
proof (unfold_locales, goal_cases)
  case (1 s a s')
  then show ?case using client_step_joins by blast
next
  case (2 s a s')
  then show ?case using client_step_lowers by blast
next
  case (3 s)
  then show ?case using client_progress by blast
qed

lemma client_run_ends:
  assumes "kernel_contract K obs" "connector_law conn obs" "clock_law now obs" "writes_move K"
    "clients_new num_connections num_threads k = Some s0" "prun (client_step K pton_ok conn now message r) as s0 = Some s"
  shows "length as \<le> client_load (length message) r s0 \<and>
    ((\<exists>a s'. client_step K pton_ok conn now message r a s = Some s') \<or> main_at s = MReport) \<and>
    (main_at s = MReport \<longrightarrow> (\<forall>pc\<in>set (places s). pc = CExit) \<and>
     (\<exists>m\<le>unat num_connections. completed (shared s) = of_nat (m * r) \<and> latencies (shared s) \<le> m * r) \<and>
     opened (obs (client_os (shared s))) = opened (obs k))"
proof -
  obtain cs where cs: "thread_counts num_connections num_threads = Some cs"
    "s0 = \<lparr>started = False, main_at = MStart cs, places = [], start_time = 0, end_time = 0,
      shared = \<lparr>latencies_ms = [], completed = 0, client_os = k\<rparr>\<rparr>"
    using assms(5) by (auto simp: clients_new_def)
  have "joins_ok s0" using cs(2) by (simp add: joins_ok_def)
  then have run: "joins_ok s" "length as \<le> client_load (length message) r s0"
    using benchclient.run_bounded [OF assms(6), simplified] assms(4) by (auto simp: list_all_iff)
  have "accounts obs r (unat num_connections) (opened (obs k)) s0"
    using cs thread_counts_sum [OF cs(1)] by (auto simp: accounts_def counts_ok_def held_ok_def all_held_def to_start_def)
  with accounts_step [OF assms(1,2,3)] have acc: "accounts obs r (unat num_connections) (opened (obs k)) s"
    by (rule prun_inv [OF assms(6)])
  show ?thesis
  proof (cases "main_at s = MReport")
    case True
    with run(1) have all: "\<forall>pc\<in>set (places s). pc = CExit" by (simp add: joins_ok_def)
    then have "places s = replicate (length (places s)) CExit" by (metis replicate_length_same)
    then have zero: "sum_list (map uncounted (places s)) = 0" "all_held (places s) = []"
      by (metis uncounted_exit, metis all_held_exit)
    obtain m where "counts_ok r (unat num_connections) m s" using acc by (auto simp: accounts_def)
    then have "m \<le> unat num_connections \<and> completed (shared s) = of_nat (m * r) \<and> latencies (shared s) \<le> m * r"
      unfolding counts_ok_def zero(1) by simp
    moreover have "opened (obs (client_os (shared s))) = opened (obs k)"
      using acc zero by (simp add: accounts_def held_ok_def)
    ultimately show ?thesis using all True run(2) by blast
  next
    case False
    with client_progress [OF run(1)] run(2) show ?thesis by blast
  qed
qed


subsection \<open>A thread that is not interrupted\<close>

text \<open>Turns of one thread with nobody else in between; they end as \<open>thread_func\<close> says.\<close>

inductive turns :: "'k kernel \<Rightarrow> bool \<Rightarrow> 'k connector \<Rightarrow> 'k clock \<Rightarrow> byte list \<Rightarrow> nat \<Rightarrow> client_pc \<times> 'k bench \<Rightarrow> client_pc \<times> 'k bench \<Rightarrow> bool"
  for K pton_ok conn now message r where
  here: "turns K pton_ok conn now message r x x"
| turn: "client_turn K pton_ok conn now message r True pc b = Some y \<Longrightarrow> turns K pton_ok conn now message r y z \<Longrightarrow>
     turns K pton_ok conn now message r (pc, b) z"

lemma turns_trans: "turns K pton_ok conn now message r x y \<Longrightarrow> turns K pton_ok conn now message r y z \<Longrightarrow> turns K pton_ok conn now message r x z"
  by (induction rule: turns.induct) (auto intro: turns.turn)

lemma turns_one: "client_turn K pton_ok conn now message r True pc b = Some y \<Longrightarrow> turns K pton_ok conn now message r (pc, b) y"
  by (rule turns.turn [OF _ turns.here])

lemma send_all_turns:
  "send_all K c message out k = Some k' \<Longrightarrow>
     turns K pton_ok conn now message r (CSend c n q t1 out, b\<lparr>client_os := k\<rparr>) (CRecv c n q t1 0, b\<lparr>client_os := k'\<rparr>)"
proof (induction rule: send_all.raw_induct [rotated, consumes 1, case_names step])
  case (step f K c message out k k')
  obtain x k1 where x: "sys_write K c (drop out message) k = (x, k1)" by fastforce
  show ?case
  proof (cases "\<exists>w. out < length message \<and> x = Inr w")
    case True
    then obtain w where w: "out < length message" "x = Inr w" by blast
    with step.hyps x have "f K c message (out + w) k1 = Some k'" by simp
    note ih = step.IH [OF this]
    show ?thesis by (rule turns.turn [OF _ ih]) (use w x in simp)
  next
    case False
    with step.hyps x show ?thesis by (intro turns_one) (cases x; auto)
  qed
qed

lemma recv_all_turns:
  "recv_all K c want recvd k = Some y \<Longrightarrow> want = length message \<Longrightarrow>
     turns K pton_ok conn now message r (CRecv c n q t1 recvd, b\<lparr>client_os := k\<rparr>)
       (CStop c n q t1 (fst y), b\<lparr>client_os := snd y\<rparr>)"
proof (induction rule: recv_all.raw_induct [rotated, consumes 1, case_names step])
  case (step f K c want recvd k y)
  obtain x k1 where x: "sys_read K c (want - recvd) k = (x, k1)" by fastforce
  show ?case
  proof (cases "\<exists>d. recvd < want \<and> x = Inr d \<and> d \<noteq> []")
    case True
    then obtain d where d: "recvd < want" "x = Inr d" "d \<noteq> []" by blast
    with step.hyps x have "f K c want (recvd + length d) k1 = Some y" by simp
    note ih = step.IH [OF this step.prems]
    show ?thesis by (rule turns.turn [OF _ ih]) (use d x step.prems in simp)
  next
    case False
    with step.hyps step.prems x show ?thesis
      by (intro turns_one) (cases "recvd < length message"; cases x; auto)
  qed
qed

lemma one_request_turns:
  assumes "one_request K now c message s = Some s'"
  shows "turns K pton_ok conn now message r (CReq c n (Suc q), s) (CReq c n q, s')"
proof -
  from assms obtain t1 k0 k1 recvd k2 t2 k3 where k: "now (client_os s) = (t1, k0)" "send_all K c message 0 k0 = Some k1"
    "recv_all K c (length message) 0 k1 = Some (recvd, k2)" "now k2 = (t2, k3)"
    and s': "s' = s\<lparr>client_os := k3, completed := completed s + 1,
       latencies_ms := (if recvd = length message then latencies_ms s @ [millis (t2 - t1)] else latencies_ms s)\<rparr>"
    by (rule one_request_parts)
  let ?go = "turns K pton_ok conn now message r" and ?s = "s\<lparr>client_os := k3\<rparr>"
  have "?go (CReq c n (Suc q), s) (CSend c n q t1 0, s\<lparr>client_os := k0\<rparr>)"
    by (rule turns_one) (simp add: k(1))
  moreover note send_all_turns [OF k(2), of pton_ok conn now r n q t1 s] recv_all_turns [OF k(3) refl, of pton_ok conn now r n q t1 s]
  moreover have "?go (CStop c n q t1 (fst (recvd, k2)), s\<lparr>client_os := snd (recvd, k2)\<rparr>)
      (if recvd = length message then CPush c n q (t2 - t1) else CCount c n q, ?s)"
    by (rule turns_one) (simp add: k(4))
  moreover have "?go (if recvd = length message then CPush c n q (t2 - t1) else CCount c n q, ?s) (CReq c n q, s')"
  proof (cases "recvd = length message")
    case True
    then show ?thesis by (simp add: s' turns.turn [OF _ turns_one])
  next
    case False
    then show ?thesis by (auto simp: s' intro!: turns_one)
  qed
  ultimately show ?thesis by (blast intro: turns_trans)
qed

lemma requests_turns:
  "requests K now c message q s = Some s' \<Longrightarrow> turns K pton_ok conn now message r (CReq c n q, s) (CClose c n, s')"
proof (induction q arbitrary: s)
  case 0
  then show ?case by (auto intro: turns_one)
next
  case (Suc q)
  then obtain t where "one_request K now c message s = Some t" "requests K now c message q t = Some s'"
    by (auto simp: bind_eq_Some_conv)
  with Suc.IH one_request_turns show ?case by (blast intro: turns_trans)
qed

lemma one_connection_turns:
  assumes "one_connection K pton_ok conn now message r s = Some s'"
  shows "turns K pton_ok conn now message r (CNext (Suc n), s) (CNext n, s')"
proof -
  obtain x k1 where x: "sys_socket K False (client_os s) = (x, k1)" by fastforce
  show ?thesis
  proof (cases x)
    case (Inl e)
    with x assms show ?thesis by (intro turns_one) (simp add: one_connection_def)
  next
    case (Inr c)
    obtain y k2 where y: "conn c k1 = (y, k2)" by fastforce
    have close: "turns K pton_ok conn now message r (CClose c n, t) (CNext n, t\<lparr>client_os := sys_close K c (client_os t)\<rparr>)" for t
      by (rule turns_one) simp
    have sock: "turns K pton_ok conn now message r (CNext (Suc n), s) (CConnect c n, s\<lparr>client_os := k1\<rparr>)"
      using x Inr by (intro turns_one) simp
    show ?thesis
    proof (cases "pton_ok \<and> (\<exists>u. y = Inr u)")
      case True
      with assms x Inr y obtain t where t: "requests K now c message r (s\<lparr>client_os := k2\<rparr>) = Some t"
        and s': "s' = t\<lparr>client_os := sys_close K c (client_os t)\<rparr>"
        by (auto simp: one_connection_def)
      have "turns K pton_ok conn now message r (CConnect c n, s\<lparr>client_os := k1\<rparr>) (CReq c n r, s\<lparr>client_os := k2\<rparr>)"
        using True y by (intro turns_one) auto
      with sock requests_turns [OF t] close s' show ?thesis by (blast intro: turns_trans)
    next
      case False
      define k3 where "k3 = (if pton_ok then k2 else k1)"
      have "turns K pton_ok conn now message r (CConnect c n, s\<lparr>client_os := k1\<rparr>) (CClose c n, s\<lparr>client_os := k3\<rparr>)"
        using False y by (intro turns_one) (cases y; auto simp: k3_def)
      moreover have "s' = s\<lparr>client_os := sys_close K c k3\<rparr>"
        using False assms x Inr y by (cases y) (auto simp: one_connection_def k3_def)
      ultimately show ?thesis
        using turns_trans [OF turns_trans [OF sock] close [of "s\<lparr>client_os := k3\<rparr>"]] by simp
    qed
  qed
qed

text \<open>
  A thread that runs undisturbed does what the loops of \<open>thread_func\<close> say when they are read as a whole: whenever
  they return, its steps end in the same state, with the same counters and the same system calls.
\<close>

lemma client_thread_steps:
  assumes "thread_func K pton_ok conn now message r conns s = Some s'"
  shows "turns K pton_ok conn now message r (CYield conns, s) (CExit, s')"
proof -
  have "turns K pton_ok conn now message r (CNext conns, s) (CExit, s')"
    using assms
  proof (induction conns arbitrary: s)
    case 0
    then show ?case by (auto intro: turns_one)
  next
    case (Suc n)
    then obtain t where "one_connection K pton_ok conn now message r s = Some t" "thread_func K pton_ok conn now message r n t = Some s'"
      by (auto simp: bind_eq_Some_conv)
    with Suc.IH one_connection_turns show ?case by (blast intro: turns_trans)
  qed
  then show ?thesis by (auto intro: turns.turn)
qed

subsection \<open>An execution\<close>

text \<open>Two threads with one connection each; the second is refused a descriptor.\<close>

definition two_clients :: sim where
  "two_clients = (sim_new [5])\<lparr>chunks := (\<lambda>_. [])(5 := [[97]])\<rparr>"

definition two_clients_acts :: "client_act list" where
  "two_clients_acts = replicate 4 Main_Thread @ [Client_Thread 0, Client_Thread 1] @ replicate 12 (Client_Thread 0) @
     replicate 2 (Client_Thread 1) @ replicate 4 Main_Thread"

text \<open>The scripted kernel with sockets that block: a write takes all the bytes.\<close>

definition blocking_kernel :: "sim kernel" where
  "blocking_kernel = sim_kernel\<lparr>sys_write := (\<lambda>fd bs s.
     (Inr (length bs), s\<lparr>simnet := (simnet s)\<lparr>sent := append_at fd bs (sent (simnet s))\<rparr>\<rparr>))\<rparr>"

lemma blocking_contract: "kernel_contract blocking_kernel simnet"
  using sim_contract by (simp add: kernel_contract_def read_law_def write_law_def close_law_def accept_law_def poll_law_def
      wait_law_def create_law_def option_law_def blocking_kernel_def)

lemma blocking_moves: "writes_move blocking_kernel"
  by (simp add: writes_move_def blocking_kernel_def)

lemma two_clients_run:
  "\<exists>s0 s. clients_new 2 2 two_clients = Some s0 \<and>
     prun (client_step blocking_kernel True (\<lambda>c k. (Inr (), k)) (\<lambda>k. (0, k)) [97, 97] 1) two_clients_acts s0 = Some s \<and>
     main_at s = MReport \<and> latencies (shared s) = 0"
proof -
  have "thread_counts 2 2 = Some [1, 1]" by (simp add: thread_counts_def upt_rec)
  then have "clients_new 2 2 two_clients = Some \<lparr>started = False, main_at = MStart [1, 1],
      places = [], start_time = 0, end_time = 0, shared = \<lparr>latencies_ms = [], completed = 0, client_os = two_clients\<rparr>\<rparr>"
    by (simp add: clients_new_def)
  then show ?thesis
    by (simp add: two_clients_acts_def two_clients_def client_step_def main_turn_def blocking_kernel_def sim_defs eval_nat_numeral)
qed


lemma client_thread_steps_witness:
  "\<exists>s. thread_func sim_kernel True (\<lambda>c k. (Inr (), k)) (\<lambda>k. (0, k)) [97, 97] 1 1 \<lparr>latencies_ms = [], completed = 0, client_os = two_clients\<rparr> = Some s \<and>
     turns sim_kernel True (\<lambda>c k. (Inr (), k)) (\<lambda>k. (0, k)) [97, 97] 1 (CYield 1, \<lparr>latencies_ms = [], completed = 0, client_os = two_clients\<rparr>) (CExit, s) \<and>
     completed s = 1"
proof -
  let ?s = "\<lparr>latencies_ms = [], completed = 0, client_os = two_clients\<rparr>"
  obtain s where s: "thread_func sim_kernel True (\<lambda>c k. (Inr (), k)) (\<lambda>k. (0, k)) [97, 97] 1 1 ?s = Some s" and d: "completed s = 1"
    by (simp add: one_connection_def one_request_def send_all.simps recv_all.simps two_clients_def sim_defs)
  from client_thread_steps [OF s] s d show ?thesis by blast
qed

end
