(* ===== verification/Bench_Report.thy ===== *)
theory Bench_Report imports
  Bench_Run
  Program_Args
begin

text \<open>
  The report of \<open>run_benchmark\<close> of \<open>src/echo_server/bench/bench_client.cpp\<close>: requests per second, the 99th percentile
  and the mean of the latencies, in floating point as the code computes them; and \<open>main\<close> up to the threads.
\<close>

subsection \<open>The statistics\<close>

record stats =
  rps :: double
  p99_latency_ms :: double
  avg_latency_ms :: double

definition seconds :: "nat \<Rightarrow> rat" where
  "seconds ns = fl (fl (of_nat ns) / 1000000000)"

text \<open>\<open>static_cast<size_t>(std::ceil(0.99 * n)) - 1\<close>; the literal is the nearest double.\<close>

definition p99_index :: "nat \<Rightarrow> u64" where
  "p99_index n = of_int \<lceil>fl (fl (99 / 100) * fl (of_nat n))\<rceil> - 1"

text \<open>\<open>None\<close> is the undefined behaviour of an index out of range.\<close>

definition bench_stats :: "u64 \<Rightarrow> nat \<Rightarrow> rat list \<Rightarrow> stats option" where
  "bench_stats done took lats =
     (if lats = [] then Some \<lparr>rps = Fin 0, p99_latency_ms = Fin 0, avg_latency_ms = Fin 0\<rparr>
      else (let sorted = sort lats; p99_idx = p99_index (length sorted)
            in if unat p99_idx < length sorted then
                 Some \<lparr>rps = fdiv (Fin (of_u64 done)) (Fin (seconds took)),
                       p99_latency_ms = Fin (sorted ! unat p99_idx),
                       avg_latency_ms = fdiv (Fin (fsum sorted)) (Fin (fl (of_nat (length sorted))))\<rparr>
               else None))"

definition report :: "'k clients \<Rightarrow> stats option" where
  "report s = bench_stats (completed (shared s)) (end_time s - start_time s) (latencies_ms (shared s))"

subsection \<open>The index of the percentile\<close>

text \<open>The literal 0.99 is a little less than it says.\<close>

lemma literal_99: "fl (99 / 100) = 8917127262193582 / 2 ^ 53"
proof -
  have "rexp (99 / 100) = -1" by (rule rexp_unique) simp_all
  then have u: "ulps (99 / 100) = 2 ^ 53" by (simp add: ulps_def)
  have "\<lfloor>99 / 100 * 2 ^ 53 :: rat\<rfloor> = 8917127262193582" by (rule floor_unique) simp_all
  then have "rhe (99 / 100 * 2 ^ 53) = 8917127262193582" by (simp add: rhe_def Let_def)
  then show ?thesis by (simp add: fl_def u)
qed

lemma p99_ceiling:
  assumes "1 \<le> n" "n \<le> 2 ^ 46"
  shows "\<lceil>fl (fl (99 / 100) * fl (of_nat n))\<rceil> = int ((99 * n + 99) div 100)"
proof -
  define p :: rat where "p = 8917127262193582 / 2 ^ 53 * of_nat n"
  have p: "fl (99 / 100) * fl (of_nat n) = p"
    using assms(2) by (simp add: literal_99 fl_nat p_def)
  define k where "k = (99 * n + 99) div 100"
  define c where "c = (99 * n + 99) mod 100"
  have kc: "99 * n + 99 = 100 * k + c" "c < 100" by (simp_all add: k_def c_def)
  have "k \<le> n" using kc by linarith
  have small: "of_nat n \<le> (2 :: rat) ^ 46" using assms(2) by (metis of_nat_le_iff of_nat_numeral of_nat_power)
  have kr: "of_nat k = (99 * of_nat n + 99 - of_nat c) / (100 :: rat)"
    using kc(1) by (simp add: field_simps flip: of_nat_eq_iff [where 'a = rat])
  have kn: "of_nat k \<le> (of_nat n :: rat)" using \<open>k \<le> n\<close> by simp
  have cr: "of_nat c \<le> (99 :: rat)" using kc(2) by simp
  have up: "p \<le> of_nat k"
    using small cr by (simp add: p_def kr)
  have "fl p \<le> of_nat k" using fl_le [OF up exact_nat] \<open>k \<le> n\<close> assms(2) by simp
  moreover have "of_nat k - 1 < fl p"
  proof -
    have "1 \<le> k" using kc assms(1) by linarith
    then have eq: "of_nat (128 * (k - 1) + 1) * 2 powi (- 7) = (of_nat k - 1 + 1 / 128 :: rat)"
      by (simp add: of_nat_diff power_int_minus field_simps)
    have "of_nat (128 * (k - 1) + 1) * 2 powi (- 7) \<le> p"
      using small eq by (simp add: p_def kr)
    moreover have "128 * (k - 1) + 1 < 2 ^ 53" using \<open>k \<le> n\<close> assms by simp
    ultimately have "of_nat (128 * (k - 1) + 1) * 2 powi (- 7) \<le> fl p" using le_fl exact_scaled by blast
    with eq show ?thesis by simp
  qed
  ultimately show ?thesis unfolding p k_def [symmetric] by (simp add: ceiling_eq_iff)
qed

definition rank99 :: "nat \<Rightarrow> nat" where
  "rank99 n = (99 * n + 99) div 100"

lemma rank99_bounds:
  assumes "1 \<le> n"
  shows "1 \<le> rank99 n \<and> rank99 n \<le> n \<and> 99 * n \<le> 100 * rank99 n \<and> 100 * (rank99 n - 1) < 99 * n"
proof -
  have "100 * rank99 n + (99 * n + 99) mod 100 = 99 * n + 99" by (simp add: rank99_def)
  moreover have "(99 * n + 99) mod 100 < 100" by simp
  ultimately show ?thesis using assms by linarith
qed

lemma p99_rank:
  assumes "1 \<le> n" "n \<le> 2 ^ 46"
  shows "unat (p99_index n) = rank99 n - 1"
proof -
  obtain j where j: "rank99 n = Suc j" "Suc j \<le> n" using rank99_bounds [OF assms(1)] by (cases "rank99 n") auto
  have "p99_index n = of_int (int (rank99 n)) - 1"
    unfolding p99_index_def p99_ceiling [OF assms] rank99_def ..
  also have "\<dots> = of_nat j" by (simp add: j(1))
  finally show ?thesis using j assms(2) by (simp add: unat_of_nat)
qed

subsection \<open>What the percentile is\<close>

lemma length_filter_sort: "length (filter P (sort xs)) = length (filter P xs)"
  by (metis filter_sort length_sort)

lemma sorted_rank:
  assumes "sorted ys" "i < length ys"
  shows "Suc i \<le> length (filter (\<lambda>y. y \<le> ys ! i) ys)" "length (filter (\<lambda>y. y < ys ! i) ys) \<le> i"
proof -
  let ?le = "\<lambda>y. y \<le> ys ! i" and ?lt = "\<lambda>y. y < ys ! i"
  have parts: "length (filter P ys) = length (filter P (take j ys)) + length (filter P (drop j ys))" for P j
    by (metis append_take_drop_id filter_append length_append)
  have "ys ! j \<le> ys ! i" if "j < Suc i" for j using sorted_nth_mono [OF assms(1), of j i] that assms(2) by simp
  then have "\<forall>y\<in>set (take (Suc i) ys). ?le y" by (auto simp: in_set_conv_nth)
  then have "filter ?le (take (Suc i) ys) = take (Suc i) ys" by (simp only: filter_id_conv)
  with parts [of ?le "Suc i"] assms(2) show "Suc i \<le> length (filter ?le ys)" by simp
  have "ys ! i \<le> ys ! (i + j)" if "i + j < length ys" for j using sorted_nth_mono [OF assms(1), of i "i + j"] that by simp
  then have "\<forall>y\<in>set (drop i ys). \<not> ?lt y" by (auto simp: in_set_conv_nth not_less)
  then have "filter ?lt (drop i ys) = []" by (simp only: filter_empty_conv)
  with parts [of ?lt i] length_filter_le [of ?lt "take i ys"] show "length (filter ?lt ys) \<le> i" by simp
qed

lemma bench_stats_some:
  assumes "lats \<noteq> []" "length lats \<le> 2 ^ 46"
  shows "bench_stats done took lats = Some
    \<lparr>rps = fdiv (Fin (of_u64 done)) (Fin (seconds took)), p99_latency_ms = Fin (sort lats ! (rank99 (length lats) - 1)),
     avg_latency_ms = fdiv (Fin (fsum (sort lats))) (Fin (of_nat (length lats)))\<rparr>"
proof -
  have n: "1 \<le> length lats" using assms(1) by (cases lats) simp_all
  have "rank99 (length lats) - 1 < length lats" using rank99_bounds [OF n] by linarith
  moreover have "fl (of_nat (length lats)) = of_nat (length lats)" using assms(2) by (intro fl_nat) simp
  ultimately show ?thesis using assms(1) p99_rank [OF n assms(2)] by (simp add: bench_stats_def Let_def)
qed

text \<open>
  C37. The 99th percentile of the report is the nearest-rank percentile, for up to \<open>2 ^ 46\<close> latencies and although the index is
  computed in floating point from a literal that is not 0.99: it is never out of range, and the value is one of the
  latencies, at least 99 of 100 are at most as large, and less than 99 of 100 are smaller.
\<close>

lemma client_p99_is_nearest_rank:
  assumes "lats \<noteq> []" "length lats \<le> 2 ^ 46"
  shows "\<exists>st v. bench_stats done took lats = Some st \<and> p99_latency_ms st = Fin v \<and> v \<in> set lats \<and>
    99 * length lats \<le> 100 * length (filter (\<lambda>x. x \<le> v) lats) \<and>
    100 * length (filter (\<lambda>x. x < v) lats) < 99 * length lats"
proof -
  let ?n = "length lats" and ?i = "rank99 (length lats) - 1"
  let ?v = "sort lats ! ?i"
  have "1 \<le> ?n" using assms(1) by (cases lats) simp_all
  note r = rank99_bounds [OF this]
  then have i: "?i < length (sort lats)" by simp
  then have "?v \<in> set lats" by (metis nth_mem set_sort)
  moreover have "Suc ?i \<le> length (filter (\<lambda>x. x \<le> ?v) lats)" "length (filter (\<lambda>x. x < ?v) lats) \<le> ?i"
    using sorted_rank [OF sorted_sort i] by (simp_all only: length_filter_sort)
  ultimately show ?thesis using r bench_stats_some [OF assms, of "done" took] by (intro exI conjI) auto
qed

lemma client_p99_is_nearest_rank_witness:
  "\<exists>st. bench_stats 3 1000 [4, 1, 2] = Some st \<and> p99_latency_ms st = Fin 4"
proof -
  obtain st v where "bench_stats 3 1000 [4, 1, 2] = Some st" "p99_latency_ms st = Fin v" "v \<in> {4, 1, 2}"
    "3 \<le> length (filter (\<lambda>x. x \<le> v) [4, 1, 2])"
    using client_p99_is_nearest_rank [of "[4, 1, 2]" 3 1000] by fastforce
  moreover from this(3,4) have "v = 4" by auto
  ultimately show ?thesis by auto
qed

text \<open>
  The rate and the mean of the report, when time has passed and something has arrived: requests per second are the
  completed requests over the elapsed seconds up to six roundings, and the mean is the mean of the latencies
  up to one rounding for each of them and one for the division.
\<close>

lemma client_rates_are_close:
  assumes "lats \<noteq> []" "length lats \<le> 2 ^ 46" "\<forall>x\<in>set lats. 0 \<le> x" "0 < took"
  shows "\<exists>st r m. bench_stats done took lats = Some st \<and> rps st = Fin r \<and> avg_latency_ms st = Fin m \<and>
    near 6 (val_of done / (of_nat took / 1000000000)) r \<and>
    near (Suc (length lats)) (sum_list lats / of_nat (length lats)) m"
proof -
  let ?n = "length lats"
  have n: "0 < (of_nat ?n :: rat)" using assms(1) by simp
  have s: "near 2 (of_nat took / 1000000000) (seconds took)"
    using near_fl [OF near_div [OF near_fl [OF near_refl [of "of_nat took"]] near_refl [of 1000000000]]]
    by (simp add: seconds_def numeral_2_eq_2)
  then have "0 < seconds took" using assms(4) by (simp add: seconds_def)
  moreover have "near 6 (val_of done / (of_nat took / 1000000000)) (fl (of_u64 done / seconds took))"
    using near_fl [OF near_div [OF near_of_u64 s]] assms(4) by (simp add: eval_nat_numeral)
  moreover have sum: "sum_list (sort lats) = sum_list lats" by (metis mset_sort sum_mset_sum_list)
  have "near ?n (sum_list lats) (fsum (sort lats))" "0 \<le> sum_list lats"
    using near_fsum [of "sort lats"] assms(3) by (simp_all add: sum sum_list_nonneg)
  then have "near (Suc ?n) (sum_list lats / of_nat ?n) (fl (fsum (sort lats) / of_nat ?n))"
    using near_fl [OF near_div [OF _ near_refl [of "of_nat ?n"]]] n by simp
  ultimately show ?thesis using bench_stats_some [OF assms(1,2), of "done" took] assms(1)
    by (intro exI conjI) auto
qed

lemma client_rates_are_close_witness:
  "\<exists>st r m. bench_stats 10 5000000000 [4, 1, 2] = Some st \<and> rps st = Fin r \<and> avg_latency_ms st = Fin m \<and>
     near 6 2 r \<and> near 4 (7 / 3) m"
proof -
  have eqs: "Suc (length [4, 1, 2 :: rat]) = 4" "sum_list [4, 1, 2 :: rat] / of_nat (length [4, 1, 2 :: rat]) = 7 / 3"
    "val_of 10 / (of_nat 5000000000 / 1000000000) = 2" by (simp_all add: val_of_def)
  have "[4, 1, 2 :: rat] \<noteq> []" "length [4, 1, 2 :: rat] \<le> 2 ^ 46" "\<forall>x\<in>set [4, 1, 2 :: rat]. 0 \<le> x" "0 < (5000000000 :: nat)"
    by simp_all
  from client_rates_are_close [OF this, of 10] show ?thesis unfolding eqs .
qed

subsection \<open>main\<close>

text \<open>\<open>main\<close> up to the threads: it ends at once, is killed by the division by zero, or starts the run.\<close>

datatype 'k client_start = Client_Exit exit_status | Killed | Started client_opts "'k clients"

definition client_main :: "string list \<Rightarrow> 'k \<Rightarrow> 'k client_start" where
  "client_main args k =
     (case client_args client_defaults args of
        Help \<Rightarrow> Client_Exit (Exit 0)
      | Uncaught e \<Rightarrow> Client_Exit (Terminated e)
      | Parsed opts \<Rightarrow>
          (case clients_new (opt_connections opts) (opt_threads opts) k of
             None \<Rightarrow> Killed
           | Some s \<Rightarrow> Started opts s))"

text \<open>The number in the header of the report, and the run that the options ask for.\<close>

definition total_req :: "client_opts \<Rightarrow> u64" where
  "total_req opts = opt_connections opts * opt_requests opts"

definition run_benchmark :: "'k kernel \<Rightarrow> (string \<Rightarrow> bool) \<Rightarrow> (string \<Rightarrow> u16 \<Rightarrow> 'k connector) \<Rightarrow> 'k clock \<Rightarrow> client_opts \<Rightarrow>
    client_act \<Rightarrow> 'k clients \<Rightarrow> 'k clients option" where
  "run_benchmark K pton conn now opts =
     client_step K (pton (opt_host opts)) (conn (opt_host opts) (opt_cport opts)) now
       (replicate (unat (opt_size opts)) 97) (unat (opt_requests opts))"

text \<open>
  The report of the client is always defined, for up to \<open>2 ^ 46\<close> requests in total: when the threads of a run that \<open>main\<close>
  started have been joined, the requests completed are at most the total announced before the run, at least as many as
  the latencies recorded, and the statistics of those exist.
\<close>

lemma client_report_is_defined:
  assumes "kernel_contract K obs" "\<forall>h p. connector_law (conn h p) obs" "clock_law now obs" "writes_move K"
    "client_main args k = Started opts s0" "unat (opt_connections opts) * unat (opt_requests opts) \<le> 2 ^ 46"
    "prun (run_benchmark K pton conn now opts) as s0 = Some s" "main_at s = MReport"
  shows "\<exists>st. report s = Some st \<and> latencies (shared s) \<le> unat (completed (shared s)) \<and>
    completed (shared s) \<le> total_req opts"
proof -
  let ?r = "unat (opt_requests opts)" and ?n = "unat (opt_connections opts)"
  have "clients_new (opt_connections opts) (opt_threads opts) k = Some s0"
    using assms(5) by (auto simp: client_main_def split: outcome.splits option.splits)
  from client_run_ends [OF assms(1) _ assms(3,4) this assms(7) [unfolded run_benchmark_def]] assms(2,8)
  obtain m where m: "m \<le> ?n" "completed (shared s) = of_nat (m * ?r)" "latencies (shared s) \<le> m * ?r"
    by blast
  have "m * ?r \<le> ?n * ?r" using m(1) by (rule mult_le_mono1)
  moreover have "(2 :: nat) ^ 46 < 2 ^ 64" by simp
  ultimately have small: "m * ?r \<le> 2 ^ 46" "?n * ?r < 2 ^ 64" using assms(6) by linarith+
  have "unat (of_nat (m * ?r) :: u64) = m * ?r" using small(1) by (simp only: unat_of_nat) simp
  moreover have "total_req opts = of_nat (?n * ?r)" by (simp add: total_req_def)
  then have "unat (total_req opts) = ?n * ?r" using small(2) by (simp only: unat_of_nat) simp
  ultimately have "latencies (shared s) \<le> unat (completed (shared s))" "completed (shared s) \<le> total_req opts"
    "latencies (shared s) \<le> 2 ^ 46"
    using m small \<open>m * ?r \<le> ?n * ?r\<close> by (simp_all add: word_le_nat_alt)
  moreover have "\<exists>st. report s = Some st"
  proof (cases "latencies_ms (shared s) = []")
    case False
    with \<open>latencies (shared s) \<le> 2 ^ 46\<close> show ?thesis by (simp add: report_def bench_stats_some)
  qed (simp add: report_def bench_stats_def)
  ultimately show ?thesis by blast
qed

definition two_clients_args :: "string list" where
  "two_clients_args = [''--connections'', decimal 2, ''--requests'', decimal 1, ''--size'', decimal 2]"

lemma client_report_is_defined_witness:
  "\<exists>opts s0 s st. client_main two_clients_args two_clients = Started opts s0 \<and>
     prun (run_benchmark blocking_kernel (\<lambda>h. True) (\<lambda>h p c k. (Inr (), k)) (\<lambda>k. (0, k)) opts) two_clients_acts s0 = Some s \<and>
     report s = Some st \<and> completed (shared s) \<le> 2"
proof -
  obtain s0 s where s0: "clients_new 2 2 two_clients = Some s0"
    and s: "prun (client_step blocking_kernel True (\<lambda>c k. (Inr (), k)) (\<lambda>k. (0, k)) [97, 97] 1) two_clients_acts s0 = Some s"
    and d: "main_at s = MReport" using two_clients_run by blast
  let ?o = "client_defaults\<lparr>opt_connections := 2, opt_requests := 1, opt_size := 2\<rparr>"
  have m: "client_main two_clients_args two_clients = Started ?o s0"
    using s0 by (simp add: client_main_def two_clients_args_def stoul_decimal client_defaults_def)
  have s: "prun (run_benchmark blocking_kernel (\<lambda>h. True) (\<lambda>h p c k. (Inr (), k)) (\<lambda>k. (0, k)) ?o) two_clients_acts s0 = Some s"
  proof -
    have "unat (opt_size ?o) = 2" "unat (opt_requests ?o) = 1" by simp_all
    moreover have "replicate 2 97 = [97, 97 :: byte]" by (simp add: numeral_2_eq_2)
    ultimately show ?thesis unfolding run_benchmark_def using s by simp
  qed
  have "\<forall>h p. connector_law (\<lambda>c k. (Inr (), k)) simnet" by (simp add: connector_law_def)
  from client_report_is_defined [OF blocking_contract this still_clock blocking_moves m _ s d]
  show ?thesis using m s by (auto simp: total_req_def)
qed

end
