(* ===== verification/Echo_Network.thy ===== *)
theory Echo_Network imports
  Server_Threads
  Bench_Run
  "HOL-Library.Sublist"
begin

text \<open>
  The benchmark client and the epoll server on one network: \<open>bench_client.cpp\<close> with its threads on one side,
  \<open>epoll/server.cpp\<close> with its pool on the other, in any interleaving of their system calls. The network is not part of the
  sources: it is a state of any type with a kernel for each side, and what TCP promises is a named hypothesis.
\<close>

subsection \<open>The network\<close>

text \<open>
  What the clients have read from and written to a connection since the socket was made. \<open>peer w c\<close> is the descriptor
  under which the server has accepted the connection of the client's descriptor \<open>c\<close>, while it is open there.
\<close>

record client_log =
  cgot :: "fd \<Rightarrow> byte list"
  cgave :: "fd \<Rightarrow> byte list"

type_synonym 'w peers = "'w \<Rightarrow> fd \<Rightarrow> fd option"

text \<open>The calls of one side leave the logs of the other side alone, and connections appear only by \<open>accept\<close>.\<close>

definition server_side_law :: "'w kernel \<Rightarrow> ('w \<Rightarrow> client_log) \<Rightarrow> 'w peers \<Rightarrow> bool" where
  "server_side_law K logs peer \<longleftrightarrow>
     (\<forall>w fd n bs p w'.
        (w' = snd (sys_read K fd n w) \<or> w' = snd (sys_write K fd bs w) \<or> w' = sys_close K fd w \<or>
         w' = snd (sys_poll_add K p fd w) \<or> w' = sys_poll_del K p fd w \<longrightarrow>
         logs w' = logs w \<and> peer w' \<subseteq>\<^sub>m peer w)) \<and>
     (\<forall>nb l w. case sys_accept K nb l w of
          (Inl e, w') \<Rightarrow> logs w' = logs w \<and> peer w' \<subseteq>\<^sub>m peer w
        | (Inr s, w') \<Rightarrow> logs w' = logs w \<and> (\<exists>c. cgot (logs w) c = [] \<and> peer w' \<subseteq>\<^sub>m (peer w)(c \<mapsto> s)))"

definition kept :: "('w \<Rightarrow> netobs) \<Rightarrow> ('w \<Rightarrow> client_log) \<Rightarrow> 'w peers \<Rightarrow> 'w \<Rightarrow> client_log \<Rightarrow> 'w \<Rightarrow> bool" where
  "kept obs logs peer w lg w' \<longleftrightarrow> obs w' = obs w \<and> logs w' = lg \<and> peer w' \<subseteq>\<^sub>m peer w"

definition client_other_law :: "'w kernel \<Rightarrow> 'w connector \<Rightarrow> 'w clock \<Rightarrow> ('w \<Rightarrow> netobs) \<Rightarrow> ('w \<Rightarrow> client_log) \<Rightarrow> 'w peers \<Rightarrow> bool" where
  "client_other_law C conn now obs logs peer \<longleftrightarrow> (\<forall>w c.
     kept obs logs peer w (logs w) (snd (conn c w)) \<and> kept obs logs peer w (logs w) (snd (now w)) \<and>
     kept obs logs peer w (logs w) (sys_close C c w))"

definition client_socket_law :: "'w kernel \<Rightarrow> ('w \<Rightarrow> netobs) \<Rightarrow> ('w \<Rightarrow> client_log) \<Rightarrow> 'w peers \<Rightarrow> bool" where
  "client_socket_law C obs logs peer \<longleftrightarrow> (\<forall>nb w.
     case sys_socket C nb w of
       (Inl e, w') \<Rightarrow> kept obs logs peer w (logs w) w'
     | (Inr c, w') \<Rightarrow> kept obs logs peer w \<lparr>cgot = (cgot (logs w))(c := []), cgave = (cgave (logs w))(c := [])\<rparr> w' \<and>
         peer w' c = None)"

definition client_read_law :: "'w kernel \<Rightarrow> ('w \<Rightarrow> netobs) \<Rightarrow> ('w \<Rightarrow> client_log) \<Rightarrow> 'w peers \<Rightarrow> bool" where
  "client_read_law C obs logs peer \<longleftrightarrow> (\<forall>c n w.
     case sys_read C c n w of
       (Inl e, w') \<Rightarrow> kept obs logs peer w (logs w) w'
     | (Inr d, w') \<Rightarrow> kept obs logs peer w ((logs w)\<lparr>cgot := append_at c d (cgot (logs w))\<rparr>) w')"

definition client_write_law :: "'w kernel \<Rightarrow> ('w \<Rightarrow> netobs) \<Rightarrow> ('w \<Rightarrow> client_log) \<Rightarrow> 'w peers \<Rightarrow> bool" where
  "client_write_law C obs logs peer \<longleftrightarrow> (\<forall>c bs w.
     case sys_write C c bs w of
       (Inl e, w') \<Rightarrow> kept obs logs peer w (logs w) w'
     | (Inr n, w') \<Rightarrow> kept obs logs peer w ((logs w)\<lparr>cgave := append_at c (take n bs) (cgave (logs w))\<rparr>) w')"

definition client_side_law :: "'w kernel \<Rightarrow> 'w connector \<Rightarrow> 'w clock \<Rightarrow> ('w \<Rightarrow> netobs) \<Rightarrow> ('w \<Rightarrow> client_log) \<Rightarrow> 'w peers \<Rightarrow> bool" where
  "client_side_law C conn now obs logs peer \<longleftrightarrow> client_other_law C conn now obs logs peer \<and>
     client_socket_law C obs logs peer \<and> client_read_law C obs logs peer \<and> client_write_law C obs logs peer"

text \<open>
  TCP: a read returns bytes that the other side has written, from where the last one stopped. A connection that the
  server has accepted is one of its open descriptors.
\<close>

definition tcp_law :: "'w kernel \<Rightarrow> 'w kernel \<Rightarrow> ('w \<Rightarrow> netobs) \<Rightarrow> ('w \<Rightarrow> client_log) \<Rightarrow> 'w peers \<Rightarrow> bool" where
  "tcp_law K C obs logs peer \<longleftrightarrow>
     (\<forall>w c s n d. peer w c = Some s \<longrightarrow> s \<in> opened (obs w) \<and>
        (fst (sys_read K s n w) = Inr d \<longrightarrow> prefix (rcvd (obs w) s @ d) (cgave (logs w) c)) \<and>
        (fst (sys_read C c n w) = Inr d \<longrightarrow> prefix (cgot (logs w) c @ d) (sent (obs w) s)))"

definition network_law :: "'w kernel \<Rightarrow> 'w kernel \<Rightarrow> 'w connector \<Rightarrow> 'w clock \<Rightarrow> ('w \<Rightarrow> netobs) \<Rightarrow> ('w \<Rightarrow> client_log) \<Rightarrow> 'w peers \<Rightarrow> bool" where
  "network_law K C conn now obs logs peer \<longleftrightarrow> kernel_contract K obs \<and> server_side_law K logs peer \<and>
     client_side_law C conn now obs logs peer \<and> tcp_law K C obs logs peer"

subsection \<open>Both sides together\<close>

record 'w world =
  server_side :: "'w full"
  client_side :: "'w clients"

definition net_state :: "'w world \<Rightarrow> 'w" where
  "net_state x = kst (server_side x)"

definition world_new :: "nat \<Rightarrow> echo_server \<Rightarrow> 'w clients \<Rightarrow> 'w \<Rightarrow> 'w world" where
  "world_new n srv cl w = \<lparr>server_side = full_new n srv w, client_side = cl\<lparr>shared := (shared cl)\<lparr>client_os := w\<rparr>\<rparr>\<rparr>"

datatype world_act = At_Server full_act | At_Client client_act

text \<open>A step of one side works on the network as the other side has left it.\<close>

definition world_step :: "'w kernel \<Rightarrow> ('w \<Rightarrow> netobs) \<Rightarrow> 'w kernel \<Rightarrow> bool \<Rightarrow> 'w connector \<Rightarrow> 'w clock \<Rightarrow> byte list \<Rightarrow> nat \<Rightarrow>
    world_act \<Rightarrow> 'w world \<Rightarrow> 'w world option" where
  "world_step K obs C pton_ok conn now message r a x =
     (case a of
        At_Server b \<Rightarrow>
          map_option (\<lambda>f. \<lparr>server_side = f,
              client_side = (client_side x)\<lparr>shared := (shared (client_side x))\<lparr>client_os := kst f\<rparr>\<rparr>\<rparr>)
            (full_step K obs b (server_side x))
      | At_Client b \<Rightarrow>
          map_option (\<lambda>cl. \<lparr>server_side = (server_side x)\<lparr>kst := client_os (shared cl)\<rparr>, client_side = cl\<rparr>)
            (client_step C pton_ok conn now message r b (client_side x)))"

definition no_world_error :: "world_act \<Rightarrow> bool" where
  "no_world_error a \<longleftrightarrow> (case a of At_Server b \<Rightarrow> no_net_error b | At_Client b \<Rightarrow> True)"

subsection \<open>What is in flight\<close>

text \<open>On every connection each side has read a prefix of what the other has written.\<close>

definition links :: "netobs \<Rightarrow> client_log \<Rightarrow> (fd \<Rightarrow> fd option) \<Rightarrow> bool" where
  "links ob lg pr \<longleftrightarrow> (\<forall>c s. pr c = Some s \<longrightarrow> prefix (rcvd ob s) (cgave lg c) \<and> prefix (cgot lg c) (sent ob s))"

abbreviation links_at :: "('w \<Rightarrow> netobs) \<Rightarrow> ('w \<Rightarrow> client_log) \<Rightarrow> 'w peers \<Rightarrow> 'w \<Rightarrow> bool" where
  "links_at obs logs peer w \<equiv> links (obs w) (logs w) (peer w)"

lemma links_less:
  assumes "links ob lg pr" "pr' \<subseteq>\<^sub>m pr" "rcvd ob' = rcvd ob" "sent ob' = sent ob" "lg' = lg"
  shows "links ob' lg' pr'"
  using assms by (fastforce simp: links_def map_le_def dom_def)

lemma map_le_some: "f \<subseteq>\<^sub>m g \<Longrightarrow> f x = Some y \<Longrightarrow> g x = Some y"
  by (force simp: map_le_def dom_def)

text \<open>Every call of the server keeps the links.\<close>

lemma server_call_links:
  assumes n: "network_law K C conn now obs logs peer" and l: "links_at obs logs peer w"
  shows "links_at obs logs peer (sys_close K fd w)" "links_at obs logs peer (snd (sys_poll_add K p fd w))"
    "links_at obs logs peer (sys_poll_del K p fd w)" "links_at obs logs peer (snd (sys_read K fd m w))"
    "links_at obs logs peer (snd (sys_write K fd bs w))" "links_at obs logs peer (snd (sys_accept K nb fd w))"
proof -
  have c: "kernel_contract K obs" and tcp: "tcp_law K C obs logs peer" and side: "server_side_law K logs peer"
    using n by (simp_all add: network_law_def)
  have same: "logs w' = logs w \<and> peer w' \<subseteq>\<^sub>m peer w"
    if "w' = snd (sys_read K fd m w) \<or> w' = snd (sys_write K fd bs w) \<or> w' = sys_close K fd w \<or>
      w' = snd (sys_poll_add K p fd w) \<or> w' = sys_poll_del K p fd w" for w'
    using side that unfolding server_side_law_def by blast
  show "links_at obs logs peer (sys_close K fd w)"
    using l same [of "sys_close K fd w"] by (auto intro: links_less simp: contract_close [OF c])
  show "links_at obs logs peer (sys_poll_del K p fd w)"
    using l same [of "sys_poll_del K p fd w"] by (auto intro: links_less simp: contract_del [OF c])
  obtain x w1 where x: "sys_poll_add K p fd w = (x, w1)" by fastforce
  then have "rcvd (obs w1) = rcvd (obs w)" "sent (obs w1) = sent (obs w)"
    using contract_add_ok [OF c] contract_add_err [OF c] by (cases x; fastforce)+
  with l same [of w1] x show "links_at obs logs peer (snd (sys_poll_add K p fd w))" by (auto intro: links_less)
  show "links_at obs logs peer (snd (sys_read K fd m w))"
  proof (cases "sys_read K fd m w")
    case (Pair y w2)
    show ?thesis
    proof (cases y)
      case (Inl e)
      with Pair l same [of w2] contract_read_err [OF c] show ?thesis by (auto intro: links_less)
    next
      case (Inr d)
      have "prefix (rcvd (obs w) fd @ d) (cgave (logs w) k)" if "peer w k = Some fd" for k
        using tcp that Pair Inr unfolding tcp_law_def by (metis fst_conv)
      moreover have "obs w2 = (obs w)\<lparr>rcvd := append_at fd d (rcvd (obs w))\<rparr>"
        using contract_read_ok [OF c] Pair Inr by blast
      ultimately show ?thesis using l same [of w2] Pair by (auto simp: links_def dest: map_le_some)
    qed
  qed
  show "links_at obs logs peer (snd (sys_write K fd bs w))"
  proof (cases "sys_write K fd bs w")
    case (Pair y w2)
    show ?thesis
    proof (cases y)
      case (Inl e)
      with Pair l same [of w2] contract_write_err [OF c] show ?thesis by (auto intro: links_less)
    next
      case (Inr j)
      have "obs w2 = (obs w)\<lparr>sent := append_at fd (take j bs) (sent (obs w))\<rparr>"
        using contract_write_ok [OF c] Pair Inr by blast
      then show ?thesis using l same [of w2] Pair by (auto simp: links_def dest: map_le_some)
    qed
  qed
  show "links_at obs logs peer (snd (sys_accept K nb fd w))"
  proof (cases "sys_accept K nb fd w")
    case (Pair y w2)
    show ?thesis
    proof (cases y)
      case (Inl e)
      with Pair side have "logs w2 = logs w \<and> peer w2 \<subseteq>\<^sub>m peer w"
        unfolding server_side_law_def by (elim conjE allE [of _ nb] allE [of _ fd] allE [of _ w]) simp
      with Pair Inl l contract_accept_err [OF c] show ?thesis by (auto intro: links_less)
    next
      case (Inr s)
      with Pair side obtain k where k: "logs w2 = logs w" "cgot (logs w) k = []" "peer w2 \<subseteq>\<^sub>m (peer w)(k \<mapsto> s)"
        unfolding server_side_law_def by (elim conjE allE [of _ nb] allE [of _ fd] allE [of _ w]) auto
      note acc = contract_accept_ok [OF c Pair [unfolded Inr]]
      have "peer w k' \<noteq> Some s" for k' using tcp acc unfolding tcp_law_def by metis
      with l k acc Pair show ?thesis
        by (auto simp: links_def dest!: map_le_some split: if_splits)
    qed
  qed
qed

text \<open>So does every step of the server, which makes one of five calls on the network or none.\<close>

lemma full_step_calls:
  assumes "full_step K obs a f = Some f'"
  shows "kst f' = kst f \<or> kst f' = kst (full_accept K f) \<or> (\<exists>fd. kst f' = snd (read_client K (base f) fd (kst f))) \<or>
    (\<exists>fd. kst f' = sys_close K fd (kst f)) \<or> (\<exists>fd buf m. kst f' = snd (echo_write K fd buf m (kst f)))"
proof (cases a)
  case (Net_Read fd)
  with assms have "kst f' = snd (read_client K (base f) fd (kst f))"
    by (auto simp: full_read_def split: if_splits prod.splits option.splits dest!: move_pool_frame)
  then show ?thesis by blast
next
  case (Pool_Act b)
  show ?thesis
  proof (cases b)
    case (Work i)
    with Pool_Act assms have w: "full_work K i f = Some f'" by (simp split: if_splits)
    show ?thesis
    proof (cases "workers (threads f) ! i")
      case (WRun t)
      show ?thesis
      proof (cases t)
        case (EchoTask fd buf)
        obtain r k1 where "echo_write K fd buf (outs f ! i) (kst f) = (r, k1)" by fastforce
        with w WRun EchoTask have "kst f' = kst f \<or> kst f' = snd (echo_write K fd buf (outs f ! i) (kst f))"
          by (auto simp: full_work_def split: if_splits option.splits dest!: move_pool_frame)
        then show ?thesis by blast
      next
        case (CloseTask fd)
        with w WRun show ?thesis by (auto simp: full_work_def dest!: move_pool_frame)
      qed
    qed (use w in \<open>auto simp: full_work_def dest!: move_pool_frame\<close>)
  qed (use Pool_Act assms in \<open>auto dest!: move_pool_frame\<close>)
qed (use assms in \<open>auto split: if_splits\<close>)

lemma server_step_links:
  assumes n: "network_law K C conn now obs logs peer" and l: "links_at obs logs peer (kst f)"
    and step: "full_step K obs a f = Some f'"
  shows "links_at obs logs peer (kst f')"
proof -
  note call = server_call_links [OF n]
  have "links_at obs logs peer (kst (full_accept K f))"
    using call(6) [OF l, of True "listen_fd (base f)"]
    by (auto simp: full_accept_def accept_one_def split: prod.splits sum.splits)
      (metis call(1,2) snd_conv)+
  moreover have "links_at obs logs peer (snd (read_client K (base f) fd (kst f)))" for fd
    using call(4) [OF l, of fd BUF_SIZE] call(3)
    by (auto simp: read_client_def split: prod.splits sum.splits)
  moreover have "links_at obs logs peer (snd (echo_write K fd buf m (kst f)))" for fd buf m
    using call(5) [OF l, of fd "drop m buf"] by (auto simp: echo_write_def split: prod.splits sum.splits)
  ultimately show ?thesis using full_step_calls [OF step] call(1) [OF l] l by metis
qed

text \<open>The calls of the clients keep them, and do not touch what the server observes.\<close>

definition quiet_for :: "('w \<Rightarrow> netobs) \<Rightarrow> ('w \<Rightarrow> client_log) \<Rightarrow> 'w peers \<Rightarrow> 'w \<Rightarrow> 'w \<Rightarrow> bool" where
  "quiet_for obs logs peer w w' \<longleftrightarrow> obs w' = obs w \<and> (links_at obs logs peer w \<longrightarrow> links_at obs logs peer w')"

lemma quiet_self [simp]: "quiet_for obs logs peer w w"
  by (simp add: quiet_for_def)

lemma kept_quiet: "kept obs logs peer w (logs w) w' \<Longrightarrow> quiet_for obs logs peer w w'"
  by (auto simp: kept_def quiet_for_def intro: links_less)

text \<open>A log that has changed at one descriptor.\<close>

lemma kept_changed:
  assumes "kept obs logs peer w lg w'" "\<And>k. k \<noteq> c \<Longrightarrow> cgot lg k = cgot (logs w) k \<and> cgave lg k = cgave (logs w) k"
    "\<And>s. peer w' c = Some s \<Longrightarrow> peer w c = Some s \<Longrightarrow> links_at obs logs peer w \<Longrightarrow> prefix (rcvd (obs w) s) (cgave lg c) \<and> prefix (cgot lg c) (sent (obs w) s)"
  shows "quiet_for obs logs peer w w'"
proof -
  have p: "peer w k = Some s" if "peer w' k = Some s" for k s
    using assms(1) that unfolding kept_def by (blast intro: map_le_some)
  have "prefix (rcvd (obs w) s) (cgave lg k) \<and> prefix (cgot lg k) (sent (obs w) s)" if "links_at obs logs peer w" "peer w' k = Some s" for k s
  proof (cases "k = c")
    case True
    with assms(3) that p show ?thesis by blast
  next
    case False
    from that(1) p [OF that(2)] have "prefix (rcvd (obs w) s) (cgave (logs w) k) \<and> prefix (cgot (logs w) k) (sent (obs w) s)"
      unfolding links_def by blast
    with assms(2) [OF False] show ?thesis by simp
  qed
  then show ?thesis using assms(1) by (simp add: quiet_for_def kept_def links_def)
qed

lemma client_call_quiet:
  assumes n: "network_law K C conn now obs logs peer"
  shows "quiet_for obs logs peer w (snd (conn c w))" "quiet_for obs logs peer w (snd (now w))"
    "quiet_for obs logs peer w (snd (sys_socket C nb w))"
    "quiet_for obs logs peer w (snd (sys_read C c m w))" "quiet_for obs logs peer w (snd (sys_write C c bs w))"
    "quiet_for obs logs peer w (sys_close C c w)"
proof -
  have tcp: "tcp_law K C obs logs peer" and other: "client_other_law C conn now obs logs peer"
    and sock: "client_socket_law C obs logs peer" and rd: "client_read_law C obs logs peer"
    and wr: "client_write_law C obs logs peer"
    using n by (simp_all add: network_law_def client_side_law_def)
  show "quiet_for obs logs peer w (snd (conn c w))" "quiet_for obs logs peer w (snd (now w))"
    "quiet_for obs logs peer w (sys_close C c w)"
    using other unfolding client_other_law_def by (blast intro: kept_quiet)+
  show "quiet_for obs logs peer w (snd (sys_socket C nb w))"
  proof (cases "sys_socket C nb w")
    case (Pair x w1)
    with sock [unfolded client_socket_law_def, THEN spec [of _ nb], THEN spec [of _ w]] show ?thesis
      by (cases x) (auto intro: kept_quiet kept_changed [where c = "projr x"])
  qed
  show "quiet_for obs logs peer w (snd (sys_write C c bs w))"
  proof (cases "sys_write C c bs w")
    case (Pair x w1)
    with wr [unfolded client_write_law_def, THEN spec [of _ c], THEN spec [of _ bs], THEN spec [of _ w]] show ?thesis
      by (cases x) (auto simp: links_def intro: kept_quiet kept_changed [where c = c])
  qed
  have next': "prefix (cgot (logs w) c @ d) (sent (obs w) s)" if "peer w c = Some s" "fst (sys_read C c m w) = Inr d" for s d
    using tcp that unfolding tcp_law_def by blast
  show "quiet_for obs logs peer w (snd (sys_read C c m w))"
  proof (cases "sys_read C c m w")
    case (Pair x w1)
    with rd [unfolded client_read_law_def, THEN spec [of _ c], THEN spec [of _ m], THEN spec [of _ w]] next' show ?thesis
      by (cases x) (auto simp: links_def intro: kept_quiet kept_changed [where c = c])
  qed
qed

lemma quiet_pair: "quiet_for obs logs peer w (snd y) \<Longrightarrow> y = (x, w') \<Longrightarrow> quiet_for obs logs peer w w'"
  by simp

lemma client_turn_quiet:
  assumes n: "network_law K C conn now obs logs peer" and step: "client_turn C pton_ok conn now message r go pc b = Some (pc', b')"
  shows "quiet_for obs logs peer (client_os b) (client_os b')"
  using step
  by (cases "(C, pton_ok, conn, now, message, r, go, pc, b)" rule: client_turn.cases)
    (auto split: if_splits prod.splits sum.splits simp: client_call_quiet(6) [OF n] dest: client_call_quiet(1-5) [OF n, THEN quiet_pair])

lemma client_step_quiet:
  assumes n: "network_law K C conn now obs logs peer" and step: "client_step C pton_ok conn now message r a s = Some s'"
  shows "quiet_for obs logs peer (client_os (shared s)) (client_os (shared s'))"
proof (cases a)
  case Main_Thread
  with step client_call_quiet(2) [OF n, of "client_os (shared s)"] show ?thesis
    by (auto simp: client_step_def main_turn_def split: main_pc.splits list.splits if_splits prod.splits)
next
  case (Client_Thread i)
  with step client_turn_quiet [OF n] show ?thesis by (auto simp: client_step_def split: if_splits)
qed

subsection \<open>From one end to the other\<close>

definition world_inv :: "('w \<Rightarrow> netobs) \<Rightarrow> ('w \<Rightarrow> client_log) \<Rightarrow> 'w peers \<Rightarrow> 'w world \<Rightarrow> bool" where
  "world_inv obs logs peer x \<longleftrightarrow> pool_inv 1 (threads (server_side x)) \<and> length (outs (server_side x)) = 1 \<and>
     sys_inv obs (full_abs (server_side x)) \<and> links_at obs logs peer (net_state x) \<and>
     client_os (shared (client_side x)) = net_state x"

lemma full_abs_other_net: "full_abs (f\<lparr>kst := w\<rparr>) = (full_abs f)\<lparr>os := w\<rparr>"
  by (simp add: full_abs_def)

lemma sys_inv_other_net: "obs w = obs (os s) \<Longrightarrow> sys_inv obs (s\<lparr>os := w\<rparr>) = sys_inv obs s"
  by (simp add: sys_inv_def todo_def)

lemma server_step_sys_inv:
  assumes "kernel_contract K obs" "pool_inv n (threads f) \<and> length (outs f) = n" "sys_inv obs (full_abs f)"
    "no_net_error a" "full_step K obs a f = Some f'"
  shows "sys_inv obs (full_abs f')"
proof (cases "full_abs_act a f")
  case None
  with serversim.sim [OF assms(2,5)] assms(3) show ?thesis by simp
next
  case (Some b)
  with serversim.sim [OF assms(2,5)] have "sys_step K obs b (full_abs f) = Some (full_abs f')" by simp
  with sys_step_inv [OF assms(1,3) full_abs_act_error [OF Some assms(4)]] show ?thesis by blast
qed

lemma world_step_inv:
  assumes n: "network_law K C conn now obs logs peer" and inv: "world_inv obs logs peer x" and e: "no_world_error a"
    and step: "world_step K obs C pton_ok conn now message r a x = Some x'"
  shows "world_inv obs logs peer x' \<and> base (server_side x') = base (server_side x)"
proof (cases a)
  case (At_Server b)
  with step obtain f where f: "full_step K obs b (server_side x) = Some f" and x': "server_side x' = f"
    "client_os (shared (client_side x')) = kst f" by (auto simp: world_step_def)
  have k: "kernel_contract K obs" using n by (simp add: network_law_def)
  have pool: "pool_inv 1 (threads (server_side x)) \<and> length (outs (server_side x)) = 1" using inv by (simp add: world_inv_def)
  have "sys_inv obs (full_abs f)"
    using server_step_sys_inv [OF k pool _ _ f] inv e At_Server by (simp add: world_inv_def no_world_error_def)
  moreover have "links_at obs logs peer (kst f)"
    using server_step_links [OF n _ f] inv by (simp add: world_inv_def net_state_def)
  ultimately show ?thesis using serversim.inv_step [OF pool f] full_step_frame [OF f] x' by (simp add: world_inv_def net_state_def)
next
  case (At_Client b)
  with step obtain cl where cl: "client_step C pton_ok conn now message r b (client_side x) = Some cl"
    and x': "x' = \<lparr>server_side = (server_side x)\<lparr>kst := client_os (shared cl)\<rparr>, client_side = cl\<rparr>"
    by (auto simp: world_step_def)
  from client_step_quiet [OF n cl] inv have "obs (client_os (shared cl)) = obs (net_state x)"
    "links_at obs logs peer (client_os (shared cl))" by (auto simp: world_inv_def quiet_for_def)
  with inv x' show ?thesis
    by (auto simp: world_inv_def net_state_def full_abs_other_net sys_inv_other_net)
qed

lemma world_run_inv:
  assumes n: "network_law K C conn now obs logs peer" and start: "watched (obs k) = {}" "epoll_server_new K p 1 k = (Inr srv, w)"
    "\<forall>c. peer w c = None" and e: "list_all no_world_error as"
    and run: "prun (world_step K obs C pton_ok conn now message r) as (world_new 1 srv cl w) = Some x"
  shows "world_inv obs logs peer x \<and> base (server_side x) = srv"
proof -
  have k: "kernel_contract K obs" using n by (simp add: network_law_def)
  have "abs_pool (pool_new (Suc 0)) = pool srv" using epoll_server_new_pool [OF start(2)] by simp
  then have "full_abs (full_new 1 srv w) = sys_new 1 srv w"
    by (simp add: full_abs_def full_new_def sys_new_def) (simp add: pool_new_def)
  with sys_start_inv [OF k start(1,2)] have "world_inv obs logs peer (world_new 1 srv cl w) \<and> base (server_side (world_new 1 srv cl w)) = srv"
    using start(3) by (simp add: world_inv_def world_new_def net_state_def links_def full_new_def pool_inv_new)
  note init = this
  show ?thesis
    by (rule prun_inv_all [where I = "\<lambda>x. world_inv obs logs peer x \<and> base (server_side x) = srv", OF run e _ init])
      (use world_step_inv [OF n] in blast)
qed


subsection \<open>A network that keeps the laws\<close>

text \<open>
  Pipes in both directions: a write takes all bytes, a read returns what the other side has written and this one has not
  read. Descriptors are handed out in increasing order.
\<close>

record pipes =
  sside :: netobs
  cside :: client_log
  waiting :: "fd list"
  server_of :: "fd \<Rightarrow> fd option"
  client_of :: "fd \<Rightarrow> fd option"
  next_fd :: fd
  gone :: "fd set"

definition pipes_new :: pipes where
  "pipes_new = \<lparr>sside = \<lparr>rcvd = (\<lambda>_. []), sent = (\<lambda>_. []), opened = {}, watched = {}\<rparr>,
     cside = \<lparr>cgot = (\<lambda>_. []), cgave = (\<lambda>_. [])\<rparr>, waiting = [], server_of = (\<lambda>_. None), client_of = (\<lambda>_. None), next_fd = 3, gone = {}\<rparr>"

definition pipe_peer :: "pipes \<Rightarrow> fd \<Rightarrow> fd option" where
  "pipe_peer w c =
     (case server_of w c of
        None \<Rightarrow> None
      | Some s \<Rightarrow> if client_of w s = Some c \<and> s \<in> opened (sside w) then Some s else None)"

definition unread :: "nat \<Rightarrow> byte list \<Rightarrow> byte list \<Rightarrow> byte list" where
  "unread n seen all = (if prefix seen all then take n (drop (length seen) all) else [])"

definition pipe_open :: "pipes \<Rightarrow> fd sysret \<times> pipes" where
  "pipe_open w =
     (let s = next_fd w
      in if s \<in> opened (sside w) then (Inl (EOTHER 24), w)
         else (Inr s, w\<lparr>next_fd := s + 1, sside := (sside w)\<lparr>opened := insert s (opened (sside w))\<rparr>\<rparr>))"

definition pipe_accept :: "pipes \<Rightarrow> fd sysret \<times> pipes" where
  "pipe_accept w =
     (let s = next_fd w
      in case waiting w of
           [] \<Rightarrow> (Inl EAGAIN, w)
         | c # cs \<Rightarrow>
             if s \<in> opened (sside w) \<or> s \<in> watched (sside w) \<or> cgot (cside w) c \<noteq> [] then (Inl EAGAIN, w)
             else (Inr s, w\<lparr>next_fd := s + 1, waiting := cs, server_of := (server_of w)(c \<mapsto> s), client_of := (client_of w)(s \<mapsto> c),
               sside := (sside w)\<lparr>rcvd := (rcvd (sside w))(s := []), sent := (sent (sside w))(s := []),
                 opened := insert s (opened (sside w))\<rparr>\<rparr>))"

definition pipe_server_read :: "fd \<Rightarrow> nat \<Rightarrow> pipes \<Rightarrow> byte list sysret \<times> pipes" where
  "pipe_server_read fd n w =
     (case client_of w fd of
        None \<Rightarrow> (Inl EAGAIN, w)
      | Some c \<Rightarrow>
          (let d = unread n (rcvd (sside w) fd) (cgave (cside w) c)
           in if d = [] \<and> \<not> (c \<in> gone w \<and> prefix (rcvd (sside w) fd) (cgave (cside w) c)) then (Inl EAGAIN, w)
              else (Inr d, w\<lparr>sside := (sside w)\<lparr>rcvd := append_at fd d (rcvd (sside w))\<rparr>\<rparr>)))"

definition pipe_client_read :: "fd \<Rightarrow> nat \<Rightarrow> pipes \<Rightarrow> byte list sysret \<times> pipes" where
  "pipe_client_read c n w =
     (case server_of w c of
        None \<Rightarrow> (Inl EINTR, w)
      | Some s \<Rightarrow>
          (let d = unread n (cgot (cside w) c) (sent (sside w) s)
           in if d = [] then (Inl EINTR, w)
              else (Inr d, w\<lparr>cside := (cside w)\<lparr>cgot := append_at c d (cgot (cside w))\<rparr>\<rparr>)))"

definition pipe_server :: "pipes kernel" where
  "pipe_server =
     \<lparr>sys_socket = (\<lambda>_. pipe_open), sys_fcntl_getfl = (\<lambda>fd w. (2, w)), sys_fcntl_setfl = (\<lambda>fd fl w. w),
      sys_setsockopt = (\<lambda>fd opt w. w), sys_bind = (\<lambda>fd port w. (Inr (), w)), sys_listen = (\<lambda>fd w. (Inr (), w)),
      sys_poll_create = pipe_open,
      sys_poll_add = (\<lambda>p fd w. (Inr (), w\<lparr>sside := (sside w)\<lparr>watched := insert fd (watched (sside w))\<rparr>\<rparr>)),
      sys_poll_del = (\<lambda>p fd w. w\<lparr>sside := (sside w)\<lparr>watched := watched (sside w) - {fd}\<rparr>\<rparr>),
      sys_poll_wait = (\<lambda>p n w. (Inr [], w)),
      sys_accept = (\<lambda>_ l. pipe_accept),
      sys_read = pipe_server_read,
      sys_write = (\<lambda>fd bs w. (Inr (length bs), w\<lparr>sside := (sside w)\<lparr>sent := append_at fd bs (sent (sside w))\<rparr>\<rparr>)),
      sys_close = (\<lambda>fd w. w\<lparr>sside := (sside w)\<lparr>opened := opened (sside w) - {fd}, watched := watched (sside w) - {fd}\<rparr>\<rparr>),
      running_seen = (\<lambda>w. True)\<rparr>"

definition pipe_client :: "pipes kernel" where
  "pipe_client = pipe_server
     \<lparr>sys_socket := (\<lambda>_ w. (let c = next_fd w
        in (Inr c, w\<lparr>next_fd := c + 1, server_of := (server_of w)(c := None),
              cside := \<lparr>cgot = (cgot (cside w))(c := []), cgave = (cgave (cside w))(c := [])\<rparr>\<rparr>))),
      sys_read := pipe_client_read,
      sys_write := (\<lambda>c bs w. (Inr (length bs), w\<lparr>cside := (cside w)\<lparr>cgave := append_at c bs (cgave (cside w))\<rparr>\<rparr>)),
      sys_close := (\<lambda>c w. w\<lparr>gone := insert c (gone w)\<rparr>)\<rparr>"

definition pipe_connect :: "pipes connector" where
  "pipe_connect c w = (Inr (), w\<lparr>waiting := waiting w @ [c]\<rparr>)"

definition pipe_clock :: "pipes clock" where
  "pipe_clock w = (0, w)"

lemmas pipe_defs = pipe_server_def pipe_client_def pipe_connect_def pipe_clock_def pipe_open_def pipe_accept_def
  pipe_server_read_def pipe_client_read_def unread_def Let_def

lemma pipe_contract: "kernel_contract pipe_server sside"
  by (simp add: kernel_contract_def read_law_def write_law_def close_law_def accept_law_def poll_law_def
      wait_law_def create_law_def option_law_def pipe_defs split: list.splits sum.splits option.splits)

lemma unread_next: "prefix seen whole \<Longrightarrow> prefix (seen @ unread n seen whole) whole"
  by (auto simp: unread_def prefix_def) (metis append_take_drop_id)

lemma unread_some: "unread n seen whole \<noteq> [] \<Longrightarrow> prefix seen whole"
  by (simp add: unread_def split: if_splits)

lemma pipe_peer_some: "pipe_peer w c = Some s \<longleftrightarrow> server_of w c = Some s \<and> client_of w s = Some c \<and> s \<in> opened (sside w)"
  by (auto simp: pipe_peer_def split: option.splits if_splits)

lemma pipe_server_side: "server_side_law pipe_server cside pipe_peer"
  by (simp add: server_side_law_def pipe_defs map_le_def dom_def pipe_peer_some split: list.splits option.splits) (auto simp: pipe_peer_def)

lemma pipe_client_side: "client_side_law pipe_client pipe_connect pipe_clock sside cside pipe_peer"
  by (auto simp: client_side_law_def client_other_law_def client_socket_law_def client_read_law_def client_write_law_def
      kept_def pipe_defs map_le_def dom_def pipe_peer_def split: option.splits if_splits)

lemma pipe_tcp: "tcp_law pipe_server pipe_client sside cside pipe_peer"
  by (auto simp: tcp_law_def pipe_peer_some pipe_server_def pipe_client_def pipe_server_read_def pipe_client_read_def Let_def
      intro!: unread_next dest: unread_some split: if_splits)

lemma pipe_network: "network_law pipe_server pipe_client pipe_connect pipe_clock sside cside pipe_peer"
  by (simp add: network_law_def pipe_contract pipe_server_side pipe_client_side pipe_tcp)

text \<open>One request: connected, written, accepted, read, enqueued, echoed by the worker and read back.\<close>

definition round_trip :: "world_act list" where
  "round_trip = map At_Client (replicate 3 Main_Thread @ replicate 6 (Client_Thread 0)) @
     map At_Server ([Net_Accept, Net_Read 6] @ map Pool_Act (replicate 4 (Enqueue 0) @ replicate 9 (Work 0))) @
     [At_Client (Client_Thread 0)]"

definition pipe_demo :: "world_act list \<Rightarrow> pipes world option" where
  "pipe_demo as =
     (case epoll_server_new pipe_server 8080 1 pipes_new of
        (Inl e, w) \<Rightarrow> None
      | (Inr srv, w) \<Rightarrow>
          Option.bind (clients_new 1 1 w) (\<lambda>cl.
            prun (world_step pipe_server sside pipe_client True pipe_connect pipe_clock [97, 98] 1) as (world_new 1 srv cl w)))"

lemma pipe_demo_run:
  assumes "pipe_demo as = Some x"
  obtains srv w cl where "epoll_server_new pipe_server 8080 1 pipes_new = (Inr srv, w)" "clients_new 1 1 w = Some cl"
    "prun (world_step pipe_server sside pipe_client True pipe_connect pipe_clock [97, 98] 1) as (world_new 1 srv cl w) = Some x"
  using assms by (auto simp: pipe_demo_def bind_eq_Some_conv split: prod.splits sum.splits)

lemma pipe_server_new:
  "epoll_server_new pipe_server 8080 1 pipes_new = (Inr srv, w) \<Longrightarrow> listen_fd srv = 3 \<and> (\<forall>c. pipe_peer w c = None)"
  by (auto simp: epoll_server_new_def pipe_defs pipes_new_def pipe_peer_def)

lemma round_trip_run:
  "\<exists>x. pipe_demo round_trip = Some x \<and> pipe_peer (net_state x) 5 = Some 6 \<and> 6 \<in> watched (sside (net_state x)) \<and>
     6 \<notin> failed (server_side x) \<and> cgot (cside (net_state x)) 5 = [97, 98]"
  by (simp add: pipe_demo_def round_trip_def epoll_server_new_def pipe_defs pipes_new_def pipe_peer_def clients_new_def thread_counts_def
      world_step_def world_new_def net_state_def client_step_def main_turn_def eval_nat_numeral full_eval)


end
