(* ===== verification/Uring_Network.thy ===== *)
theory Uring_Network imports
  Echo_Network
  Uring_Service
  Uring_Setup
begin

text \<open>
  The benchmark client and the io_uring server on one network, under the laws of Echo_Network. The kernel works on a
  submission by the call that it stands for (\<open>accept4\<close>, \<open>recv\<close>, \<open>send\<close>), and its result is the completion that the
  event loop handles. Completions are handled in the order in which the kernel has posted them, so call and handling are one
  step here; the submissions of the second phase are another, at any moment.
\<close>

subsection \<open>The kernel's side of a completion\<close>

text \<open>A failed call completes with its negated error number; 11 is \<open>EAGAIN\<close>.\<close>

definition neg_errno :: "errno \<Rightarrow> int" where
  "neg_errno e = (case e of EAGAIN \<Rightarrow> - eagain | EWOULDBLOCK \<Rightarrow> - eagain | EINTR \<Rightarrow> - 4 | EOTHER n \<Rightarrow> - int (Suc n))"

lemma neg_errno_neg [simp]: "neg_errno e < 0" "neg_errno e \<le> 0"
  by (simp_all add: neg_errno_def eagain_def split: errno.splits)

fun ring_result :: "'w kernel \<Rightarrow> uring \<Rightarrow> sqe \<Rightarrow> 'w \<Rightarrow> cqe \<times> 'w" where
  "ring_result K s (Accept_Sqe p l) w =
     (case sys_accept K True l w of
        (Inl e, w') \<Rightarrow> (\<lparr>cq_data = p, cq_res = neg_errno e, cq_bytes = []\<rparr>, w')
      | (Inr d, w') \<Rightarrow> (\<lparr>cq_data = p, cq_res = d, cq_bytes = []\<rparr>, w'))"
| "ring_result K s (Recv_Sqe p d n) w =
     (case sys_read K d n w of
        (Inl e, w') \<Rightarrow> (\<lparr>cq_data = p, cq_res = neg_errno e, cq_bytes = []\<rparr>, w')
      | (Inr bs, w') \<Rightarrow> (\<lparr>cq_data = p, cq_res = int (length bs), cq_bytes = bs\<rparr>, w'))"
| "ring_result K s (Send_Sqe z p d n) w =
     (case sys_write K d (case heap s p of None \<Rightarrow> [] | Some r \<Rightarrow> take n (rbuf r)) w of
        (Inl e, w') \<Rightarrow> (\<lparr>cq_data = p, cq_res = neg_errno e, cq_bytes = []\<rparr>, w')
      | (Inr m, w') \<Rightarrow> (\<lparr>cq_data = p, cq_res = int m, cq_bytes = []\<rparr>, w'))"

text \<open>The \<open>close\<close> that \<open>handle_recv\<close> calls, where the ring's own record of descriptors says that it has.\<close>

definition ring_close :: "'w kernel \<Rightarrow> sqe \<Rightarrow> uring \<Rightarrow> uring \<Rightarrow> 'w \<Rightarrow> 'w" where
  "ring_close K e s s' w =
     (case e of Recv_Sqe p d n \<Rightarrow> if d \<in> conns s - conns s' then sys_close K d w else w | _ \<Rightarrow> w)"

definition ring_complete :: "'w kernel \<Rightarrow> nat \<Rightarrow> uring \<times> 'w \<Rightarrow> (uring \<times> 'w) option" where
  "ring_complete K p = (\<lambda>(s, w).
     (case find (\<lambda>e. sqe_ptr e = p) (inflight s) of
        None \<Rightarrow> None
      | Some e \<Rightarrow>
          (let (c, w1) = ring_result K s e w
           in map_option (\<lambda>s'. (s', ring_close K e s s' w1)) (complete c s))))"

subsection \<open>Both sides together\<close>

record 'w ring_world =
  ring_side :: uring
  bench_side :: "'w clients"

datatype ring_act = Ring_Completes nat | Ring_Submits nat | At_Bench client_act

abbreviation ring_net :: "'w ring_world \<Rightarrow> 'w" where
  "ring_net x \<equiv> client_os (shared (bench_side x))"

definition ring_world_new :: "uring_server \<Rightarrow> 'w clients \<Rightarrow> 'w \<Rightarrow> 'w ring_world" where
  "ring_world_new srv cl w =
     \<lparr>ring_side = submit_accept (uring_new QUEUE_DEPTH (ur_listen srv)),
      bench_side = cl\<lparr>shared := (shared cl)\<lparr>client_os := w\<rparr>\<rparr>\<rparr>"

definition ring_world_step :: "'w kernel \<Rightarrow> 'w kernel \<Rightarrow> bool \<Rightarrow> 'w connector \<Rightarrow> 'w clock \<Rightarrow> byte list \<Rightarrow> nat \<Rightarrow>
    ring_act \<Rightarrow> 'w ring_world \<Rightarrow> 'w ring_world option" where
  "ring_world_step K C pton_ok conn now message r a x =
     (case a of
        Ring_Completes p \<Rightarrow>
          map_option (\<lambda>(s, w). \<lparr>ring_side = s, bench_side = (bench_side x)\<lparr>shared := (shared (bench_side x))\<lparr>client_os := w\<rparr>\<rparr>\<rparr>)
            (ring_complete K p (ring_side x, ring_net x))
      | Ring_Submits taken \<Rightarrow> Some (x\<lparr>ring_side := phase_two taken (ring_side x)\<rparr>)
      | At_Bench b \<Rightarrow>
          map_option (\<lambda>cl. x\<lparr>bench_side := cl\<rparr>) (client_step C pton_ok conn now message r b (bench_side x)))"

subsection \<open>What one completion does to the records of the ring\<close>

lemma submit_logs [simp]:
  "conns (submit_recv p s) = conns s" "got (submit_recv p s) = got s" "put (submit_recv p s) = put s" "short (submit_recv p s) = short s"
  "conns (submit_send p s) = conns s" "got (submit_send p s) = got s" "put (submit_send p s) = put s" "short (submit_send p s) = short s"
  "conns (delete_request p s) = conns s" "got (delete_request p s) = got s" "put (delete_request p s) = put s"
  "short (delete_request p s) = short s"
  by (simp_all add: submit_recv_def submit_send_def delete_request_def prep_def split: option.splits)

lemma handle_accept_logs [simp]:
  "conns (handle_accept m s) = conns s" "got (handle_accept m s) = got s" "put (handle_accept m s) = put s"
  "short (handle_accept m s) = short s"
  by (simp_all add: handle_accept_def new_request_def Let_def)

lemma handle_recv_logs:
  "heap s p = Some r \<Longrightarrow> conns (handle_recv p m s) = (if m \<le> 0 \<and> m \<noteq> - eagain then conns s - {client_fd r} else conns s) \<and>
     got (handle_recv p m s) = got s \<and> put (handle_recv p m s) = put s \<and> short (handle_recv p m s) = short s"
  by (cases "m = 0") (simp_all add: handle_recv_def close_conn_def eagain_def)

lemma complete_logs:
  assumes inv: "uring_inv s" and e: "answered c s = Some e" and step: "complete c s = Some s'"
  shows "case e of
      Accept_Sqe p l \<Rightarrow>
        if cq_res c \<ge> 0 then cq_res c \<notin> conns s \<and> conns s' = insert (cq_res c) (conns s) \<and> got s' = (got s)(cq_res c := []) \<and>
          put s' = (put s)(cq_res c := []) \<and> short s' = short s - {cq_res c}
        else conns s' = conns s \<and> got s' = got s \<and> put s' = put s \<and> short s' = short s
    | Recv_Sqe p d n \<Rightarrow>
        d \<in> conns s \<and> conns s' = (if cq_res c \<le> 0 \<and> cq_res c \<noteq> - eagain then conns s - {d} else conns s) \<and>
        got s' = (got s)(d := got s d @ cq_bytes c) \<and> put s' = put s \<and> short s' = short s
    | Send_Sqe z p d n \<Rightarrow>
        d \<in> conns s \<and> conns s' = conns s \<and> got s' = got s \<and>
        (\<exists>r. heap s p = Some r \<and> n = length (rbuf r) \<and> (d \<in> short s \<or> got s d = put s d @ rbuf r) \<and>
           put s' = (put s)(d := put s d @ take (nat (cq_res c)) (rbuf r))) \<and>
        short s' = (if nat (cq_res c) < n then insert d (short s) else short s)"
proof -
  have v: "valid_result c s e" and s': "s' = process_cqe c ((kernel_effect c e s)\<lparr>inflight := remove1 e (inflight s)\<rparr>)"
    using step e by (auto simp: complete_def split: if_splits)
  note ans = answered_some [OF e]
  then have ok: "sqe_ok s e" using inv by (auto simp: uring_inv_def owned_def)
  show ?thesis
  proof (cases e)
    case (Accept_Sqe p l)
    with ok v ans show ?thesis unfolding s' by (auto simp: process_cqe_def)
  next
    case (Recv_Sqe p d n)
    with ok obtain r where r: "heap s p = Some r" "op r = RECV" "client_fd r = d" "d \<in> conns s" by auto
    with Recv_Sqe v ans show ?thesis unfolding s' by (simp add: process_cqe_def handle_recv_logs)
  next
    case (Send_Sqe z p d n)
    with ok v ans show ?thesis unfolding s' by (auto simp: process_cqe_def handle_send_def Let_def)
  qed
qed

subsection \<open>The records are what the network has seen\<close>

definition ring_net_ok :: "('w \<Rightarrow> netobs) \<Rightarrow> uring \<Rightarrow> 'w \<Rightarrow> bool" where
  "ring_net_ok obs s w \<longleftrightarrow> uring_inv s \<and> conns s \<subseteq> opened (obs w) \<and>
     (\<forall>d\<in>conns s. got s d = rcvd (obs w) d \<and> put s d = sent (obs w) d \<and> (d \<in> short s \<or> prefix (put s d) (got s d)))"

lemma found_answered:
  assumes "find (\<lambda>e. sqe_ptr e = p) (inflight s) = Some e" "ring_result K s e w = (c, w')"
  shows "answered c s = Some e"
proof -
  have "sqe_ptr e = p" using assms(1) by (auto simp: find_Some_iff)
  moreover have "cq_data c = sqe_ptr e" using assms(2) by (cases e) (auto split: prod.splits sum.splits)
  ultimately show ?thesis using assms(1) by (simp add: answered_def)
qed

lemma ring_complete_ok:
  assumes k: "kernel_contract K obs" and ok: "ring_net_ok obs s w" and step: "ring_complete K p (s, w) = Some (s', w')"
  shows "ring_net_ok obs s' w'"
proof -
  from step obtain e c w1 where e: "find (\<lambda>e. sqe_ptr e = p) (inflight s) = Some e" and r: "ring_result K s e w = (c, w1)"
    and s': "complete c s = Some s'" and w': "w' = ring_close K e s s' w1"
    by (auto simp: ring_complete_def split: option.splits prod.splits)
  have inv: "uring_inv s" using ok by (simp add: ring_net_ok_def)
  note ans = found_answered [OF e r]
  have inv': "uring_inv s'" using inv s' by (rule complete_inv)
  note logs = complete_logs [OF inv ans s']
  show ?thesis
  proof (cases e)
    case (Accept_Sqe q l)
    obtain y where y: "sys_accept K True l w = (y, w1)" using r Accept_Sqe by (cases "fst (sys_accept K True l w)") (auto split: prod.splits sum.splits)
    show ?thesis
    proof (cases y)
      case (Inl x)
      with y r Accept_Sqe have "cq_res c < 0" by auto
      with logs Accept_Sqe ok inv' y Inl contract_accept_err [OF k] w' show ?thesis
        by (auto simp: ring_net_ok_def ring_close_def)
    next
      case (Inr d)
      with y r Accept_Sqe have c: "cq_res c = d" by auto
      note acc = contract_accept_ok [OF k y [unfolded Inr]]
      from logs Accept_Sqe ok inv' acc w' c show ?thesis
        by (auto simp: ring_net_ok_def ring_close_def split: if_splits)
    qed
  next
    case (Recv_Sqe q d n)
    obtain y where y: "sys_read K d n w = (y, w1)" using r Recv_Sqe by (cases "fst (sys_read K d n w)") (auto split: prod.splits sum.splits)
    have w1: "obs w1 = (obs w)\<lparr>rcvd := append_at d (cq_bytes c) (rcvd (obs w))\<rparr>"
      using y r Recv_Sqe contract_read_ok [OF k] contract_read_err [OF k] by (cases y) fastforce+
    have "obs w' = (if d \<in> conns s - conns s' then (obs w1)\<lparr>opened := opened (obs w1) - {d}, watched := watched (obs w1) - {d}\<rparr> else obs w1)"
      by (simp add: w' ring_close_def Recv_Sqe contract_close [OF k])
    with logs Recv_Sqe ok inv' w1 show ?thesis
      by (auto simp: ring_net_ok_def split: if_splits)
  next
    case (Send_Sqe z q d n)
    with logs obtain x where x: "heap s q = Some x" "n = length (rbuf x)" "d \<in> short s \<or> got s d = put s d @ rbuf x" "d \<in> conns s"
      "put s' = (put s)(d := put s d @ take (nat (cq_res c)) (rbuf x))" "conns s' = conns s" "got s' = got s"
      "short s' = (if nat (cq_res c) < n then insert d (short s) else short s)" by auto
    obtain y where y: "sys_write K d (rbuf x) w = (y, w1)" "cq_res c = (case y of Inl e \<Rightarrow> neg_errno e | Inr m \<Rightarrow> int m)"
      using r Send_Sqe x by (cases "sys_write K d (rbuf x) w") (auto split: sum.splits)
    have "obs w1 = (obs w)\<lparr>sent := append_at d (take (nat (cq_res c)) (rbuf x)) (sent (obs w))\<rparr>"
    proof (cases y)
      case (Inl e)
      then have "nat (cq_res c) = 0" using y(2) by simp
      with Inl y(1) contract_write_err [OF k] show ?thesis by fastforce
    next
      case (Inr m)
      with y contract_write_ok [OF k] show ?thesis by fastforce
    qed
    moreover have "prefix (put s d @ take (nat (cq_res c)) (rbuf x)) (got s d)" if "d \<notin> short s"
      using that x(3) by (simp add: take_is_prefix)
    ultimately show ?thesis using x ok inv' w' Send_Sqe
      by (auto simp: ring_net_ok_def ring_close_def)
  qed
qed

lemma ring_complete_links:
  assumes n: "network_law K C conn now obs logs peer" and l: "links_at obs logs peer w"
    and step: "ring_complete K p (s, w) = Some (s', w')"
  shows "links_at obs logs peer w'"
proof -
  note call = server_call_links [OF n]
  from step obtain e c w1 where r: "ring_result K s e w = (c, w1)" and w': "w' = ring_close K e s s' w1"
    by (auto simp: ring_complete_def split: option.splits prod.splits)
  have "\<exists>nb f m bs. w1 \<in> {snd (sys_accept K nb f w), snd (sys_read K f m w), snd (sys_write K f bs w)}"
    using r by (cases e) (auto split: prod.splits sum.splits, (metis snd_conv)+)
  with call(4-6) [OF l] have "links_at obs logs peer w1" by blast
  with call(1) show ?thesis by (simp add: w' ring_close_def split: sqe.splits)
qed

definition ring_world_inv :: "('w \<Rightarrow> netobs) \<Rightarrow> ('w \<Rightarrow> client_log) \<Rightarrow> 'w peers \<Rightarrow> 'w ring_world \<Rightarrow> bool" where
  "ring_world_inv obs logs peer x \<longleftrightarrow> ring_net_ok obs (ring_side x) (ring_net x) \<and> links_at obs logs peer (ring_net x)"

lemma phase_two_logs [simp]:
  "conns (phase_two k s) = conns s" "got (phase_two k s) = got s" "put (phase_two k s) = put s" "short (phase_two k s) = short s"
  by (simp_all add: phase_two_def io_submit_def submit_accept_def new_request_def prep_def Let_def)

lemma ring_world_step_inv:
  assumes n: "network_law K C conn now obs logs peer" and inv: "ring_world_inv obs logs peer x"
    and step: "ring_world_step K C pton_ok conn now message r a x = Some x'"
  shows "ring_world_inv obs logs peer x'"
proof (cases a)
  case (Ring_Completes p)
  with step obtain s w where c: "ring_complete K p (ring_side x, ring_net x) = Some (s, w)" and x': "ring_side x' = s" "ring_net x' = w"
    by (auto simp: ring_world_step_def)
  have "kernel_contract K obs" using n by (simp add: network_law_def)
  with ring_complete_ok [OF _ _ c] ring_complete_links [OF n _ c] inv x' show ?thesis by (simp add: ring_world_inv_def)
next
  case (Ring_Submits k)
  with step inv show ?thesis by (auto simp: ring_world_step_def ring_world_inv_def ring_net_ok_def phase_two_inv)
next
  case (At_Bench b)
  with step obtain cl where cl: "client_step C pton_ok conn now message r b (bench_side x) = Some cl" and x': "x' = x\<lparr>bench_side := cl\<rparr>"
    by (auto simp: ring_world_step_def)
  with client_step_quiet [OF n cl] inv show ?thesis by (auto simp: ring_world_inv_def ring_net_ok_def quiet_for_def)
qed

lemma ring_world_run_inv:
  assumes "network_law K C conn now obs logs peer" "\<forall>c. peer w c = None"
    "prun (ring_world_step K C pton_ok conn now message r) as (ring_world_new srv cl w) = Some x"
  shows "ring_world_inv obs logs peer x"
proof (rule prun_inv [OF assms(3), where I = "ring_world_inv obs logs peer"])
  have s: "uring_inv (submit_accept (uring_new QUEUE_DEPTH (ur_listen srv)))"
    by (intro submit_accept_inv uring_new_inv) (simp add: uring_new_def)
  have "conns (submit_accept (uring_new QUEUE_DEPTH (ur_listen srv))) = {}"
    by (simp add: submit_accept_def new_request_def prep_def uring_new_def Let_def)
  with s assms(2) show "ring_world_inv obs logs peer (ring_world_new srv cl w)"
    by (simp add: ring_world_inv_def ring_net_ok_def ring_world_new_def links_def)
qed (use ring_world_step_inv [OF assms(1)] in blast)


text \<open>One request: connected, accepted, written, received, echoed, read back.\<close>

definition ring_trip :: "ring_act list" where
  "ring_trip = map At_Bench (replicate 3 Main_Thread @ replicate 6 (Client_Thread 0)) @
     [Ring_Submits 256, Ring_Completes 0, Ring_Submits 256, Ring_Completes 1, Ring_Submits 256, Ring_Completes 1, Ring_Submits 256] @
     [At_Bench (Client_Thread 0)]"

definition ring_demo :: "ring_act list \<Rightarrow> pipes ring_world option" where
  "ring_demo as =
     (case uring_server_new pipe_server (\<lambda>n. pipe_open) 8082 pipes_new of
        (Inl e, w) \<Rightarrow> None
      | (Inr srv, w) \<Rightarrow>
          Option.bind (clients_new 1 1 w) (\<lambda>cl.
            prun (ring_world_step pipe_server pipe_client True pipe_connect pipe_clock [97, 98] 1) as (ring_world_new srv cl w)))"

lemma ring_demo_run:
  assumes "ring_demo as = Some x"
  obtains srv w cl where "uring_server_new pipe_server (\<lambda>n. pipe_open) 8082 pipes_new = (Inr srv, w)" "clients_new 1 1 w = Some cl"
    "prun (ring_world_step pipe_server pipe_client True pipe_connect pipe_clock [97, 98] 1) as (ring_world_new srv cl w) = Some x"
  using assms by (auto simp: ring_demo_def bind_eq_Some_conv split: prod.splits sum.splits)

lemma ring_pipe_new:
  "uring_server_new pipe_server (\<lambda>n. pipe_open) 8082 pipes_new = (Inr srv, w) \<Longrightarrow> pipe_peer w c = None"
  by (auto simp: uring_server_new_def pipe_defs pipes_new_def pipe_peer_def)

lemma ring_trip_run:
  "\<exists>x. ring_demo ring_trip = Some x \<and> pipe_peer (ring_net x) 5 = Some 6 \<and> 6 \<in> conns (ring_side x) \<and> 6 \<notin> short (ring_side x) \<and>
     cgot (cside (ring_net x)) 5 = [97, 98]"
  by (simp add: ring_demo_def ring_trip_def uring_server_new_def pipe_defs pipes_new_def pipe_peer_def clients_new_def thread_counts_def
      ring_world_step_def ring_world_new_def ring_complete_def ring_close_def client_step_def main_turn_def eval_nat_numeral
      uring_eval QUEUE_DEPTH_def)


end
