(* ===== verification/Two_Threads.thy ===== *)
theory Two_Threads imports
  Prelude
begin

text \<open>
  Two threads, a producer and a consumer, that busy-wait for each other, as both benchmarks
  of \<open>ring_buffer_benchmark.cc\<close> have them. A schedule says which thread takes the next step.
  The interface names what a program has to show for every fair schedule to finish it: a
  measure that no step increases, and at every moment one of the two threads that can lower it.
\<close>

datatype thread = Producer | Consumer

fun run_threads :: "(thread \<Rightarrow> 's \<Rightarrow> 's) \<Rightarrow> thread list \<Rightarrow> 's \<Rightarrow> 's" where
  "run_threads step [] s = s"
| "run_threads step (t # ts) s = run_threads step ts (step t s)"

text \<open>A round lets both threads run at least once, in any order and any number of times.\<close>

definition fair_rounds :: "thread list list \<Rightarrow> bool" where
  "fair_rounds rounds \<longleftrightarrow> list_all (\<lambda>r. Producer \<in> set r \<and> Consumer \<in> set r) rounds"

lemma run_threads_append: "run_threads step (xs @ ys) s = run_threads step ys (run_threads step xs s)"
  by (induction xs arbitrary: s) auto

lemma run_threads_inv:
  "(\<And>t s. I s \<Longrightarrow> I (step t s)) \<Longrightarrow> I s \<Longrightarrow> I (run_threads step ts s)"
  by (induction ts arbitrary: s) auto

locale waiting_threads =
  fixes step :: "thread \<Rightarrow> 's \<Rightarrow> 's"
    and wf :: "'s \<Rightarrow> bool"
    and fin :: "'s \<Rightarrow> bool"
    and starved :: "'s \<Rightarrow> bool"
    and work :: "'s \<Rightarrow> nat"
  assumes wf_step: "wf s \<Longrightarrow> wf (step t s)"
    and fin_step: "wf s \<Longrightarrow> fin s \<Longrightarrow> fin (step t s)"
    and work_step: "wf s \<Longrightarrow> work (step t s) \<le> work s"
    and prod_moves: "wf s \<Longrightarrow> \<not> fin s \<Longrightarrow> starved s \<Longrightarrow> work (step Producer s) < work s"
    and cons_waits: "wf s \<Longrightarrow> \<not> fin s \<Longrightarrow> starved s \<Longrightarrow> starved (step Consumer s) \<and> \<not> fin (step Consumer s)"
    and cons_moves: "wf s \<Longrightarrow> \<not> fin s \<Longrightarrow> \<not> starved s \<Longrightarrow> work (step Consumer s) < work s"
    and prod_waits: "wf s \<Longrightarrow> \<not> fin s \<Longrightarrow> \<not> starved s \<Longrightarrow> \<not> starved (step Producer s) \<and> \<not> fin (step Producer s)"
begin

lemmas progress_laws = wf_step fin_step work_step prod_moves cons_waits cons_moves prod_waits

lemma run_wf: "wf s \<Longrightarrow> wf (run_threads step ts s)"
  by (rule run_threads_inv [where I = wf]) (rule wf_step)

lemma run_fin: "wf s \<Longrightarrow> fin s \<Longrightarrow> fin (run_threads step ts s)"
  using run_threads_inv [where I = "\<lambda>s. wf s \<and> fin s" and step = step and ts = ts and s = s]
  by (blast intro: wf_step fin_step)

lemma run_work: "wf s \<Longrightarrow> work (run_threads step ts s) \<le> work s"
  by (induction ts arbitrary: s) (auto intro: order_trans work_step wf_step)

lemma starved_round:
  "wf s \<Longrightarrow> \<not> fin s \<Longrightarrow> starved s \<Longrightarrow> Producer \<in> set ts \<Longrightarrow> work (run_threads step ts s) < work s"
proof (induction ts arbitrary: s)
  case (Cons t ts)
  show ?case
  proof (cases t)
    case Producer
    with Cons.prems show ?thesis
      using prod_moves [of s] run_work [OF wf_step [of s Producer], of ts] by simp
  next
    case Consumer
    with Cons.prems have "work (run_threads step ts (step t s)) < work (step t s)"
      using cons_waits [of s] by (intro Cons.IH) (auto intro: wf_step)
    with work_step [of s t] Cons.prems(1) show ?thesis by simp
  qed
qed simp

lemma busy_round:
  "wf s \<Longrightarrow> \<not> fin s \<Longrightarrow> \<not> starved s \<Longrightarrow> Consumer \<in> set ts \<Longrightarrow> work (run_threads step ts s) < work s"
proof (induction ts arbitrary: s)
  case (Cons t ts)
  show ?case
  proof (cases t)
    case Consumer
    with Cons.prems show ?thesis
      using cons_moves [of s] run_work [OF wf_step [of s Consumer], of ts] by simp
  next
    case Producer
    with Cons.prems have "work (run_threads step ts (step t s)) < work (step t s)"
      using prod_waits [of s] by (intro Cons.IH) (auto intro: wf_step)
    with work_step [of s t] Cons.prems(1) show ?thesis by simp
  qed
qed simp

text \<open>Every fair schedule with as many rounds as there is work finishes.\<close>

lemma fair_finishes:
  "wf s \<Longrightarrow> fair_rounds rounds \<Longrightarrow> work s \<le> length rounds \<Longrightarrow> fin (run_threads step (concat rounds) s)"
proof (induction rounds arbitrary: s)
  case Nil
  then show ?case
    using prod_moves [of s] cons_moves [of s] by auto
next
  case (Cons r rounds)
  let ?s = "run_threads step r s"
  have wf: "wf ?s" by (rule run_wf [OF Cons.prems(1)])
  show ?case
  proof (cases "fin s")
    case True
    then show ?thesis by (rule run_fin [OF Cons.prems(1)])
  next
    case False
    then have "work ?s < work s"
      using starved_round [of s r] busy_round [of s r] Cons.prems by (auto simp: fair_rounds_def)
    then have "fin (run_threads step (concat rounds) ?s)"
      using Cons.prems by (intro Cons.IH wf) (auto simp: fair_rounds_def)
    then show ?thesis by (simp add: run_threads_append)
  qed
qed

end

end
