(* ===== verification/Mutex_Queue.thy ===== *)
theory Mutex_Queue imports
  Ring_Buffer
begin

text \<open>
  \<open>MutexQueue<T>\<close> of \<open>src/ring_buffer_benchmark.cc\<close>: a \<open>std::queue\<close> with a capacity under a
  mutex. The body of each loop iteration is one critical section and is modelled as one
  operation that reports whether the call can return; the loops around it spin until it does.
\<close>

record 'a mutex_queue =
  mq_items :: "'a list"
  mq_cap :: u64

definition mutex_queue_new :: "u64 \<Rightarrow> 'a mutex_queue" where
  "mutex_queue_new cap = \<lparr>mq_items = [], mq_cap = cap\<rparr>"

definition mutex_try_push :: "'a \<Rightarrow> 'a mutex_queue \<Rightarrow> bool \<times> 'a mutex_queue" where
  "mutex_try_push item m =
     (if length (mq_items m) < unat (mq_cap m) then (True, m\<lparr>mq_items := mq_items m @ [item]\<rparr>) else (False, m))"

definition mutex_try_pop :: "'a \<Rightarrow> 'a mutex_queue \<Rightarrow> bool \<times> 'a \<times> 'a mutex_queue" where
  "mutex_try_pop item m =
     (case mq_items m of [] \<Rightarrow> (False, item, m) | x # xs \<Rightarrow> (True, x, m\<lparr>mq_items := xs\<rparr>))"

text \<open>
  The whole calls. \<open>env\<close> lists what the other threads do to the queue at each \<open>CPU_PAUSE()\<close>;
  \<open>None\<close> is a call still spinning when the list ends.
\<close>

fun mutex_push :: "('a mutex_queue \<Rightarrow> 'a mutex_queue) list \<Rightarrow> 'a \<Rightarrow> 'a mutex_queue \<Rightarrow> 'a mutex_queue option" where
  "mutex_push env item m =
     (case mutex_try_push item m of
        (True, m') \<Rightarrow> Some m'
      | (False, m') \<Rightarrow> (case env of [] \<Rightarrow> None | f # fs \<Rightarrow> mutex_push fs item (f m')))"

fun mutex_pop :: "('a mutex_queue \<Rightarrow> 'a mutex_queue) list \<Rightarrow> 'a \<Rightarrow> 'a mutex_queue \<Rightarrow> ('a \<times> 'a mutex_queue) option" where
  "mutex_pop env item m =
     (case mutex_try_pop item m of
        (True, x, m') \<Rightarrow> Some (x, m')
      | (False, x, m') \<Rightarrow> (case env of [] \<Rightarrow> None | f # fs \<Rightarrow> mutex_pop fs x (f m')))"

definition mutex_inv :: "u64 \<Rightarrow> 'a mutex_queue \<Rightarrow> bool" where
  "mutex_inv cap m \<longleftrightarrow> mq_cap m = cap \<and> length (mq_items m) \<le> unat cap"

lemma mutex_inv_new: "mutex_inv cap (mutex_queue_new cap)"
  by (simp add: mutex_inv_def mutex_queue_new_def)

interpretation mtxq: bounded_queue mutex_try_push mutex_try_pop mq_items "mutex_inv cap" "unat cap" for cap
proof (unfold_locales, goal_cases)
  case (1 q)
  then show ?case by (simp add: mutex_inv_def)
next
  case (2 q x b q')
  then show ?case by (auto simp: mutex_inv_def mutex_try_push_def fifo_push_def split: if_splits)
next
  case (3 q v b y q')
  then show ?case by (auto simp: mutex_inv_def mutex_try_pop_def fifo_pop_def split: list.splits)
qed

text \<open>
  Same bounded semantics: a \<open>MutexQueue\<close> and an \<open>SPSCRingBuffer\<close> of the same capacity
  return the same results to every sequence of push and pop attempts and end with the same
  items.
\<close>

theorem mutex_queue_equals_ring:
  assumes "size_ok sz"
    and "run_ops mutex_try_push mutex_try_pop es (mutex_queue_new sz) = (rs, m)"
    and "run_ops (bench_ring_push sz) (bench_ring_pop moved sz) es (spsc_new sz d) = (rs', q)"
  shows "rs = rs' \<and> mq_items m = ring_contents sz q"
  by (rule bounded_queues_agree [OF mtxq.bounded_queue_axioms bspsc.bounded_queue_axioms
        mutex_inv_new ring_inv_new [OF assms(1)] _ assms(2,3)])
    (simp add: ring_contents_new mutex_queue_new_def)

theorem mutex_queue_equals_ring_witness:
  "size_ok 1 \<and> [Pushed True, Pushed False, Popped True 5, Popped False 3] =
     fst (run_ops (bench_ring_push 1) (bench_ring_pop id 1) [Push 5, Push 6, Pop 3, Pop 3] (spsc_new 1 (0::int)))"
proof -
  let ?es = "[Push 5, Push 6, Pop 3, Pop 3 :: int qop]"
  have ok: "size_ok 1" by (simp add: size_ok_def)
  have "run_ops mutex_try_push mutex_try_pop ?es (mutex_queue_new 1) =
      ([Pushed True, Pushed False, Popped True 5, Popped False 3], \<lparr>mq_items = [], mq_cap = 1\<rparr>)"
    by (simp add: mutex_try_push_def mutex_try_pop_def mutex_queue_new_def)
  from mutex_queue_equals_ring [OF ok this, of id] ok show ?thesis
    by (metis prod.collapse)
qed

definition mutex_full :: "'a mutex_queue \<Rightarrow> bool" where
  "mutex_full m \<longleftrightarrow> \<not> length (mq_items m) < unat (mq_cap m)"

text \<open>The queue when a call has paused \<open>k\<close> times, its own state being left alone.\<close>

fun after_pauses :: "('a mutex_queue \<Rightarrow> 'a mutex_queue) list \<Rightarrow> nat \<Rightarrow> 'a mutex_queue \<Rightarrow> 'a mutex_queue" where
  "after_pauses env 0 m = m"
| "after_pauses [] (Suc k) m = m"
| "after_pauses (f # fs) (Suc k) m = after_pauses fs k (f m)"

text \<open>
  The blocking \<open>push\<close> returns at the first of its critical sections that finds room, after
  exactly the interference of the other threads before it, and leaves the item last; it does
  not return while every section finds the queue full.
\<close>

theorem mutex_push_returns:
  "mutex_push env item m = Some m' \<longleftrightarrow>
   (\<exists>k\<le>length env. (\<forall>j<k. mutex_full (after_pauses env j m)) \<and> \<not> mutex_full (after_pauses env k m) \<and>
      m' = (after_pauses env k m)\<lparr>mq_items := mq_items (after_pauses env k m) @ [item]\<rparr>)"
proof (induction env arbitrary: m)
  case Nil
  then show ?case by (auto simp: mutex_try_push_def mutex_full_def)
next
  case (Cons f fs)
  have ex: "(\<exists>k. Q k) \<longleftrightarrow> Q 0 \<or> (\<exists>k. Q (Suc k))" for Q :: "nat \<Rightarrow> bool"
    by (metis not0_implies_Suc)
  show ?case
  proof (cases "mutex_full m")
    case False
    then have "mutex_push (f # fs) item m = Some (m\<lparr>mq_items := mq_items m @ [item]\<rparr>)"
      by (simp add: mutex_try_push_def mutex_full_def)
    with False show ?thesis by (subst ex) (auto simp: All_less_Suc2)
  next
    case True
    then have step: "mutex_push (f # fs) item m = mutex_push fs item (f m)"
      by (simp add: mutex_try_push_def mutex_full_def)
    show ?thesis
      unfolding step Cons.IH [of "f m"] using True by (subst (2) ex) (simp add: All_less_Suc2)
  qed
qed

theorem mutex_push_returns_witness:
  "mutex_push [\<lambda>m. m, \<lambda>m. m\<lparr>mq_items := []\<rparr>] 7 \<lparr>mq_items = [5::int], mq_cap = 1\<rparr> =
   Some \<lparr>mq_items = [7], mq_cap = 1\<rparr>"
  by (rule mutex_push_returns [THEN iffD2], rule exI [of _ 2])
    (auto simp: mutex_full_def numeral_2_eq_2 less_Suc_eq)

end
