(* ===== verification/Queue_Bench.thy ===== *)
theory Queue_Bench imports
  Two_Threads
  Mutex_Queue
begin

text \<open>
  \<open>bench_ring\<close> and \<open>bench_mutex\<close> of \<open>src/ring_buffer_benchmark.cc\<close>: a producer thread pushes
  0, 1, ..., \<open>num_messages - 1\<close>, a consumer thread pops. One step of a thread is one call on
  the queue or one access to an atomic; a failed call followed by \<open>CPU_PAUSE()\<close> is a step that
  leaves the thread where it is. The measurements around the threads are in Queue_Report, and the
  single memory accesses of \<open>bench_ring\<close> in Ring_Bench_Concurrent.
\<close>

definition RING_SIZE :: u64 where
  "RING_SIZE = 4096"

lemma ring_size_facts [simp]: "size_ok RING_SIZE" "unat RING_SIZE = 4096"
  by (simp_all add: RING_SIZE_def size_ok_def)

subsection \<open>bench_ring\<close>

text \<open>
  The consumer: in the loop, after a failed pop about to load \<open>done\<close>, in the draining loop,
  or finished. \<open>bench_got\<close> records the values popped.
\<close>

datatype ring_pc = RLoop | RCheck | RDrain | REnd

record ring_bench =
  bench_ring :: "u64 spsc"
  bench_i :: u64
  bench_done :: bool
  bench_pc :: ring_pc
  bench_val :: u64
  bench_got :: "u64 list"

definition ring_bench_new :: "u64 \<Rightarrow> ring_bench" where
  "ring_bench_new v =
     \<lparr>bench_ring = spsc_new RING_SIZE 0, bench_i = 0, bench_done = False,
      bench_pc = RLoop, bench_val = v, bench_got = []\<rparr>"

definition ring_producer :: "u64 \<Rightarrow> ring_bench \<Rightarrow> ring_bench" where
  "ring_producer num_messages s =
     (if bench_i s < num_messages then
        (case bench_ring_push RING_SIZE (bench_i s) (bench_ring s) of
           (True, q) \<Rightarrow> s\<lparr>bench_ring := q, bench_i := bench_i s + 1\<rparr>
         | (False, q) \<Rightarrow> s\<lparr>bench_ring := q\<rparr>)
      else s\<lparr>bench_done := True\<rparr>)"

definition ring_consumer :: "ring_bench \<Rightarrow> ring_bench" where
  "ring_consumer s =
     (case bench_pc s of
        RLoop \<Rightarrow>
          (case bench_ring_pop id RING_SIZE (bench_val s) (bench_ring s) of
             (True, v, q) \<Rightarrow> s\<lparr>bench_ring := q, bench_val := v, bench_got := bench_got s @ [v]\<rparr>
           | (False, v, q) \<Rightarrow> s\<lparr>bench_ring := q, bench_val := v, bench_pc := RCheck\<rparr>)
      | RCheck \<Rightarrow> s\<lparr>bench_pc := (if bench_done s then RDrain else RLoop)\<rparr>
      | RDrain \<Rightarrow>
          (case bench_ring_pop id RING_SIZE (bench_val s) (bench_ring s) of
             (True, v, q) \<Rightarrow> s\<lparr>bench_ring := q, bench_val := v, bench_got := bench_got s @ [v]\<rparr>
           | (False, v, q) \<Rightarrow> s\<lparr>bench_ring := q, bench_val := v, bench_pc := REnd\<rparr>)
      | REnd \<Rightarrow> s)"

fun ring_bench_step :: "u64 \<Rightarrow> thread \<Rightarrow> ring_bench \<Rightarrow> ring_bench" where
  "ring_bench_step n Producer s = ring_producer n s"
| "ring_bench_step n Consumer s = ring_consumer s"

abbreviation ring_items :: "ring_bench \<Rightarrow> u64 list" where
  "ring_items s \<equiv> ring_contents RING_SIZE (bench_ring s)"

definition ring_bench_wf :: "u64 \<Rightarrow> ring_bench \<Rightarrow> bool" where
  "ring_bench_wf n s \<longleftrightarrow> ring_inv RING_SIZE (bench_ring s) \<and> unat (bench_i s) \<le> unat n \<and>
     bench_got s @ ring_items s = map of_nat [0..<unat (bench_i s)] \<and>
     (bench_done s \<longrightarrow> bench_i s = n) \<and>
     (bench_pc s = RDrain \<or> bench_pc s = REnd \<longrightarrow> bench_done s) \<and>
     (bench_pc s = REnd \<longrightarrow> ring_items s = [])"

fun ring_rank :: "ring_pc \<Rightarrow> nat" where
  "ring_rank RLoop = 3"
| "ring_rank RCheck = 2"
| "ring_rank RDrain = 1"
| "ring_rank REnd = 0"

definition ring_work :: "u64 \<Rightarrow> ring_bench \<Rightarrow> nat" where
  "ring_work n s = 4 * (unat n - unat (bench_i s)) + 4 * (unat n - length (bench_got s)) +
     (if bench_done s then ring_rank (bench_pc s)
      else 7 + (if bench_pc s = RCheck \<and> ring_items s \<noteq> [] then 1 else 0))"

lemma ring_bench_wf_new: "ring_bench_wf n (ring_bench_new v)"
  by (simp add: ring_bench_wf_def ring_bench_new_def ring_inv_new ring_contents_new)

lemma bench_counts:
  "ring_bench_wf n s \<Longrightarrow> length (bench_got s) + length (ring_items s) = unat (bench_i s)"
  by (metis ring_bench_wf_def length_append length_map length_upt diff_zero)

lemma ring_producer_step:
  assumes wf: "ring_bench_wf n s"
  shows "ring_bench_wf n (ring_producer n s) \<and> ring_work n (ring_producer n s) \<le> ring_work n s \<and>
    bench_pc (ring_producer n s) = bench_pc s \<and>
    (ring_items s \<noteq> [] \<longrightarrow> ring_items (ring_producer n s) \<noteq> []) \<and>
    (bench_done s \<longrightarrow> bench_done (ring_producer n s)) \<and>
    (ring_items s = [] \<and> \<not> bench_done s \<longrightarrow> ring_work n (ring_producer n s) < ring_work n s)"
proof (cases "bench_i s < n")
  case True
  have inv: "ring_inv RING_SIZE (bench_ring s)" using wf by (simp add: ring_bench_wf_def)
  have i: "unat (bench_i s + 1) = Suc (unat (bench_i s))" "unat (bench_i s) < unat n"
    using True unat_Suc_less [OF True] by (simp_all add: word_less_nat_alt)
  from inv show ?thesis
  proof (cases rule: bspsc.push_cases [where x = "bench_i s"])
    case (room q)
    then show ?thesis
      using wf True i
      by (auto simp: ring_producer_def ring_bench_wf_def ring_work_def)
  next
    case (full q)
    then show ?thesis
      using wf True i
      by (auto simp: ring_producer_def ring_bench_wf_def ring_work_def)
  qed
next
  case False
  then show ?thesis
    using wf by (cases "bench_pc s")
      (auto simp: ring_producer_def ring_bench_wf_def ring_work_def word_less_nat_alt word_le_nat_alt
        word_unat_eq_iff)
qed

lemma ring_consumer_step:
  assumes wf: "ring_bench_wf n s"
  shows "ring_bench_wf n (ring_consumer s) \<and> ring_work n (ring_consumer s) \<le> ring_work n s \<and>
    bench_done (ring_consumer s) = bench_done s \<and>
    (bench_pc s = REnd \<longrightarrow> ring_consumer s = s) \<and>
    (ring_items s = [] \<longrightarrow> ring_items (ring_consumer s) = []) \<and>
    (bench_pc s \<noteq> REnd \<and> (ring_items s \<noteq> [] \<or> bench_done s) \<longrightarrow>
       ring_work n (ring_consumer s) < ring_work n s)"
proof -
  have inv: "ring_inv RING_SIZE (bench_ring s)" using wf by (simp add: ring_bench_wf_def)
  have le: "length (bench_got s) + length (ring_items s) \<le> unat n"
    using bench_counts [OF wf] wf by (simp add: ring_bench_wf_def)
  from inv show ?thesis
  proof (cases rule: bspsc.pop_cases [where v = "bench_val s" and moved = id])
    case (item y q)
    then show ?thesis
      using wf le by (cases "bench_pc s") (auto simp: ring_consumer_def ring_bench_wf_def ring_work_def)
  next
    case (empty q)
    then show ?thesis
      using wf le by (cases "bench_pc s") (auto simp: ring_consumer_def ring_bench_wf_def ring_work_def)
  qed
qed

interpretation ringb: waiting_threads "ring_bench_step n" "ring_bench_wf n" "\<lambda>s. bench_pc s = REnd"
  "\<lambda>s. ring_items s = [] \<and> \<not> bench_done s" "ring_work n" for n
proof (unfold_locales, goal_cases)
  case (1 s t)
  then show ?case using ring_producer_step [of n s] ring_consumer_step [of n s] by (cases t) auto
next
  case (2 s t)
  then show ?case using ring_producer_step [of n s] ring_consumer_step [of n s] by (cases t) auto
next
  case (3 s t)
  then show ?case using ring_producer_step [of n s] ring_consumer_step [of n s] by (cases t) auto
next
  case (4 s)
  then show ?case using ring_producer_step [of n s] by simp
next
  case (5 s)
  then have "bench_pc s = RLoop \<or> bench_pc s = RCheck"
    by (cases "bench_pc s") (auto simp: ring_bench_wf_def)
  with 5 show ?case
    using ring_consumer_step [of n s] by (auto simp: ring_bench_wf_def)
next
  case (6 s)
  then show ?case using ring_consumer_step [of n s] by auto
next
  case (7 s)
  then show ?case using ring_producer_step [of n s] by auto
qed

text \<open>What has arrived under any schedule.\<close>

lemma ring_bench_prefix:
  "(\<exists>k\<le>unat n. bench_got (run_threads (ring_bench_step n) ts (ring_bench_new v)) = map of_nat [0..<k]) \<and>
   (bench_pc (run_threads (ring_bench_step n) ts (ring_bench_new v)) = REnd \<longrightarrow>
      bench_got (run_threads (ring_bench_step n) ts (ring_bench_new v)) = map of_nat [0..<unat n])"
proof -
  let ?s = "run_threads (ring_bench_step n) ts (ring_bench_new v)"
  let ?k = "length (bench_got ?s)"
  have wf: "ring_bench_wf n ?s" by (rule ringb.run_wf [OF ring_bench_wf_new])
  have all: "bench_got ?s @ ring_items ?s = map of_nat [0..<unat (bench_i ?s)]"
    using wf by (simp add: ring_bench_wf_def)
  have k: "?k \<le> unat (bench_i ?s)" "unat (bench_i ?s) \<le> unat n"
    using bench_counts [OF wf] wf by (simp_all add: ring_bench_wf_def)
  have "bench_got ?s = take ?k (map of_nat [0..<unat (bench_i ?s)])"
    unfolding all [symmetric] by simp
  also have "\<dots> = map of_nat [0..<?k]" using k by (simp add: take_map)
  finally have "\<exists>k\<le>unat n. bench_got ?s = map of_nat [0..<k]" using k by (meson order_trans)
  moreover have "bench_got ?s = map of_nat [0..<unat n]" if "bench_pc ?s = REnd"
    using wf that by (auto simp: ring_bench_wf_def)
  ultimately show ?thesis by blast
qed

text \<open>
  C34. \<open>bench_ring\<close> delivers and terminates: under every schedule the consumer has received a prefix of
  0, 1, 2, ..., and when it leaves its loop, through the load of \<open>done\<close> and the draining loop,
  it has received all \<open>num_messages\<close> values, once each and in order; and whatever the scheduler does inside a
  round, once both threads have run in each of \<open>8 * num_messages + 7\<close> rounds it has left its loop.
\<close>

theorem ring_bench_correct:
  "(\<exists>k\<le>unat n. bench_got (run_threads (ring_bench_step n) ts (ring_bench_new v)) = map of_nat [0..<k]) \<and>
   (bench_pc (run_threads (ring_bench_step n) ts (ring_bench_new v)) = REnd \<longrightarrow>
      bench_got (run_threads (ring_bench_step n) ts (ring_bench_new v)) = map of_nat [0..<unat n]) \<and>
   (fair_rounds rounds \<and> 8 * unat n + 7 \<le> length rounds \<longrightarrow>
      bench_pc (run_threads (ring_bench_step n) (concat rounds) (ring_bench_new v)) = REnd)"
proof -
  have "bench_pc (run_threads (ring_bench_step n) (concat rounds) (ring_bench_new v)) = REnd"
    if "fair_rounds rounds" "8 * unat n + 7 \<le> length rounds"
    by (rule ringb.fair_finishes [OF ring_bench_wf_new that(1)])
      (use that(2) in \<open>simp add: ring_work_def ring_bench_new_def\<close>)
  with ring_bench_prefix [of n ts v] show ?thesis by blast
qed

theorem ring_bench_correct_witness:
  "bench_got (run_threads (ring_bench_step 1) (concat (replicate 15 [Consumer, Producer])) (ring_bench_new 9)) = [0]"
proof -
  have "fair_rounds (replicate 15 [Consumer, Producer])" by (simp add: fair_rounds_def list_all_iff)
  then show ?thesis
    using ring_bench_correct [of 1 "concat (replicate 15 [Consumer, Producer])" 9 "replicate 15 [Consumer, Producer]"]
    by (simp del: run_threads.simps)
qed

subsection \<open>bench_mutex\<close>

datatype mutex_pc = MWhile | MPop | MInc | MEnd

record mutex_bench =
  mb_queue :: "u64 mutex_queue"
  mb_i :: u64
  mb_consumed :: u64
  mb_pc :: mutex_pc
  mb_val :: u64
  mb_got :: "u64 list"

definition mutex_bench_new :: "u64 \<Rightarrow> mutex_bench" where
  "mutex_bench_new v =
     \<lparr>mb_queue = mutex_queue_new RING_SIZE, mb_i = 0, mb_consumed = 0,
      mb_pc = MWhile, mb_val = v, mb_got = []\<rparr>"

definition mutex_producer :: "u64 \<Rightarrow> mutex_bench \<Rightarrow> mutex_bench" where
  "mutex_producer num_messages s =
     (if mb_i s < num_messages then
        (case mutex_try_push (mb_i s) (mb_queue s) of
           (True, q) \<Rightarrow> s\<lparr>mb_queue := q, mb_i := mb_i s + 1\<rparr>
         | (False, q) \<Rightarrow> s\<lparr>mb_queue := q\<rparr>)
      else s)"

definition mutex_consumer :: "u64 \<Rightarrow> mutex_bench \<Rightarrow> mutex_bench" where
  "mutex_consumer num_messages s =
     (case mb_pc s of
        MWhile \<Rightarrow> s\<lparr>mb_pc := (if mb_consumed s < num_messages then MPop else MEnd)\<rparr>
      | MPop \<Rightarrow>
          (case mutex_try_pop (mb_val s) (mb_queue s) of
             (True, v, q) \<Rightarrow> s\<lparr>mb_queue := q, mb_val := v, mb_got := mb_got s @ [v], mb_pc := MInc\<rparr>
           | (False, v, q) \<Rightarrow> s\<lparr>mb_queue := q, mb_val := v\<rparr>)
      | MInc \<Rightarrow> s\<lparr>mb_consumed := mb_consumed s + 1, mb_pc := MWhile\<rparr>
      | MEnd \<Rightarrow> s)"

fun mutex_bench_step :: "u64 \<Rightarrow> thread \<Rightarrow> mutex_bench \<Rightarrow> mutex_bench" where
  "mutex_bench_step n Producer s = mutex_producer n s"
| "mutex_bench_step n Consumer s = mutex_consumer n s"

definition mutex_bench_wf :: "u64 \<Rightarrow> mutex_bench \<Rightarrow> bool" where
  "mutex_bench_wf n s \<longleftrightarrow> mutex_inv RING_SIZE (mb_queue s) \<and> unat (mb_i s) \<le> unat n \<and>
     mb_got s @ mq_items (mb_queue s) = map of_nat [0..<unat (mb_i s)] \<and>
     length (mb_got s) = unat (mb_consumed s) + (if mb_pc s = MInc then 1 else 0) \<and>
     (mb_pc s = MPop \<longrightarrow> mb_consumed s < n) \<and> (mb_pc s = MEnd \<longrightarrow> \<not> mb_consumed s < n)"

fun mutex_rank :: "mutex_pc \<Rightarrow> nat" where
  "mutex_rank MWhile = 1"
| "mutex_rank MPop = 0"
| "mutex_rank MInc = 2"
| "mutex_rank MEnd = 0"

definition mutex_work :: "u64 \<Rightarrow> mutex_bench \<Rightarrow> nat" where
  "mutex_work n s = (unat n - unat (mb_i s)) + 3 * (unat n - length (mb_got s)) + mutex_rank (mb_pc s)"

abbreviation mutex_starved :: "mutex_bench \<Rightarrow> bool" where
  "mutex_starved s \<equiv> mb_pc s = MPop \<and> mq_items (mb_queue s) = []"

lemma mutex_bench_wf_new: "mutex_bench_wf n (mutex_bench_new v)"
  by (simp add: mutex_bench_wf_def mutex_bench_new_def mutex_inv_new) (simp add: mutex_queue_new_def)

lemma mutex_counts:
  "mutex_bench_wf n s \<Longrightarrow> length (mb_got s) + length (mq_items (mb_queue s)) = unat (mb_i s)"
  by (metis mutex_bench_wf_def length_append length_map length_upt diff_zero)

lemma mutex_producer_step:
  assumes wf: "mutex_bench_wf n s"
  shows "mutex_bench_wf n (mutex_producer n s) \<and> mutex_work n (mutex_producer n s) \<le> mutex_work n s \<and>
    mb_pc (mutex_producer n s) = mb_pc s \<and>
    (mq_items (mb_queue s) \<noteq> [] \<longrightarrow> mq_items (mb_queue (mutex_producer n s)) \<noteq> []) \<and>
    (mutex_starved s \<longrightarrow> mutex_work n (mutex_producer n s) < mutex_work n s)"
proof (cases "mb_i s < n")
  case True
  have inv: "mutex_inv RING_SIZE (mb_queue s)" using wf by (simp add: mutex_bench_wf_def)
  have i: "unat (mb_i s + 1) = Suc (unat (mb_i s))" "unat (mb_i s) < unat n"
    using True unat_Suc_less [OF True] by (simp_all add: word_less_nat_alt)
  from inv show ?thesis
  proof (cases rule: mtxq.push_cases [where x = "mb_i s"])
    case (room q)
    then show ?thesis
      using wf True i
      by (auto simp: mutex_producer_def mutex_bench_wf_def mutex_work_def)
  next
    case (full q)
    then show ?thesis
      using wf True i
      by (auto simp: mutex_producer_def mutex_bench_wf_def mutex_work_def)
  qed
next
  case False
  then have "mb_pc s = MPop \<Longrightarrow> mq_items (mb_queue s) \<noteq> []"
    using wf mutex_counts [OF wf] by (auto simp: mutex_bench_wf_def word_less_nat_alt)
  with False show ?thesis
    using wf by (simp add: mutex_producer_def)
qed

lemma mutex_consumer_step:
  assumes wf: "mutex_bench_wf n s"
  shows "mutex_bench_wf n (mutex_consumer n s) \<and> mutex_work n (mutex_consumer n s) \<le> mutex_work n s \<and>
    (mb_pc s = MEnd \<longrightarrow> mutex_consumer n s = s) \<and>
    (mutex_starved s \<longrightarrow> mutex_starved (mutex_consumer n s)) \<and>
    (mb_pc s \<noteq> MEnd \<and> \<not> mutex_starved s \<longrightarrow> mutex_work n (mutex_consumer n s) < mutex_work n s)"
proof (cases "mb_pc s")
  case MPop
  have inv: "mutex_inv RING_SIZE (mb_queue s)" using wf by (simp add: mutex_bench_wf_def)
  have lt: "unat (mb_consumed s) < unat n" using wf MPop by (simp add: mutex_bench_wf_def word_less_nat_alt)
  from inv show ?thesis
  proof (cases rule: mtxq.pop_cases [where v = "mb_val s"])
    case (item y q)
    then show ?thesis
      using wf MPop lt by (auto simp: mutex_consumer_def mutex_bench_wf_def mutex_work_def)
  next
    case (empty q)
    then show ?thesis
      using wf MPop by (auto simp: mutex_consumer_def mutex_bench_wf_def mutex_work_def)
  qed
next
  case MInc
  have le: "length (mb_got s) \<le> unat n"
    using mutex_counts [OF wf] wf by (simp add: mutex_bench_wf_def)
  then have "mb_consumed s < n"
    using wf MInc by (simp add: mutex_bench_wf_def word_less_nat_alt)
  then have "unat (mb_consumed s + 1) = Suc (unat (mb_consumed s))" by (rule unat_Suc_less)
  then show ?thesis
    using wf MInc by (simp add: mutex_consumer_def mutex_bench_wf_def mutex_work_def)
qed (use wf in \<open>auto simp: mutex_consumer_def mutex_bench_wf_def mutex_work_def\<close>)

interpretation mutexb: waiting_threads "mutex_bench_step n" "mutex_bench_wf n" "\<lambda>s. mb_pc s = MEnd"
  mutex_starved "mutex_work n" for n
proof (unfold_locales, goal_cases)
  case (1 s t)
  then show ?case using mutex_producer_step [of n s] mutex_consumer_step [of n s] by (cases t) auto
next
  case (2 s t)
  then show ?case using mutex_producer_step [of n s] mutex_consumer_step [of n s] by (cases t) auto
next
  case (3 s t)
  then show ?case using mutex_producer_step [of n s] mutex_consumer_step [of n s] by (cases t) auto
next
  case (4 s)
  then show ?case using mutex_producer_step [of n s] by simp
next
  case (5 s)
  then show ?case using mutex_consumer_step [of n s] by auto
next
  case (6 s)
  then show ?case using mutex_consumer_step [of n s] by auto
next
  case (7 s)
  then show ?case using mutex_producer_step [of n s] by auto
qed

lemma mutex_bench_all:
  assumes end': "mb_pc (run_threads (mutex_bench_step n) ts (mutex_bench_new v)) = MEnd"
  shows "mb_got (run_threads (mutex_bench_step n) ts (mutex_bench_new v)) = map of_nat [0..<unat n]"
proof -
  let ?s = "run_threads (mutex_bench_step n) ts (mutex_bench_new v)"
  have wf: "mutex_bench_wf n ?s" by (rule mutexb.run_wf [OF mutex_bench_wf_new])
  have "unat n \<le> length (mb_got ?s)"
    using wf end' by (simp add: mutex_bench_wf_def word_less_nat_alt)
  moreover have "unat (mb_i ?s) \<le> unat n" using wf by (simp add: mutex_bench_wf_def)
  ultimately have "length (mq_items (mb_queue ?s)) = 0" "unat (mb_i ?s) = unat n"
    using mutex_counts [OF wf] by linarith+
  then show ?thesis using wf by (simp add: mutex_bench_wf_def)
qed

text \<open>
  C35. \<open>bench_mutex\<close> delivers and terminates: the consumer, which counts instead of testing a
  flag, has received exactly 0, ..., \<open>num_messages - 1\<close> when it stops, and it stops under every
  schedule of \<open>4 * num_messages + 1\<close> rounds in which both threads run.
\<close>

theorem mutex_bench_correct:
  "(mb_pc (run_threads (mutex_bench_step n) ts (mutex_bench_new v)) = MEnd \<longrightarrow>
      mb_got (run_threads (mutex_bench_step n) ts (mutex_bench_new v)) = map of_nat [0..<unat n]) \<and>
   (fair_rounds rounds \<and> 4 * unat n + 1 \<le> length rounds \<longrightarrow>
      mb_pc (run_threads (mutex_bench_step n) (concat rounds) (mutex_bench_new v)) = MEnd)"
proof -
  have "mb_pc (run_threads (mutex_bench_step n) (concat rounds) (mutex_bench_new v)) = MEnd"
    if "fair_rounds rounds" "4 * unat n + 1 \<le> length rounds"
    by (rule mutexb.fair_finishes [OF mutex_bench_wf_new that(1)])
      (use that(2) in \<open>simp add: mutex_work_def mutex_bench_new_def\<close>)
  with mutex_bench_all [of n ts v] show ?thesis by blast
qed

theorem mutex_bench_correct_witness:
  "mb_got (run_threads (mutex_bench_step 2) (concat (replicate 9 [Consumer, Producer])) (mutex_bench_new 7)) = [0, 1]"
proof -
  have "fair_rounds (replicate 9 [Consumer, Producer])" by (simp add: fair_rounds_def list_all_iff)
  moreover have "map of_nat [0..<2] = [0, 1 :: u64]" by (simp add: upt_rec)
  ultimately show ?thesis
    using mutex_bench_correct [of 2 "concat (replicate 9 [Consumer, Producer])" 7 "replicate 9 [Consumer, Producer]"]
    by simp
qed

subsection \<open>The best of three\<close>

text \<open>\<open>run_bench\<close> keeps the smallest of its measurements, starting from \<open>UINT64_MAX\<close>.\<close>

definition best_of :: "u64 list \<Rightarrow> u64" where
  "best_of ts = foldl (\<lambda>best t. if t < best then t else best) (- 1) ts"

lemma best_fold:
  "foldl (\<lambda>best t. if t < best then t else best) b ts \<in> insert b (set ts) \<and>
     (\<forall>t\<in>insert b (set ts). foldl (\<lambda>best t. if t < best then t else best) b ts \<le> (t :: u64))"
proof (induction ts arbitrary: b)
  case (Cons x xs)
  from Cons.IH [of "if x < b then x else b"] show ?case
    by (cases "x < b") (auto intro: order_trans [of _ x] order_trans [of _ b])
qed simp

lemma best_of_is_least: "ts \<noteq> [] \<Longrightarrow> best_of ts \<in> set ts \<and> (\<forall>t\<in>set ts. best_of ts \<le> t)"
proof -
  assume ne: "ts \<noteq> []"
  have b: "best_of ts \<in> insert (- 1) (set ts)" "\<forall>t\<in>set ts. best_of ts \<le> t"
    using best_fold [of "- 1" ts] by (simp_all add: best_of_def)
  moreover have "best_of ts \<in> set ts" if "best_of ts = - 1"
  proof -
    have "hd ts = - 1" using b(2) that ne word_order.extremum_unique [of "hd ts"] by (metis hd_in_set)
    with that ne show ?thesis by (metis hd_in_set)
  qed
  ultimately show ?thesis by auto
qed

end
