(* ===== verification/Queue_Report.thy ===== *)
theory Queue_Report imports
  Queue_Bench
  Doubles
  Program_Args
begin

text \<open>
  What \<open>src/ring_buffer_benchmark.cc\<close> measures and prints: the measurements of \<open>bench_ring\<close> and \<open>bench_mutex\<close>, the row of
  \<open>run_bench\<close>, the ratio of the two rows, and \<open>main\<close>.
\<close>

subsection \<open>Measuring\<close>

text \<open>
  A measurement: the clock is read, the threads run as the schedule says, both are joined, and the clock is read again.
  \<open>None\<close> means that at the end of the schedule a join has not returned.
\<close>

definition measure_ring :: "u64 \<Rightarrow> u64 \<Rightarrow> thread list \<Rightarrow> nat \<Rightarrow> nat \<Rightarrow> u64 option" where
  "measure_ring num_messages val ts start stop =
     (let s = run_threads (ring_bench_step num_messages) ts (ring_bench_new val)
      in if bench_done s \<and> bench_pc s = REnd then Some (of_nat (stop - start)) else None)"

definition measure_mutex :: "u64 \<Rightarrow> u64 \<Rightarrow> thread list \<Rightarrow> nat \<Rightarrow> nat \<Rightarrow> u64 option" where
  "measure_mutex num_messages val ts start stop =
     (let s = run_threads (mutex_bench_step num_messages) ts (mutex_bench_new val)
      in if \<not> mb_i s < num_messages \<and> mb_pc s = MEnd then Some (of_nat (stop - start)) else None)"

text \<open>A run that was measured has delivered everything.\<close>

lemma measured_runs_deliver:
  "measure_ring n v ts t0 t1 = Some d \<Longrightarrow> bench_got (run_threads (ring_bench_step n) ts (ring_bench_new v)) = map of_nat [0..<unat n]"
  "measure_mutex n v ts t0 t1 = Some d \<Longrightarrow> mb_got (run_threads (mutex_bench_step n) ts (mutex_bench_new v)) = map of_nat [0..<unat n]"
  using ring_bench_prefix [of n ts v] mutex_bench_all [of n ts v]
  by (auto simp: measure_ring_def measure_mutex_def Let_def split: if_splits)

subsection \<open>The rows\<close>

record bench_row =
  row_ms :: double
  row_ops :: double
  row_ops_shown :: "u64 option"
  row_ns_per_op :: double

definition run_bench :: "u64 \<Rightarrow> u64 list \<Rightarrow> bench_row" where
  "run_bench num_messages ts =
     (let best = best_of ts;
          ms = fdiv (Fin (of_u64 best)) (Fin 1000000);
          ops = fdiv (Fin (of_u64 num_messages)) (fdiv (Fin (of_u64 best)) (Fin 1000000000));
          ns_per_op = fdiv (Fin (of_u64 best)) (Fin (of_u64 (num_messages * 2)))
      in \<lparr>row_ms = ms, row_ops = ops, row_ops_shown = to_u64 ops, row_ns_per_op = ns_per_op\<rparr>)"

record queue_table =
  ring_row :: bench_row
  mutex_row :: bench_row
  ratio :: double

datatype queue_end = Queue_Exit exit_status | Queue_Report queue_table

text \<open>\<open>ring_ns\<close> and \<open>mutex_ns\<close> are the measurements of the three iterations; those of the warm-up are discarded.\<close>

definition queue_main :: "string list \<Rightarrow> (u64 \<Rightarrow> nat \<Rightarrow> u64) \<Rightarrow> (u64 \<Rightarrow> nat \<Rightarrow> u64) \<Rightarrow> queue_end" where
  "queue_main args ring_ns mutex_ns =
     (case messages_args 10000000 args of
        Help \<Rightarrow> Queue_Exit (Exit 0)
      | Uncaught e \<Rightarrow> Queue_Exit (Terminated e)
      | Parsed num_messages \<Rightarrow>
          (let rr = run_bench num_messages (map (ring_ns num_messages) [0..<3]);
               mr = run_bench num_messages (map (mutex_ns num_messages) [0..<3])
           in Queue_Report \<lparr>ring_row = rr, mutex_row = mr, ratio = fdiv (row_ops rr) (row_ops mr)\<rparr>))"

subsection \<open>The numbers of a row\<close>

definition secs :: "u64 \<Rightarrow> rat" where
  "secs best = fl (of_u64 best / 1000000000)"

definition rate :: "u64 \<Rightarrow> u64 \<Rightarrow> rat" where
  "rate n best = fl (of_u64 n / secs best)"

lemma secs_pos [simp]: "0 < secs best \<longleftrightarrow> best \<noteq> 0"
  by (simp add: secs_def)

lemma secs_zero [simp]: "secs best = 0 \<longleftrightarrow> best = 0"
  using secs_pos [of best] fl_nonneg by (metis less_irrefl order_le_less secs_def)

lemma row_ops_rate: "best_of ts \<noteq> 0 \<Longrightarrow> row_ops (run_bench n ts) = Fin (rate n (best_of ts))"
  using secs_zero [of "best_of ts"] by (simp add: run_bench_def Let_def rate_def flip: secs_def)

lemma rate_pos [simp]: "best \<noteq> 0 \<Longrightarrow> 0 < rate n best \<longleftrightarrow> n \<noteq> 0"
  using of_u64_nonneg [of 0] by (auto simp: rate_def zero_less_divide_iff simp del: of_u64_nonneg)

lemma rate_none: "rate 0 best = 0"
  using of_u64_zero [of 0] by (simp add: rate_def del: of_u64_zero)

lemma rate_antimono:
  assumes "0 < a" "a \<le> b"
  shows "rate n b \<le> rate n a"
proof -
  have "secs a \<le> secs b" using assms(2) by (simp add: secs_def fl_mono of_u64_mono divide_right_mono)
  moreover have "0 < secs a" "0 < secs b" using assms by (auto simp: word_gt_0)
  ultimately show ?thesis unfolding rate_def by (intro fl_mono divide_left_mono mult_pos_pos) simp_all
qed

lemma near_rate:
  assumes "best \<noteq> 0"
  shows "near 6 (val_of n / (val_of best / 1000000000)) (rate n best)"
proof -
  have "near 2 (val_of best / 1000000000) (secs best)"
    using near_fl [OF near_div [OF near_of_u64 [of best] near_refl [of 1000000000]]]
    by (simp add: secs_def numeral_2_eq_2)
  then show ?thesis
    using near_fl [OF near_div [OF near_of_u64 [of n], of 2 "val_of best / 1000000000" "secs best"]] assms
    by (simp add: rate_def eval_nat_numeral)
qed

lemma best_of_Min: "ts \<noteq> [] \<Longrightarrow> best_of ts = Min (set ts)"
  using best_of_is_least [of ts] by (intro Min_eqI [symmetric]) auto



text \<open>Without messages the ratio is not a number and the time per operation is infinite.\<close>

lemma queue_no_messages:
  assumes "messages_args 10000000 args = Parsed 0" "\<forall>i<3. ring_ns 0 i \<noteq> 0 \<and> mutex_ns 0 i \<noteq> 0"
  shows "\<exists>t. queue_main args ring_ns mutex_ns = Queue_Report t \<and> ratio t = NaN \<and> row_ns_per_op (ring_row t) = Infinite"
proof -
  have "best_of (map f [0..<3]) \<in> f ` {0..<3}" for f :: "nat \<Rightarrow> u64"
    using best_of_is_least [of "map f [0..<3]"] by auto
  from this [of "ring_ns 0"] this [of "mutex_ns 0"] assms(2)
  have "best_of (map (ring_ns 0) [0..<3]) \<noteq> 0" "best_of (map (mutex_ns 0) [0..<3]) \<noteq> 0" by auto
  then have "row_ops (run_bench 0 (map (ring_ns 0) [0..<3])) = Fin 0" "row_ops (run_bench 0 (map (mutex_ns 0) [0..<3])) = Fin 0"
    "row_ns_per_op (run_bench 0 (map (ring_ns 0) [0..<3])) = Infinite"
    by (simp_all add: row_ops_rate rate_none del: upt_Suc) (simp add: run_bench_def Let_def)
  then show ?thesis by (simp add: queue_main_def assms(1) Let_def)
qed

end
