(* ===== verification/Spec2Isabelle.thy ===== *)
theory Spec2Isabelle imports
  Ring_Bench_Concurrent
  Thread_Pool
  Echo_Workers
  Uring_Clients
  Server_Programs
  Bench_Report
  Uring_Network
  Queue_Report
begin

text \<open>
  A verification development of two C++ programs: a lock-free ring buffer with its benchmark
  (\<open>src/ring_buffer.cc\<close>, \<open>src/ring_buffer_benchmark.cc\<close>) and a TCP echo server in four flavours with
  its load generator (\<open>src/echo_server\<close>).

  PARTS OF THE PROGRAM. \<open>SPSCRingBuffer<T, Size>\<close> is a bounded queue for one producer and one consumer
  thread that shares two free-running 64-bit indices and no lock. \<open>MutexQueue<T>\<close> is its rival in the
  benchmark; \<open>bench_ring\<close> and \<open>bench_mutex\<close> send n messages through one or the other. The epoll and
  kqueue servers have a network thread, which accepts connections and reads from them, and a
  \<open>ThreadPool\<close>, whose workers write the data back and close descriptors: the two meet in the task queue
  of the pool and, unprotected, in the descriptor table of the kernel. The io_uring servers have one
  thread and keep every pending operation in a heap-allocated \<open>Request\<close>, whose address travels through the
  kernel as the user data of a submission and comes back with its completion. A signal handler calls
  \<open>shutdown()\<close> on the network thread.

  THEORIES AND WHAT THEY MODEL.

  \<^item> Prelude: machine types (words of 64, 16 and 8 bits), the collections \<open>ring_simps\<close>, \<open>pool_simps\<close> and
    \<open>srv_simps\<close>, facts on powers of two, masks and lists.
  \<^item> Queue_Interface: the contract of both queues as a locale, \<open>bounded_queue\<close>, against a list with a
    capacity. Ring_Buffer: the class \<open>SPSCRingBuffer\<close> as a record of indices and slots (\<open>spsc\<close>,
    \<open>ring_push\<close>, \<open>ring_pop\<close>, and the moving variant of the benchmark), \<open>static_assert\<close> as \<open>size_ok\<close>,
    \<open>main\<close> of \<open>ring_buffer.cc\<close>. Mutex_Queue: the class \<open>MutexQueue\<close>. Both interpret \<open>bounded_queue\<close>.
  \<^item> Ring_Concurrent: \<open>push\<close> and \<open>pop\<close> of the ring split at every memory access, one thread each. An
    acquire load may return any value of the index not older than the last one the thread saw, and a
    load that reads a store with release order learns the writer's clock; a buffer access that is not
    ordered after the last conflicting one sets the flag \<open>race\<close>. Reachability is \<open>creach\<close>.
  \<^item> Two_Threads, Queue_Bench: the benchmark loops under any schedule of two busy-waiting threads, with
    calls that are atomic; the locale \<open>waiting_threads\<close> gives termination under every schedule with enough
    fair rounds. Ring_Bench_Concurrent: the loops of \<open>bench_ring\<close> around the memory accesses of
    Ring_Concurrent, with the flag \<open>done\<close> as a third atomic (\<open>rb_prod_step\<close>, \<open>rb_cons_step\<close>).
  \<^item> Doubles: the floating-point numbers of the statistics as rationals rounded to 53 bits (\<open>fl\<close>), with
    infinity and the undefined quotient, and \<open>near n\<close> for \<open>n\<close> roundings away. Queue_Report: \<open>run_bench\<close>,
    the best times, the rows and \<open>main\<close> of \<open>ring_buffer_benchmark.cc\<close>. Bench_Report: percentile, average and rate
    of \<open>bench_client.cpp\<close>, and its \<open>main\<close>.
  \<^item> Draining, Thread_Pool: \<open>ThreadPool\<close> as a transition function \<open>pool_step\<close> with one action per
    synchronisation step (\<open>worker_loop\<close>, \<open>enqueue\<close>, \<open>stop\<close>): taking and releasing \<open>mtx_\<close>, evaluating the
    predicate, falling asleep, notifications, spurious wake-ups, the flag, the joins. The locale
    \<open>draining\<close> says when a system of threads that may block gets its work done under every schedule.
    Simulation: the locale \<open>step_simulation\<close>, by which a detailed system refines an abstract one; the pool
    refines a queue with busy workers.
  \<^item> Kernel: the system calls as a record of functions on a kernel state of any type, what the servers
    rely on as \<open>kernel_contract\<close> over observables of that state (bytes read and written per
    connection, open descriptors, watched descriptors), and \<open>sim_kernel\<close>, a scripted kernel
    that satisfies the contract and on which the witnesses run.
  \<^item> Epoll_Server: constructor, destructor, event loop, accept loop, read handler and the two task
    lambdas of \<open>flavors/epoll/server.cpp\<close>. Echo_System: the same handlers with the pool's queue and
    workers as interleaved steps \<open>sys_step\<close>, one system call or queue operation each. Kqueue_Server:
    \<open>flavors/kqueue/server.cpp\<close> over the same record of calls.
  \<^item> Server_Threads: the composition. The handlers of Epoll_Server run on the network thread, the workers are those
    of Thread_Pool with mutex and condition variable, and all share one kernel (\<open>full_step\<close>); it refines
    Echo_System and is an instance of \<open>draining\<close>. Echo_Workers: what any number of workers conserve.
    Server_Shutdown: \<open>stop\<close> while echo tasks are running. Server_Process: \<open>flavors/epoll/main.cpp\<close> from the
    construction to the exit, with \<open>signal_handler\<close>, \<open>shutdown\<close> and the destructors; Kqueue_Process: the
    same for \<open>flavors/kqueue\<close>, handlers and workers included.
  \<^item> Uring_Server: \<open>flavors/iouring/server.cpp\<close>, the requests as an explicit heap with allocation and
    deletion (a use after deletion sets a flag), a submission queue of \<open>QUEUE_DEPTH\<close> = 256 entries
    that can be full, completions in any order. Uring_Service: bounds, the clients that are kept, and
    \<open>uring_run\<close>, the loop with its exits. Uring_Clients: the conversation with one client among all.
    Uring_Zc_Server: \<open>flavors/iouring_zc/server.cpp\<close>.
    Uring_Setup: constructors and destructors of both, and the stubs of other platforms. Uring_Process: both
    processes from the construction to the exit, with a signal between any two turns of the loop.
  \<^item> Server_Programs: the four server programs from the command line to the exit code (\<open>prog_step\<close>): the argument
    loop, the installation of the handlers, the construction of pool and server, the unwinding of a constructor
    that throws (\<open>~ThreadPool\<close> included), the process, and a signal between any two steps. The locale
    \<open>server_flavour\<close> states what a flavour promises; the four programs are its interpretations.
  \<^item> Program_Args: \<open>std::stoi\<close>, \<open>std::stoul\<close>, the argument loops and exit codes of every \<open>main\<close>.
    Bench_Client: \<open>bench_client.cpp\<close>, the dealing out of connections and the loops of a client thread.
    Bench_Run: \<open>run_benchmark\<close> with the main thread and all client threads, one system call or reading of the
    clock per step. Echo_Network: client and epoll server together, step by step, on one network
    (\<open>world_step\<close>); \<open>pipes\<close> is a network that keeps the laws, on which the witnesses run. Uring_Network: client
    and io_uring server on such a network (\<open>ring_world_step\<close>), where the kernel answers a submission by the call it stands for.

  WHAT THE LEMMAS SHOW. For the ring: the invariant of indices and contents across the wrap-around of
  64 bits, refinement of a bounded list on every sequence of calls, equality with the mutex queue; and
  for its concurrent form freedom from data races with the orders the source names, first-in first-out,
  linearisation at the publishing stores, and the truth of failed calls. For the benchmarks: the
  messages arrive in order and the loops end; with stale loads nothing is lost when the consumer of
  \<open>bench_ring\<close> leaves through \<open>done\<close>, and in no state are its threads stuck; the ratio printed is that of the best
  times up to a number of roundings, and says correctly which was faster. For the pool: every task is queued, running or finished
  exactly once, none is popped from an empty queue, no wake-up of a queued task is lost, all queued
  tasks finish in a bounded number of steps, a refinement of an abstract queue with busy workers, and
  the conditions under which \<open>stop\<close> returns; and executions that show what goes wrong outside these conditions.
  For the servers: which descriptors each path leaves open and registered, order and
  completeness of the echo with one worker, for the queue and for the real threads, the bytes that any number of
  workers conserve while the clients stay connected, the executions in which the echo fails with two workers or after
  \<open>EPOLLERR\<close>, equality of the kqueue and the epoll flavour; that \<open>stop\<close> and the whole process end when the clients
  read, and that one slow client keeps \<open>stop\<close> from returning. For io_uring: the ownership of the requests, the bounds of
  queue and buffers, at most one operation per client, exactly one when all is calm, the order of the echo and the
  return of every message however the completions are mixed, the refinement of the plain server
  by the zero-copy one without notifications, and the executions in which data, clients or requests
  are lost. For the programs: what the command line becomes; that the kqueue process does, step by step, what the epoll
  process does; that the io_uring processes end after a signal and leave no descriptor of their own open; that the
  benchmark client ends under every schedule of its threads, closes what it opened and counts every request of an
  established connection, whatever became of it; that the exit code of a server program is what its arguments and
  its constructor make it, and that no handled signal kills it, but that a constructor that fails can hang in the
  destruction of the pool; that the client's percentile is the nearest-rank one and its rate and mean are
  right up to a number of roundings; and, for client and epoll or io_uring server on one network, that a client only ever
  reads back the bytes it wrote, in order, and all of them once nothing is in flight.

  BOUNDS AND FUEL. Indices and capacities are 64-bit words and sizes are those that the assertion
  accepts (powers of two and 0). Loops that need not end (\<open>accept_connection\<close>, \<open>event_loop\<close>, the write
  loop of an echo task, \<open>send_all\<close> and \<open>recv_all\<close> of the client) are partial functions into \<open>option\<close>, where
  \<open>None\<close> is not returning; that they return is proved under hypotheses on the kernel, and
  \<open>echo_task_spins_when_blocked\<close> shows a case where one does not. Executions of concurrent parts are
  finite lists of actions of any length, so no fuel bounds them; the liveness theorems give the number
  of steps after which the goal is reached. The bound of a thread's own work is a natural number
  computed from the state (\<open>pool_work\<close>, \<open>full_load\<close>, \<open>client_load\<close>, \<open>rb_work\<close>). The theorems on the percentile and the
  averages hold for up to \<open>2 ^ 46\<close> latencies, far more than fit in memory; beyond, the index computed in
  floating point need not be in range.

  WHAT IS ASSUMED OF CODE NOT IN THE REPOSITORY. The theorems on the servers take any kernel with the
  laws they name: a read returns at most the number of bytes asked for, a write takes at most those
  given, \<open>accept4\<close> returns a descriptor that is not open, \<open>close\<close> closes it, and so on, each as
  the manual pages have it. Echo_Network assumes of TCP (\<open>tcp_law\<close>) that what an end reads is what the other
  end wrote, in order; of a clock it is assumed that reading it changes no connection (\<open>clock_law\<close>). \<open>sim_contract\<close> proves the laws for the scripted kernel. The zero-copy
  theorems treat the notification of \<open>IORING_OP_SEND_ZC\<close> as its manual page does: a second completion
  with the same user data.

  WHAT IS NOT MODELLED. Messages on the standard streams and the layout of the printed tables; a signal delivered to a
  worker, which would join itself, and a signal while a call of \<open>stop\<close> is under way on the network thread; memory exhaustion and
  exceptions of the standard library other than those of the number parsers and of the pool's constructor; subnormal numbers and overflow
  of doubles, which the times and counts of the statistics do not reach; \<open>server_interface.h\<close>, which
  has no behaviour; build rules and scripts. The client is composed with the
  epoll flavour, whose steps the kqueue flavour takes one by one, and with io_uring; not with the zero-copy flavour, which loses
  requests on its own. Under release/acquire, termination of \<open>bench_ring\<close> is stated as a
  continuation that exists from every state, since the memory model does not say when a store becomes visible;
  termination under every fair schedule is that of Queue_Bench, where loads return the newest value.
  For clients that disconnect, the composition with several workers has only the executions in which it fails.
\<close>

end
